(* ===== verification/Hal_Prelude.thy ===== *)
theory Hal_Prelude
  imports Main "HOL-Library.Word" "HOL-Library.State_Monad" "HOL-Library.Signed_Division"
begin

text \<open>
  Shared vocabulary of the development.

  Every routine of the sources that touches the outside world is a value of the library's
  state monad.  \<^term>\<open>run_state\<close> is split once and for all into the value a routine
  returns (\<open>result\<close>) and the state it leaves (\<open>exec\<close>), with simplification rules
  for sequencing, branching and reading the state, so that component proofs never look inside
  the monad.

  The second half is the theory of step relations: reachability that counts steps, a locale
  that turns an inductive invariant into a fact about every reachable state, and a locale that
  turns a one-step simulation into one about runs.  The step count is there because the sources
  count events in a machine word: an invariant may hold only as long as the counter has not
  wrapped.
\<close>

named_theorems frame \<open>what an operation leaves unchanged\<close>

type_synonym u8 = "8 word"
type_synonym u32 = "32 word"
type_synonym u64 = "64 word"

section \<open>State-passing routines\<close>

abbreviation ret :: "'a \<Rightarrow> ('s, 'a) state" where
  "ret \<equiv> State_Monad.return"

definition gets :: "('s \<Rightarrow> 'a) \<Rightarrow> ('s, 'a) state" where
  "gets f = State (\<lambda>s. (f s, s))"

definition modify :: "('s \<Rightarrow> 's) \<Rightarrow> ('s, unit) state" where
  "modify f = State (\<lambda>s. ((), f s))"

definition result :: "('s, 'a) state \<Rightarrow> 's \<Rightarrow> 'a" where
  "result m s = fst (run_state m s)"

definition exec :: "('s, 'a) state \<Rightarrow> 's \<Rightarrow> 's" where
  "exec m s = snd (run_state m s)"

lemma exec_return [simp]: "exec (ret x) s = s"
  and result_return [simp]: "result (ret x) s = x"
  by (simp_all add: exec_def result_def)

lemma exec_gets [simp]: "exec (gets f) s = s"
  and result_gets [simp]: "result (gets f) s = f s"
  by (simp_all add: exec_def result_def gets_def)

lemma exec_modify [simp]: "exec (modify f) s = f s"
  and result_modify [simp]: "result (modify f) s = ()"
  by (simp_all add: exec_def result_def modify_def)

lemma exec_bind [simp]: "exec (m \<bind> f) s = exec (f (result m s)) (exec m s)"
  and result_bind [simp]: "result (m \<bind> f) s = result (f (result m s)) (exec m s)"
  by (simp_all add: exec_def result_def split: prod.split)

lemma exec_if [simp]: "exec (if b then m else n) s = (if b then exec m s else exec n s)"
  and result_if [simp]: "result (if b then m else n) s = (if b then result m s else result n s)"
  by simp_all

lemma exec_case_option [simp]:
    "exec (case x of None \<Rightarrow> m | Some y \<Rightarrow> f y) s
     = (case x of None \<Rightarrow> exec m s | Some y \<Rightarrow> exec (f y) s)"
  and result_case_option [simp]:
    "result (case x of None \<Rightarrow> m | Some y \<Rightarrow> f y) s
     = (case x of None \<Rightarrow> result m s | Some y \<Rightarrow> result (f y) s)"
  by (simp_all split: option.split)

lemma exec_case_sum [simp]:
    "exec (case x of Inl e \<Rightarrow> f e | Inr y \<Rightarrow> g y) s
     = (case x of Inl e \<Rightarrow> exec (f e) s | Inr y \<Rightarrow> exec (g y) s)"
  and result_case_sum [simp]:
    "result (case x of Inl e \<Rightarrow> f e | Inr y \<Rightarrow> g y) s
     = (case x of Inl e \<Rightarrow> result (f e) s | Inr y \<Rightarrow> result (g y) s)"
  by (simp_all split: sum.split)

lemma exec_case_prod [simp]:
    "exec (case x of (a, b) \<Rightarrow> f a b) s = (case x of (a, b) \<Rightarrow> exec (f a b) s)"
  and result_case_prod [simp]:
    "result (case x of (a, b) \<Rightarrow> f a b) s = (case x of (a, b) \<Rightarrow> result (f a b) s)"
  by (simp_all split: prod.split)

text \<open>A \<open>for\<close> loop over the elements of a list.\<close>

fun for_each :: "'a list \<Rightarrow> ('a \<Rightarrow> ('s, unit) state) \<Rightarrow> ('s, unit) state" where
  "for_each [] body = ret ()"
| "for_each (x # xs) body = do { body x; for_each xs body }"

section \<open>Lists\<close>

lemma takeWhile_all: "(\<And>x. x \<in> set xs \<Longrightarrow> P x) \<Longrightarrow> takeWhile P (xs @ ys) = xs @ takeWhile P ys"
  by (induction xs) auto

lemma dropWhile_all: "(\<And>x. x \<in> set xs \<Longrightarrow> P x) \<Longrightarrow> dropWhile P (xs @ ys) = dropWhile P ys"
  by (induction xs) auto

lemma find_Some_props:
  "find P xs = Some x \<Longrightarrow> P x \<and> x \<in> set xs"
  by (induction xs) (auto split: if_splits)

section \<open>Step relations, reachability and invariants\<close>

inductive reach :: "('s \<Rightarrow> bool) \<Rightarrow> ('s \<Rightarrow> 's \<Rightarrow> bool) \<Rightarrow> nat \<Rightarrow> 's \<Rightarrow> bool"
  for init step where
  reach_init: "init s \<Longrightarrow> reach init step 0 s"
| reach_step: "reach init step n s \<Longrightarrow> step s t \<Longrightarrow> reach init step (Suc n) t"

text \<open>Runs between two given states.\<close>

inductive run :: "('s \<Rightarrow> 's \<Rightarrow> bool) \<Rightarrow> nat \<Rightarrow> 's \<Rightarrow> 's \<Rightarrow> bool" for step where
  run_refl: "run step 0 s s"
| run_snoc: "run step n s t \<Longrightarrow> step t u \<Longrightarrow> run step (Suc n) s u"

lemma run_single: "step s t \<Longrightarrow> run step (Suc 0) s t"
  by (metis run_refl run_snoc)

lemma run_trans: "run step m t u \<Longrightarrow> run step n s t \<Longrightarrow> run step (n + m) s u"
  by (induction rule: run.induct) (auto intro: run_snoc)

lemma run_mono: "run step m s t \<Longrightarrow> (\<And>s t. step s t \<Longrightarrow> step' s t) \<Longrightarrow> run step' m s t"
  by (induction rule: run.induct) (auto intro: run_refl run_snoc)

text \<open>
  An invariant indexed by the number of steps taken.  It has to be inductive only below
  \<open>bound\<close>, the number of steps after which a counter of the program may wrap.
\<close>

locale counted_invariant =
  fixes init :: "'s \<Rightarrow> bool" and step :: "'s \<Rightarrow> 's \<Rightarrow> bool"
    and inv :: "nat \<Rightarrow> 's \<Rightarrow> bool" and bound :: nat
  assumes inv_init: "init s \<Longrightarrow> inv 0 s"
    and inv_step: "inv n s \<Longrightarrow> step s t \<Longrightarrow> n < bound \<Longrightarrow> inv (Suc n) t"
begin

lemma reach_inv: "reach init step n s \<Longrightarrow> n \<le> bound \<Longrightarrow> inv n s"
  by (induction rule: reach.induct) (auto intro: inv_init inv_step)

lemma run_inv: "run step m s t \<Longrightarrow> inv n s \<Longrightarrow> n + m \<le> bound \<Longrightarrow> inv (n + m) t"
  by (induction rule: run.induct) (auto intro: inv_step)

end

text \<open>An invariant that does not depend on the number of steps is one for every bound.\<close>

locale plain_invariant =
  fixes init :: "'s \<Rightarrow> bool" and step :: "'s \<Rightarrow> 's \<Rightarrow> bool" and inv :: "'s \<Rightarrow> bool"
  assumes starts: "init s \<Longrightarrow> inv s" and keeps: "inv s \<Longrightarrow> step s t \<Longrightarrow> inv t"

sublocale plain_invariant \<subseteq> counted: counted_invariant init step "\<lambda>_. inv" bound for bound
  by unfold_locales (auto intro: starts keeps)

context plain_invariant
begin

lemma always: "reach init step n s \<Longrightarrow> inv s"
  using counted.reach_inv [of n s n] by simp

lemma throughout: "run step m s t \<Longrightarrow> inv s \<Longrightarrow> inv t"
  using counted.run_inv [of m s t 0 m] by simp

end

text \<open>
  A functional simulation: wherever the invariant holds, a concrete step is an abstract step or
  is not visible.  Runs of the program are then runs of the specification.
\<close>

locale functional_simulation = counted_invariant +
  fixes abs :: "'s \<Rightarrow> 'a" and astep :: "'a \<Rightarrow> 'a \<Rightarrow> bool"
  assumes sim_step:
    "inv n s \<Longrightarrow> step s t \<Longrightarrow> n < bound \<Longrightarrow> abs t = abs s \<or> astep (abs s) (abs t)"
begin

lemma run_simulates:
  "run step m s t \<Longrightarrow> inv n s \<Longrightarrow> n + m \<le> bound \<Longrightarrow> astep\<^sup>*\<^sup>* (abs s) (abs t)"
proof (induction rule: run.induct)
  case (run_snoc m s t u)
  then have "astep\<^sup>*\<^sup>* (abs s) (abs t)" by simp
  moreover have "inv (n + m) t"
    using run_snoc by (auto intro: run_inv)
  then have "abs u = abs t \<or> astep (abs t) (abs u)"
    using sim_step [OF _ run_snoc.hyps(2)] run_snoc.prems by auto
  ultimately show ?case by (auto intro: rtranclp.rtrancl_into_rtrancl)
qed simp

lemma reach_simulates:
  "reach init step n s \<Longrightarrow> n \<le> bound \<Longrightarrow> \<exists>s0. init s0 \<and> astep\<^sup>*\<^sup>* (abs s0) (abs s)"
proof (induction rule: reach.induct)
  case (reach_step n s t)
  then obtain s0 where "init s0" "astep\<^sup>*\<^sup>* (abs s0) (abs s)" by auto
  moreover have "abs t = abs s \<or> astep (abs s) (abs t)"
    using sim_step [OF reach_inv [OF reach_step.hyps(1)] reach_step.hyps(2)] reach_step.prems
    by auto
  ultimately show ?case by (auto intro: rtranclp.rtrancl_into_rtrancl)
qed auto

end

end
