(* ===== verification/Barrier.thy ===== *)
theory Barrier
  imports Hal_Prelude
begin

text \<open>
  \<open>power/barrier.h\<close>.  The mutex makes the body of each method atomic except that
  \<open>cv.wait\<close> releases it, so \<open>wait\<close> is two kinds of step: the test on entry, and
  the test repeated after a wake-up.  Threads are numbers; \<open>sleeping\<close> are those inside
  \<open>cv.wait\<close>, \<open>woken\<close> those that will test again, \<open>returned\<close> those whose call has
  returned.  Wake-ups without a broadcast are allowed, as for POSIX condition variables.
\<close>

datatype gate = OPENED | CLOSED

record barrier =
  gate :: gate
  sleeping :: "nat set"
  woken :: "nat set"
  returned :: "nat set"

definition new_barrier :: barrier where
  "new_barrier = \<lparr>gate = CLOSED, sleeping = {}, woken = {}, returned = {}\<rparr>"

definition barrier_open :: "barrier \<Rightarrow> barrier" where
  "barrier_open b = b\<lparr>gate := OPENED, sleeping := {}, woken := woken b \<union> sleeping b\<rparr>"

definition barrier_close :: "barrier \<Rightarrow> barrier" where
  "barrier_close b = b\<lparr>gate := CLOSED\<rparr>"

text \<open>One evaluation of the loop condition of \<open>wait\<close> by thread \<open>t\<close>, holding the lock.\<close>

definition barrier_test :: "nat \<Rightarrow> barrier \<Rightarrow> barrier" where
  "barrier_test t b =
     (if gate b = CLOSED then b\<lparr>sleeping := insert t (sleeping b), woken := woken b - {t}\<rparr>
      else b\<lparr>returned := insert t (returned b), woken := woken b - {t}\<rparr>)"

inductive barrier_step :: "barrier \<Rightarrow> barrier \<Rightarrow> bool" where
  b_open: "barrier_step b (barrier_open b)"
| b_close: "barrier_step b (barrier_close b)"
| b_enter: "t \<notin> sleeping b \<union> woken b \<Longrightarrow> barrier_step b (barrier_test t b)"
| b_again: "t \<in> woken b \<Longrightarrow> barrier_step b (barrier_test t b)"
| b_spurious: "t \<in> sleeping b \<Longrightarrow>
    barrier_step b (b\<lparr>sleeping := sleeping b - {t}, woken := insert t (woken b)\<rparr>)"

inductive_cases barrier_stepE: "barrier_step b b'"

definition barrier_inv :: "barrier \<Rightarrow> bool" where
  "barrier_inv b \<longleftrightarrow> (sleeping b \<noteq> {} \<longrightarrow> gate b = CLOSED) \<and> sleeping b \<inter> woken b = {}"

lemma barrier_inv_step: "barrier_inv b \<Longrightarrow> barrier_step b b' \<Longrightarrow> barrier_inv b'"
  by (erule barrier_stepE)
    (auto simp: barrier_inv_def barrier_open_def barrier_close_def barrier_test_def)

interpretation bar: plain_invariant "\<lambda>b. b = new_barrier" barrier_step barrier_inv
  by unfold_locales (simp add: barrier_inv_def new_barrier_def, erule (1) barrier_inv_step)

text \<open>
  C21. No wake-up is lost: in every state that any interleaving of \<open>open\<close>, \<open>close\<close>
  and \<open>wait\<close> can reach, a thread is asleep only while the barrier is closed, and the next
  \<open>open\<close> leaves no thread asleep, every former sleeper being one that will test again and
  return.
\<close>

theorem barrier_no_lost_wakeup:
  assumes "reach (\<lambda>b. b = new_barrier) barrier_step n b" and "t \<in> sleeping b"
  shows "gate b = CLOSED \<and> sleeping (barrier_open b) = {}
    \<and> barrier_step (barrier_open b) (barrier_test t (barrier_open b))
    \<and> t \<in> returned (barrier_test t (barrier_open b))"
proof -
  have "barrier_inv b" using bar.always [OF assms(1)] .
  then have "gate b = CLOSED" using assms(2) by (auto simp: barrier_inv_def)
  moreover have "barrier_step (barrier_open b) (barrier_test t (barrier_open b))"
    using assms(2) by (intro b_again) (simp add: barrier_open_def)
  ultimately show ?thesis by (simp add: barrier_open_def barrier_test_def)
qed

theorem barrier_no_lost_wakeup_witness:
  "7 \<in> returned (barrier_test 7 (barrier_open (barrier_test 7 new_barrier)))"
proof -
  have "reach (\<lambda>b. b = new_barrier) barrier_step (Suc 0) (barrier_test 7 new_barrier)"
    by (rule reach_step [OF reach_init], simp, rule b_enter) (simp add: new_barrier_def)
  then show ?thesis
    using barrier_no_lost_wakeup [of "Suc 0" "barrier_test 7 new_barrier" 7]
    by (simp add: barrier_test_def new_barrier_def)
qed

end
