(* ===== verification/C_Text.thy ===== *)
theory C_Text
  imports Hal_Prelude
begin

unbundle bit_operations_syntax

text \<open>
  The part of the C library's text handling that the sources use, on strings as character
  lists: \<open>%d\<close> conversion, \<open>atoi\<close>, \<open>snprintf\<close>'s truncation,
  character buffers with their terminating NUL, \<open>strncmp\<close>, \<open>strcasecmp\<close> and
  \<open>strtok\<close>.  A buffer keeps every byte of its storage; reading it as a C string gives
  \<open>None\<close> when no NUL is inside the storage, because the C code would then read past it.
  The last section writes a 32-bit integer out as the four bytes \<open>write\<close> passes on.
\<close>

section \<open>Characters\<close>

abbreviation NUL :: char where "NUL \<equiv> CHR 0x00"
abbreviation NL :: char where "NL \<equiv> CHR 0x0A"
abbreviation CR :: char where "CR \<equiv> CHR 0x0D"

definition char_code :: "char \<Rightarrow> nat" where
  "char_code c = of_char c"

definition is_digit :: "char \<Rightarrow> bool" where
  "is_digit c \<longleftrightarrow> 48 \<le> char_code c \<and> char_code c \<le> 57"

definition is_space :: "char \<Rightarrow> bool" where
  "is_space c \<longleftrightarrow> char_code c = 32 \<or> (9 \<le> char_code c \<and> char_code c \<le> 13)"

definition digit :: "nat \<Rightarrow> char" where
  "digit d = char_of (48 + d)"

definition to_lower :: "char \<Rightarrow> char" where
  "to_lower c = (if 65 \<le> char_code c \<and> char_code c \<le> 90 then char_of (char_code c + 32) else c)"

lemma digit_numerals [simp]:
  "digit 0 = CHR ''0''" "digit (Suc 0) = CHR ''1''" "digit 2 = CHR ''2''" "digit 3 = CHR ''3''"
  "digit 4 = CHR ''4''" "digit 5 = CHR ''5''" "digit 6 = CHR ''6''" "digit 7 = CHR ''7''"
  "digit 8 = CHR ''8''" "digit 9 = CHR ''9''"
  by code_simp+

lemma char_code_digit [simp]: "d < 10 \<Longrightarrow> char_code (digit d) = 48 + d"
  by (simp add: char_code_def digit_def)

lemma is_digit_digit [simp]: "d < 10 \<Longrightarrow> is_digit (digit d)"
  by (simp add: is_digit_def)

lemma is_digit_not_space: "is_digit c \<Longrightarrow> \<not> is_space c"
  by (auto simp: is_digit_def is_space_def)

lemma is_digit_not_sign: "is_digit c \<Longrightarrow> c \<noteq> CHR ''-'' \<and> c \<noteq> CHR ''+''"
  by (auto simp: is_digit_def char_code_def)

lemma is_digit_not_NUL: "is_digit c \<Longrightarrow> c \<noteq> NUL"
  by (auto simp: is_digit_def char_code_def)

lemma is_digit_not_blank: "is_digit c \<Longrightarrow> c \<noteq> CHR '' ''"
  by (auto simp: is_digit_def char_code_def)

section \<open>Decimal conversion\<close>

fun show_nat :: "nat \<Rightarrow> string" where
  "show_nat n = (if n < 10 then [digit n] else show_nat (n div 10) @ [digit (n mod 10)])"

declare show_nat.simps [simp del]

text \<open>\<open>%d\<close> of a C \<open>int\<close>.\<close>

definition show_int :: "int \<Rightarrow> string" where
  "show_int i = (if i < 0 then CHR ''-'' # show_nat (nat (- i)) else show_nat (nat i))"

text \<open>
  \<open>atoi\<close>: white space, an optional sign, then digits up to the first other character.
  The value is the mathematical one; C leaves a result outside \<open>int\<close> undefined.
\<close>

fun dec_value :: "int \<Rightarrow> string \<Rightarrow> int" where
  "dec_value a [] = a"
| "dec_value a (c # cs) =
     (if is_digit c then dec_value (10 * a + int (char_code c - 48)) cs else a)"

definition atoi :: "string \<Rightarrow> int" where
  "atoi s = (case dropWhile is_space s of
       [] \<Rightarrow> 0
     | c # cs \<Rightarrow> if c = CHR ''-'' then - dec_value 0 cs
                 else if c = CHR ''+'' then dec_value 0 cs
                 else dec_value 0 (c # cs))"

lemma show_nat_nonempty [simp]: "show_nat n \<noteq> []"
  by (subst show_nat.simps) simp

lemma show_nat_digits: "c \<in> set (show_nat n) \<Longrightarrow> is_digit c"
proof (induction n rule: show_nat.induct)
  case (1 n)
  then show ?case
    by (subst (asm) (2) show_nat.simps) (auto split: if_splits)
qed

lemma dec_value_show_nat:
  "dec_value a (show_nat n @ r) = dec_value (a * 10 ^ length (show_nat n) + int n) r"
proof (induction n arbitrary: a r rule: show_nat.induct)
  case (1 n)
  show ?case
  proof (cases "n < 10")
    case True
    then show ?thesis by (simp add: show_nat.simps [of n] algebra_simps)
  next
    case False
    have "dec_value a (show_nat n @ r)
        = dec_value a (show_nat (n div 10) @ digit (n mod 10) # r)"
      using False by (simp add: show_nat.simps [of n])
    also have "\<dots> = dec_value (a * 10 ^ length (show_nat (n div 10)) + int (n div 10))
        (digit (n mod 10) # r)"
      using 1 [OF False] by simp
    also have "\<dots> = dec_value (a * 10 ^ length (show_nat n) + int n) r"
      using False by (simp add: show_nat.simps [of n] algebra_simps zdiv_int zmod_int)
    finally show ?thesis .
  qed
qed

text \<open>
  Reading a printed number back stops exactly where the digits stop: this is the property every
  number that goes through a node of the file system relies on.
\<close>

lemma atoi_show_int_append:
  assumes "r = [] \<or> \<not> is_digit (hd r)"
  shows "atoi (show_int i @ r) = i"
proof -
  have stop: "dec_value a r = a" for a
    using assms by (cases r) auto
  have nn: "dec_value 0 (show_nat n @ r) = int n" for n
    by (simp add: dec_value_show_nat stop)
  have minus: "\<not> is_space (CHR ''-'')" by (simp add: is_space_def char_code_def)
  show ?thesis
  proof (cases "i < 0")
    case True
    then show ?thesis by (simp add: show_int_def atoi_def minus nn)
  next
    case False
    obtain c cs where c: "show_nat (nat i) = c # cs" by (cases "show_nat (nat i)") auto
    then have d: "is_digit c" by (metis show_nat_digits list.set_intros(1))
    show ?thesis
      using False nn [of "nat i"] is_digit_not_space [OF d] is_digit_not_sign [OF d]
      by (simp add: show_int_def atoi_def c)
  qed
qed

lemma atoi_show_int: "atoi (show_int i) = i"
  using atoi_show_int_append [of "[]" i] by simp

lemma length_show_nat: "n < 10 ^ k \<Longrightarrow> 0 < k \<Longrightarrow> length (show_nat n) \<le> k"
proof (induction k arbitrary: n)
  case (Suc k)
  show ?case
  proof (cases "n < 10")
    case True
    then show ?thesis by (subst show_nat.simps) simp
  next
    case False
    with Suc.prems have "n div 10 < 10 ^ k" and "0 < k" by (cases k; auto)+
    then have "length (show_nat (n div 10)) \<le> k" by (rule Suc.IH)
    with False show ?thesis by (subst show_nat.simps) simp
  qed
qed simp

definition int32 :: "int \<Rightarrow> bool" where
  "int32 i \<longleftrightarrow> - (2 ^ 31) \<le> i \<and> i < 2 ^ 31"

lemma length_show_int: "int32 i \<Longrightarrow> length (show_int i) \<le> 11"
proof -
  assume "int32 i"
  then have "nat i < 10 ^ 10" and "nat (- i) < 10 ^ 10" 
    by (simp_all add: int32_def, arith+)
  then have "length (show_nat (nat i)) \<le> 10" and "length (show_nat (nat (- i))) \<le> 10"
    by (simp_all add: length_show_nat)
  then show ?thesis by (simp add: show_int_def)
qed

lemma show_int_no_NUL: "NUL \<notin> set (show_int i)"
  using is_digit_not_NUL show_nat_digits by (auto simp: show_int_def)

section \<open>Character buffers\<close>

text \<open>
  Storing \<open>data\<close> at the start of a buffer leaves the bytes after it.  \<open>c_string\<close> is
  the string a C function sees in the buffer, \<open>None\<close> when the storage holds no NUL.
\<close>

definition store :: "string \<Rightarrow> string \<Rightarrow> string" where
  "store data buf = data @ drop (length data) buf"

definition c_string :: "string \<Rightarrow> string option" where
  "c_string buf = (if NUL \<in> set buf then Some (takeWhile (\<lambda>c. c \<noteq> NUL) buf) else None)"

definition zeros :: "nat \<Rightarrow> string" where
  "zeros n = replicate n NUL"

text \<open>\<open>snprintf (buf, n, ...)\<close> keeps at most \<open>n - 1\<close> characters.\<close>

definition snprintf :: "nat \<Rightarrow> string \<Rightarrow> string" where
  "snprintf n s = take (n - 1) s"

text \<open>
  \<open>strncmp (a, b, n) == 0\<close> for a buffer \<open>a\<close> of at least \<open>n\<close> bytes and a string
  \<open>b\<close>: the comparison stops at \<open>n\<close> bytes or at the first NUL.
\<close>

definition strncmp_eq :: "nat \<Rightarrow> string \<Rightarrow> string \<Rightarrow> bool" where
  "strncmp_eq n a b \<longleftrightarrow>
     takeWhile (\<lambda>c. c \<noteq> NUL) (take n a) = takeWhile (\<lambda>c. c \<noteq> NUL) (take n b)"

definition strcasecmp_eq :: "string \<Rightarrow> string \<Rightarrow> bool" where
  "strcasecmp_eq a b \<longleftrightarrow> map to_lower a = map to_lower b"

lemma length_store [simp]: "length data \<le> length buf \<Longrightarrow> length (store data buf) = length buf"
  by (simp add: store_def)

lemma store_Nil [simp]: "store [] buf = buf"
  by (simp add: store_def)

lemma c_string_append [simp]:
  "NUL \<notin> set s \<Longrightarrow> c_string (s @ NUL # r) = Some s"
  by (simp add: c_string_def) (subst takeWhile_all, auto)

lemma c_string_full_buffer: "NUL \<notin> set buf \<Longrightarrow> c_string buf = None"
  by (simp add: c_string_def)

lemma snprintf_fits [simp]: "length s < n \<Longrightarrow> snprintf n s = s"
  by (simp add: snprintf_def)

section \<open>strtok on blanks\<close>

text \<open>
  One call of \<open>strtok\<close> with the delimiter string \<open>'' ''\<close>: skip blanks, take the token, and
  overwrite the blank after it with NUL.  The result is the token, the part of the buffer the
  call has gone over with its new contents, and the rest.
\<close>

definition blank :: "char \<Rightarrow> bool" where
  "blank c \<longleftrightarrow> c = CHR '' ''"

definition strtok_step :: "string \<Rightarrow> (string \<times> string \<times> string) option" where
  "strtok_step s =
     (let skipped = takeWhile blank s;
          r = dropWhile blank s;
          tok = takeWhile (\<lambda>c. \<not> blank c) r;
          r' = dropWhile (\<lambda>c. \<not> blank c) r
      in if r = [] then None
         else Some (tok, skipped @ tok @ (if r' = [] then [] else [NUL]), tl r'))"

lemma strtok_step_lengths:
  assumes "strtok_step s = Some (t, d, r)"
  shows "length d + length r = length s" and "length r < length s"
proof -
  define r0 where "r0 = dropWhile blank s"
  define r1 where "r1 = dropWhile (\<lambda>c. \<not> blank c) r0"
  have s: "length s = length (takeWhile blank s) + length r0"
    unfolding r0_def by (metis length_append takeWhile_dropWhile_id)
  have r0: "length r0 = length (takeWhile (\<lambda>c. \<not> blank c) r0) + length r1"
    unfolding r1_def by (metis length_append takeWhile_dropWhile_id)
  have "r0 \<noteq> []" and r: "r = tl r1"
    and d: "d = takeWhile blank s @ takeWhile (\<lambda>c. \<not> blank c) r0 @ (if r1 = [] then [] else [NUL])"
    using assms unfolding strtok_step_def Let_def r0_def [symmetric] r1_def [symmetric]
    by (auto split: if_split_asm)
  then have "0 < length r0" by simp
  show "length d + length r = length s"
    using s r0 by (cases r1) (simp_all add: d r)
  show "length r < length s"
    using s r0 \<open>0 < length r0\<close> by (simp only: r length_tl)
qed

text \<open>All tokens of a string and the buffer contents after the calls that found them.\<close>

function strtok_all :: "string \<Rightarrow> string list \<times> string" where
  "strtok_all s = (case strtok_step s of
       None \<Rightarrow> ([], s)
     | Some (t, d, r) \<Rightarrow> (let (ts, b) = strtok_all r in (t # ts, d @ b)))"
  by pat_completeness auto
termination
  by (relation "measure length") (auto dest: strtok_step_lengths(2))

declare strtok_all.simps [simp del]

definition tokens :: "string \<Rightarrow> string list" where
  "tokens s = fst (strtok_all s)"

lemma tokens_Nil [simp]: "tokens [] = []"
  by (simp add: tokens_def strtok_all.simps strtok_step_def)

lemma tokens_word:
  assumes "t \<noteq> []" and "\<And>c. c \<in> set t \<Longrightarrow> \<not> blank c"
  shows "tokens (t @ CHR '' '' # r) = t # tokens r"
    and "tokens t = [t]"
proof -
  have b: "blank (CHR '' '')" by (simp add: blank_def)
  have dw: "dropWhile blank (t @ x) = t @ x" and tw: "takeWhile blank (t @ x) = []" for x
    using assms by (cases t; simp)+
  have "takeWhile (\<lambda>c. \<not> blank c) (t @ CHR '' '' # r) = t"
    and "dropWhile (\<lambda>c. \<not> blank c) (t @ CHR '' '' # r) = CHR '' '' # r"
    using assms(2) b by (simp_all add: takeWhile_all dropWhile_all)
  then have "strtok_step (t @ CHR '' '' # r) = Some (t, t @ [NUL], r)"
    using assms(1) by (simp add: strtok_step_def Let_def dw tw)
  then show "tokens (t @ CHR '' '' # r) = t # tokens r"
    unfolding tokens_def by (subst strtok_all.simps) (simp split: prod.split)
  have "takeWhile (\<lambda>c. \<not> blank c) t = t" and dn: "dropWhile (\<lambda>c. \<not> blank c) t = []"
    using assms(2) by simp_all
  then have "strtok_step t = Some (t, t, [])"
    using assms(1) dw [of "[]"] tw [of "[]"] dn
    by (simp add: strtok_step_def Let_def del: dropWhile_eq_Nil_conv takeWhile_eq_all_conv)
  then show "tokens t = [t]"
    using tokens_Nil unfolding tokens_def
    by (subst strtok_all.simps) (auto split: prod.split)
qed

lemma show_int_word: "show_int i \<noteq> []" "c \<in> set (show_int i) \<Longrightarrow> \<not> blank c"
  using is_digit_not_blank show_nat_digits by (auto simp: show_int_def blank_def split: if_splits)

lemma tokens_blank_separated:
  "\<forall>t\<in>set ts. t \<noteq> [] \<and> (\<forall>c\<in>set t. \<not> blank c) \<Longrightarrow>
   tokens (concat (map (\<lambda>t. t @ '' '') ts) @ r) = ts @ tokens r"
  by (induction ts) (simp_all add: tokens_word(1))

lemma length_strtok_all: "length (snd (strtok_all s)) = length s"
proof (induction s rule: strtok_all.induct)
  case (1 s)
  show ?case
  proof (cases "strtok_step s")
    case None
    then show ?thesis by (subst strtok_all.simps) simp
  next
    case (Some x)
    obtain t d r where x: "strtok_step s = Some (t, d, r)" using Some by (cases x) auto
    moreover have "length (snd (strtok_all r)) = length r"
      using 1 [OF x refl refl] .
    ultimately show ?thesis
      using strtok_step_lengths(1) [OF x]
      by (subst strtok_all.simps) (auto simp: x split: prod.split)
  qed
qed

section \<open>A C int as bytes\<close>

text \<open>
  \<open>write (fd, &val, sizeof (val))\<close> on a little-endian machine.
\<close>

definition le_bytes :: "u32 \<Rightarrow> string" where
  "le_bytes w = map (\<lambda>i. char_of (unat (drop_bit (8 * i) w))) [0, 1, 2, 3]"

definition le_value :: "string \<Rightarrow> u32" where
  "le_value bs = foldr (\<lambda>c v. of_nat (char_code c) + 256 * v) bs 0"

lemma length_le_bytes [simp]: "length (le_bytes w) = 4"
  by (simp add: le_bytes_def)

lemma base256: "(n :: nat) < 2 ^ 32 \<Longrightarrow>
  n mod 256 + 256 * (n div 256 mod 256 + 256 * (n div 65536 mod 256 + 256 * (n div 16777216 mod 256))) = n"
proof -
  assume "n < 2 ^ 32"
  then have "n div 16777216 < 256" by simp
  moreover have "n div 65536 = n div 65536 mod 256 + 256 * (n div 16777216)"
    using mod_mult_div_eq [of "n div 65536" 256] by (simp add: div_mult2_eq [symmetric])
  moreover have "n div 256 = n div 256 mod 256 + 256 * (n div 65536)"
    using mod_mult_div_eq [of "n div 256" 256] by (simp add: div_mult2_eq [symmetric])
  ultimately show ?thesis by simp
qed

lemma le_value_le_bytes: "le_value (le_bytes w) = w"
proof -
  have "unat w < 2 ^ LENGTH(32)" by (rule unsigned_less)
  then have "unat w < 2 ^ 32" by simp
  then have "word_of_nat (unat w mod 256 + 256 * (unat w div 256 mod 256 +
      256 * (unat w div 65536 mod 256 + 256 * (unat w div 16777216 mod 256)))) = w"
    by (simp only: base256 of_nat_unat ucast_id)
  then show ?thesis
    by (simp add: le_value_def le_bytes_def char_code_def drop_bit_eq_div unat_div_distrib)
qed

end
