(* ===== verification/Posix.thy ===== *)
theory Posix
  imports C_Text
begin

text \<open>
  The operating system as the sources see it: device nodes, file descriptors, pipes, \<open>errno\<close>,
  the property service and the monotonic clock.

  What a node does is not in the repository, so it is data of the state that no operation below
  ever assumes anything about: a node carries, for each way of using it, either the error number
  the kernel answers with or the result.  A write that the driver takes is recorded in
  \<open>wlog\<close>; this is the observable effect of the hardware abstraction layers on the device.
  Descriptors are the lowest free numbers of a table of \<open>fd_max\<close> slots, as POSIX asks, so
  that running out of descriptors and reusing a number after \<open>close\<close> are both in the model.

  The locale at the end is the interface by which components use a routine that writes one node:
  each of \<open>powerhal_utils.cpp\<close>, \<open>power.c\<close> and \<open>lights.c\<close> has a routine of its own.
\<close>

section \<open>State\<close>

datatype oflag = O_RDONLY | O_WRONLY | O_RDWR

datatype amode = F_OK | W_OK | RW_OK

datatype ofile =
    Node string oflag
  | PipeR nat
  | PipeW nat

record node =
  n_open :: "oflag \<Rightarrow> int option"
  n_access :: "amode \<Rightarrow> int option"
  n_read :: "int + string"
  n_write :: "string \<Rightarrow> int + nat"
  n_ioctl :: "nat \<Rightarrow> u8 list \<Rightarrow> int + u8 list"

record kernel =
  nodes :: "string \<Rightarrow> node option"
  fds :: "int \<Rightarrow> ofile option"
  fd_max :: nat
  next_pipe :: nat
  wlog :: "(string \<times> string) list"
  errno :: int
  strerr :: "int \<Rightarrow> string"
  props :: "string \<Rightarrow> string option"
  prop_status :: "string \<Rightarrow> string \<Rightarrow> int"
  now :: int

definition ENOENT :: int where "ENOENT = 2"
definition EBADF :: int where "EBADF = 9"
definition EINVAL :: int where "EINVAL = 22"
definition EMFILE :: int where "EMFILE = 24"

section \<open>Descriptors\<close>

definition fd_slots :: "'z kernel_scheme \<Rightarrow> int list" where
  "fd_slots s = map int [0..<fd_max s]"

definition free_fd :: "'z kernel_scheme \<Rightarrow> int option" where
  "free_fd s = find (\<lambda>fd. fds s fd = None) (fd_slots s)"

definition open_error :: "'z kernel_scheme \<Rightarrow> string \<Rightarrow> oflag \<Rightarrow> int option" where
  "open_error s p fl = (case nodes s p of
       None \<Rightarrow> Some ENOENT
     | Some n \<Rightarrow> (case n_open n fl of
           Some e \<Rightarrow> Some e
         | None \<Rightarrow> if free_fd s = None then Some EMFILE else None))"

text \<open>The descriptor a call of \<open>open\<close> gives, \<open>None\<close> when it fails.\<close>

definition opened :: "'z kernel_scheme \<Rightarrow> string \<Rightarrow> oflag \<Rightarrow> int option" where
  "opened s p fl = (if open_error s p fl = None then free_fd s else None)"

definition fail :: "int \<Rightarrow> ('z kernel_scheme, int) state" where
  "fail e = do { modify (\<lambda>s. s\<lparr>errno := e\<rparr>); ret (- 1) }"

definition k_open :: "string \<Rightarrow> oflag \<Rightarrow> ('z kernel_scheme, int) state" where
  "k_open p fl = do {
     s \<leftarrow> gets (\<lambda>s. s);
     case open_error s p fl of
       Some e \<Rightarrow> fail e
     | None \<Rightarrow> (case free_fd s of
           None \<Rightarrow> fail EMFILE
         | Some fd \<Rightarrow> do { modify (\<lambda>s. s\<lparr>fds := (fds s)(fd \<mapsto> Node p fl)\<rparr>); ret fd })
   }"

definition k_close :: "int \<Rightarrow> ('z kernel_scheme, int) state" where
  "k_close fd = do {
     s \<leftarrow> gets (\<lambda>s. s);
     if fds s fd = None then fail EBADF
     else do { modify (\<lambda>s. s\<lparr>fds := (fds s)(fd := None)\<rparr>); ret 0 }
   }"

text \<open>\<open>pipe\<close>: the read end goes to the lower descriptor, as \<open>pipefd[0]\<close>.\<close>

definition k_pipe :: "('z kernel_scheme, (int \<times> int) option) state" where
  "k_pipe = do {
     s \<leftarrow> gets (\<lambda>s. s);
     case free_fd s of
       None \<Rightarrow> do { _ \<leftarrow> fail EMFILE; ret None }
     | Some r \<Rightarrow> (case free_fd (s\<lparr>fds := (fds s)(r \<mapsto> PipeR (next_pipe s))\<rparr>) of
           None \<Rightarrow> do { _ \<leftarrow> fail EMFILE; ret None }
         | Some w \<Rightarrow> do {
             modify (\<lambda>s. s\<lparr>fds := (fds s)(r \<mapsto> PipeR (next_pipe s), w \<mapsto> PipeW (next_pipe s)),
                           next_pipe := Suc (next_pipe s)\<rparr>);
             ret (Some (r, w)) })
   }"

text \<open>The far end of a pipe has been closed: what \<open>poll\<close> reports as a hang-up or error.\<close>

definition hung_up :: "'z kernel_scheme \<Rightarrow> int \<Rightarrow> bool" where
  "hung_up s fd = (case fds s fd of
       Some (PipeW i) \<Rightarrow> \<not> list_ex (\<lambda>x. fds s x = Some (PipeR i)) (fd_slots s)
     | _ \<Rightarrow> False)"

lemma free_fd_Some:
  assumes "free_fd s = Some fd"
  shows "fds s fd = None" and "0 \<le> fd" and "fd < int (fd_max s)"
  using find_Some_props [of "\<lambda>fd. fds s fd = None" "fd_slots s" fd] assms
  by (auto simp: free_fd_def fd_slots_def)

lemma free_fd_cong [simp]:
  "free_fd (s\<lparr>errno := e\<rparr>) = free_fd s"
  "free_fd (s\<lparr>wlog := l\<rparr>) = free_fd s"
  by (simp_all add: free_fd_def fd_slots_def)

lemma opened_cong [simp]:
  "open_error (s\<lparr>errno := e\<rparr>) = open_error s"
  "open_error (s\<lparr>wlog := l\<rparr>) = open_error s"
  "opened (s\<lparr>errno := e\<rparr>) = opened s"
  "opened (s\<lparr>wlog := l\<rparr>) = opened s"
  by (auto simp: fun_eq_iff open_error_def opened_def split: option.split)

lemma opened_Some:
  assumes "opened s p fl = Some fd"
  shows "fds s fd = None" and "0 \<le> fd" and "fd < int (fd_max s)" and "nodes s p \<noteq> None"
  using assms free_fd_Some [of s fd]
  by (auto simp: opened_def open_error_def split: if_splits option.splits)

lemma opened_None_iff: "opened s p fl = None \<longleftrightarrow> open_error s p fl \<noteq> None"
  by (auto simp: opened_def open_error_def split: option.splits)

lemma exec_fail [simp]: "exec (fail e) s = s\<lparr>errno := e\<rparr>"
  and result_fail [simp]: "result (fail e) s = - 1"
  by (simp_all add: fail_def)

lemma result_k_open [simp]:
  "result (k_open p fl) s = (case opened s p fl of None \<Rightarrow> - 1 | Some fd \<Rightarrow> fd)"
  by (auto simp: k_open_def opened_def open_error_def split: option.splits)

lemma exec_k_open [simp]:
  "exec (k_open p fl) s = (case opened s p fl of
       None \<Rightarrow> s\<lparr>errno := the (open_error s p fl)\<rparr>
     | Some fd \<Rightarrow> s\<lparr>fds := (fds s)(fd \<mapsto> Node p fl)\<rparr>)"
  by (auto simp: k_open_def opened_def open_error_def split: option.splits)

lemma exec_k_close [simp]:
  "exec (k_close fd) s = (if fds s fd = None then s\<lparr>errno := EBADF\<rparr> else s\<lparr>fds := (fds s)(fd := None)\<rparr>)"
  and result_k_close [simp]: "result (k_close fd) s = (if fds s fd = None then - 1 else 0)"
  by (simp_all add: k_close_def)

text \<open>Two states that agree on everything but \<open>errno\<close>.\<close>

definition same_but_errno :: "'z kernel_scheme \<Rightarrow> 'z kernel_scheme \<Rightarrow> bool" where
  "same_but_errno s t \<longleftrightarrow> (\<exists>e. t = s\<lparr>errno := e\<rparr>)"

lemma same_but_errno_refl [simp, intro]: "same_but_errno s s"
proof -
  have "s = s\<lparr>errno := errno s\<rparr>" by simp
  then show ?thesis unfolding same_but_errno_def ..
qed

lemma same_but_errno_upd [simp, intro]: "same_but_errno s (s\<lparr>errno := e\<rparr>)"
  unfolding same_but_errno_def by blast

lemma same_but_errno_trans: "same_but_errno s t \<Longrightarrow> same_but_errno t u \<Longrightarrow> same_but_errno s u"
  by (auto simp: same_but_errno_def)

section \<open>Reading and writing\<close>

definition driver_write :: "'z kernel_scheme \<Rightarrow> string \<Rightarrow> string \<Rightarrow> int + nat" where
  "driver_write s p d = (case nodes s p of None \<Rightarrow> Inl ENOENT | Some n \<Rightarrow> n_write n d)"

text \<open>
  \<open>write\<close> on a device node.  The driver may take fewer bytes than it is given.  The sources
  never write to a pipe.
\<close>

definition k_write :: "int \<Rightarrow> string \<Rightarrow> ('z kernel_scheme, int) state" where
  "k_write fd d = do {
     s \<leftarrow> gets (\<lambda>s. s);
     case fds s fd of
       Some (Node p fl) \<Rightarrow>
         if fl = O_RDONLY then fail EBADF
         else (case driver_write s p d of
             Inl e \<Rightarrow> fail e
           | Inr c \<Rightarrow> do {
               modify (\<lambda>s. s\<lparr>wlog := wlog s @ [(p, take c d)]\<rparr>);
               ret (int (min c (length d))) })
     | _ \<Rightarrow> fail EBADF
   }"

text \<open>\<open>read\<close>: the count, negative on an error, and the bytes.\<close>

definition k_read :: "int \<Rightarrow> nat \<Rightarrow> ('z kernel_scheme, int \<times> string) state" where
  "k_read fd n = do {
     s \<leftarrow> gets (\<lambda>s. s);
     case fds s fd of
       Some (Node p fl) \<Rightarrow>
         if fl = O_WRONLY then do { e \<leftarrow> fail EBADF; ret (e, []) }
         else (case (case nodes s p of None \<Rightarrow> Inl ENOENT | Some x \<Rightarrow> n_read x) of
             Inl e \<Rightarrow> do { r \<leftarrow> fail e; ret (r, []) }
           | Inr d \<Rightarrow> ret (int (length (take n d)), take n d))
     | _ \<Rightarrow> do { e \<leftarrow> fail EBADF; ret (e, []) }
   }"

definition k_access :: "string \<Rightarrow> amode \<Rightarrow> ('z kernel_scheme, int) state" where
  "k_access p m = do {
     s \<leftarrow> gets (\<lambda>s. s);
     case nodes s p of
       None \<Rightarrow> fail ENOENT
     | Some n \<Rightarrow> (case n_access n m of Some e \<Rightarrow> fail e | None \<Rightarrow> ret 0)
   }"

definition accessible :: "'z kernel_scheme \<Rightarrow> string \<Rightarrow> amode \<Rightarrow> bool" where
  "accessible s p m = (case nodes s p of None \<Rightarrow> False | Some n \<Rightarrow> n_access n m = None)"

text \<open>\<open>ioctl\<close> with a command and a buffer the driver fills from its start.\<close>

definition k_ioctl :: "int \<Rightarrow> nat \<Rightarrow> u8 list \<Rightarrow> ('z kernel_scheme, int \<times> u8 list) state" where
  "k_ioctl fd command args = do {
     s \<leftarrow> gets (\<lambda>s. s);
     case fds s fd of
       Some (Node p fl) \<Rightarrow>
         (case (case nodes s p of None \<Rightarrow> Inl ENOENT | Some n \<Rightarrow> n_ioctl n command args) of
             Inl e \<Rightarrow> do { r \<leftarrow> fail e; ret (r, args) }
           | Inr out \<Rightarrow> ret (0, take (length args) out @ drop (length out) args))
     | _ \<Rightarrow> do { r \<leftarrow> fail EBADF; ret (r, args) }
   }"

lemma result_k_access [simp]: "result (k_access p m) s = (if accessible s p m then 0 else - 1)"
  by (simp add: k_access_def accessible_def split: option.split)

lemma exec_k_access [simp, intro]: "same_but_errno s (exec (k_access p m) s)"
  by (auto simp: k_access_def split: option.split)

section \<open>The property service\<close>

definition property_get :: "string \<Rightarrow> string \<Rightarrow> ('z kernel_scheme, string) state" where
  "property_get key deflt = gets (\<lambda>s. case props s key of
       None \<Rightarrow> deflt | Some v \<Rightarrow> if v = [] then deflt else v)"

definition property_set :: "string \<Rightarrow> string \<Rightarrow> ('z kernel_scheme, int) state" where
  "property_set key v = do {
     s \<leftarrow> gets (\<lambda>s. s);
     if prop_status s key v = 0
     then do { modify (\<lambda>s. s\<lparr>props := (props s)(key \<mapsto> v)\<rparr>); ret 0 }
     else ret (prop_status s key v)
   }"

section \<open>The effect of writing one node\<close>

definition node_ok :: "'z kernel_scheme \<Rightarrow> oflag \<Rightarrow> string \<times> string \<Rightarrow> bool" where
  "node_ok s fl pd = (case pd of (p, d) \<Rightarrow>
     opened s p fl \<noteq> None \<and> (case driver_write s p d of Inl _ \<Rightarrow> False | Inr _ \<Rightarrow> True))"


text \<open>
  What open, write and close of a node add to the log: nothing when the node does not open or
  its driver refuses.
\<close>

definition accepted :: "'z kernel_scheme \<Rightarrow> oflag \<Rightarrow> string \<times> string \<Rightarrow> (string \<times> string) list" where
  "accepted s fl pd = (case pd of (p, d) \<Rightarrow>
     if opened s p fl = None then []
     else (case driver_write s p d of Inl _ \<Rightarrow> [] | Inr c \<Rightarrow> [(p, take c d)]))"

lemma driver_write_cong [simp]:
  "driver_write (s\<lparr>errno := e\<rparr>) = driver_write s"
  "driver_write (s\<lparr>wlog := l\<rparr>) = driver_write s"
  "driver_write (s\<lparr>fds := t\<rparr>) = driver_write s"
  by (simp_all add: fun_eq_iff driver_write_def)

lemma accepted_cong [simp]:
  "accepted (s\<lparr>errno := e\<rparr>) = accepted s"
  "accepted (s\<lparr>wlog := l\<rparr>) = accepted s"
  by (auto simp: fun_eq_iff accepted_def)

lemma node_ok_cong [simp]:
  "node_ok (s\<lparr>errno := e\<rparr>) = node_ok s"
  "node_ok (s\<lparr>wlog := l\<rparr>) = node_ok s"
  by (simp_all add: fun_eq_iff node_ok_def)

lemma accepted_refused: "\<not> node_ok s fl pd \<Longrightarrow> accepted s fl pd = []"
  by (auto simp: node_ok_def accepted_def split: prod.split sum.splits)

lemma result_k_write:
  "fds s fd = Some (Node p fl) \<Longrightarrow> fl \<noteq> O_RDONLY \<Longrightarrow>
   result (k_write fd d) s = (case driver_write s p d of Inl _ \<Rightarrow> - 1 | Inr c \<Rightarrow> int (min c (length d)))"
  by (simp add: k_write_def split: sum.split)

lemma exec_k_write:
  "fds s fd = Some (Node p fl) \<Longrightarrow> fl \<noteq> O_RDONLY \<Longrightarrow>
   exec (k_write fd d) s = (case driver_write s p d of
       Inl e \<Rightarrow> s\<lparr>errno := e\<rparr>
     | Inr c \<Rightarrow> s\<lparr>wlog := wlog s @ [(p, take c d)]\<rparr>)"
  by (simp add: k_write_def split: sum.split)

lemma same_but_errno_fields:
  assumes "same_but_errno s t"
  shows "fds t = fds s" and "nodes t = nodes s" and "wlog t = wlog s" and "props t = props s"
    and "fd_max t = fd_max s" and "now t = now s" and "kernel.more t = kernel.more s"
    and "opened t = opened s" and "accepted t = accepted s" and "accessible t = accessible s"
  using assms by (auto simp: same_but_errno_def fun_eq_iff accessible_def)

section \<open>Concrete kernels\<close>

text \<open>
  A node that opens, and whose driver takes every write and reads as a given text; and a kernel
  with a given list of such nodes and standard input, output and error open.  Instances of the
  theorems are evaluated on these.
\<close>

definition plain_node :: "string \<Rightarrow> node" where
  "plain_node d = \<lparr>n_open = (\<lambda>_. None), n_access = (\<lambda>_. None), n_read = Inr d,
     n_write = (\<lambda>s. Inr (length s)), n_ioctl = (\<lambda>_. Inr)\<rparr>"

definition std_fds :: "int \<Rightarrow> ofile option" where
  "std_fds = [0 \<mapsto> Node ''/dev/null'' O_RDWR, 1 \<mapsto> Node ''/dev/null'' O_RDWR,
     2 \<mapsto> Node ''/dev/null'' O_RDWR]"

definition plain_kernel :: "(string \<times> node) list \<Rightarrow> kernel" where
  "plain_kernel ns = \<lparr>nodes = map_of ns, fds = std_fds, fd_max = 8, next_pipe = 0, wlog = [],
     errno = 0, strerr = (\<lambda>_. ''No such file or directory''), props = Map.empty,
     prop_status = (\<lambda>_ _. 0), now = 0\<rparr>"

lemma free_fd_plain [simp]: "free_fd (plain_kernel ns) = Some 3"
  by (simp add: free_fd_def fd_slots_def plain_kernel_def std_fds_def upt_rec)

lemma plain_kernel_simps [simp]:
  "nodes (plain_kernel ns) = map_of ns"
  "fds (plain_kernel ns) = std_fds"
  "wlog (plain_kernel ns) = []"
  "props (plain_kernel ns) = Map.empty"
  "now (plain_kernel ns) = 0"
  by (simp_all add: plain_kernel_def)

section \<open>Routines that write one node\<close>

text \<open>A straight-line sequence of calls of a node-writing routine.\<close>

fun write_seq :: "(string \<Rightarrow> string \<Rightarrow> ('z kernel_scheme, 'r) state) \<Rightarrow> (string \<times> string) list
    \<Rightarrow> ('z kernel_scheme, unit) state" where
  "write_seq wr [] = ret ()"
| "write_seq wr ((p, d) # ps) = do { _ \<leftarrow> wr p d; write_seq wr ps }"

text \<open>
  The law a client relies on: the routine opens with the flags \<open>fl\<close>, offers the whole string to
  the driver, and leaves no descriptor behind.  Since nothing but the log and \<open>errno\<close> changes,
  whether a later node accepts its string does not depend on the earlier ones.
\<close>

locale node_writer =
  fixes wr :: "string \<Rightarrow> string \<Rightarrow> ('z kernel_scheme, 'r) state" and fl :: oflag
  assumes wr_effect:
    "same_but_errno (s\<lparr>wlog := wlog s @ accepted s fl (p, d)\<rparr>) (exec (wr p d) s)"
begin

lemma wr_fields:
  "fds (exec (wr p d) s) = fds s"
  "nodes (exec (wr p d) s) = nodes s"
  "wlog (exec (wr p d) s) = wlog s @ accepted s fl (p, d)"
  "props (exec (wr p d) s) = props s"
  "now (exec (wr p d) s) = now s"
  "fd_max (exec (wr p d) s) = fd_max s"
  "kernel.more (exec (wr p d) s) = kernel.more s"
  "opened (exec (wr p d) s) = opened s"
  "accepted (exec (wr p d) s) = accepted s"
  using same_but_errno_fields [OF wr_effect] by simp_all

lemma write_seq_effect:
  "same_but_errno (s\<lparr>wlog := wlog s @ concat (map (accepted s fl) ps)\<rparr>) (exec (write_seq wr ps) s)"
proof (induction ps arbitrary: s)
  case (Cons pd ps)
  obtain p d where pd: "pd = (p, d)" by (cases pd)
  obtain e where e: "exec (wr p d) s = s\<lparr>wlog := wlog s @ accepted s fl (p, d), errno := e\<rparr>"
    using wr_effect [of s p d] by (auto simp: same_but_errno_def)
  show ?case
    using Cons.IH [of "exec (wr p d) s"] unfolding same_but_errno_def
    by (auto simp: pd e)
qed simp

lemmas write_seq_fields = same_but_errno_fields [OF write_seq_effect]

end

end
