(* ===== verification/Tegra_Sata.thy ===== *)
theory Tegra_Sata
  imports Posix
begin

text \<open>
  \<open>power/tegra_sata_hal.cpp\<close>: putting a SATA disk into standby through the run-time power
  management nodes, and reading its temperature with an \<open>ioctl\<close>.  Both standby functions are
  the same early-exit sequence of open, write, close; \<open>IF_ERROR_EXIT\<close> and the jump to
  \<open>done\<close> become the branch that returns the error after closing what is open.
  \<open>O_NONBLOCK\<close> is not modelled.
\<close>

definition POWER_CONTROL_PATH :: string where
  "POWER_CONTROL_PATH = ''/sys/devices/platform/tegra-sata.0/ata1/power/control''"
definition AUTO_SUSPEND_DELAY_PATH :: string where
  "AUTO_SUSPEND_DELAY_PATH =
     ''/sys/devices/platform/tegra-sata.0/ata1/host0/target0:0:0/0:0:0:0/power/autosuspend_delay_ms''"
definition HOST_CONTROL_PATH :: string where
  "HOST_CONTROL_PATH =
     ''/sys/devices/platform/tegra-sata.0/ata1/host0/target0:0:0/0:0:0:0/power/control''"
definition VALUE_AUTO :: string where "VALUE_AUTO = ''auto''"
definition VALUE_ON :: string where "VALUE_ON = ''on''"

definition STATUS_SIZE :: nat where "STATUS_SIZE = 512"
definition STATUS_OFFSET :: nat where "STATUS_OFFSET = 4"
definition HDA_TEMP :: nat where "HDA_TEMP = STATUS_OFFSET + 200"

text \<open>Command and feature codes of \<open>linux/hdreg.h\<close>.\<close>

definition HDIO_DRIVE_CMD :: nat where "HDIO_DRIVE_CMD = 0x031f"

definition WIN_SMART :: u8 where "WIN_SMART = 0xB0"
definition SMART_READ_LOG_SECTOR :: u8 where "SMART_READ_LOG_SECTOR = 0xD5"

section \<open>Operations\<close>

definition check_node_existence :: "string \<Rightarrow> ('z kernel_scheme, int) state" where
  "check_node_existence p = do {
     e \<leftarrow> k_access p F_OK;
     if e < 0 then ret e
     else do {
       e \<leftarrow> k_access p RW_OK;
       if e < 0 then ret e else ret 0 }
   }"

definition tegra_sata_hal_ioctl :: "int \<Rightarrow> nat \<Rightarrow> u8 list \<Rightarrow> ('z kernel_scheme, int \<times> u8 list) state" where
  "tegra_sata_hal_ioctl fd command buf = k_ioctl fd command buf"

definition smart_args :: "u8 list" where
  "smart_args = [WIN_SMART, 0xE0, SMART_READ_LOG_SECTOR, 1] @ replicate STATUS_SIZE 0"

text \<open>The error code and the new value of \<open>*temperature\<close>.\<close>

definition hdd_get_temperature :: "string \<Rightarrow> int \<Rightarrow> ('z kernel_scheme, int \<times> int) state" where
  "hdd_get_temperature p temperature = do {
     e \<leftarrow> check_node_existence p;
     if e < 0 then ret (e, temperature)
     else do {
       fd \<leftarrow> k_open p O_RDONLY;
       if fd < 0 then ret (fd, temperature)
       else do {
         (e, args) \<leftarrow> tegra_sata_hal_ioctl fd HDIO_DRIVE_CMD smart_args;
         if e < 0 then do {
           _ \<leftarrow> (if fd \<ge> 0 then k_close fd else ret 0);
           ret (e, temperature) }
         else do {
           _ \<leftarrow> k_close fd;
           ret (0, uint (args ! HDA_TEMP)) } } }
   }"

text \<open>One step of a standby function: open, write the value, close.\<close>

definition sata_step :: "string \<Rightarrow> string \<Rightarrow> ('z kernel_scheme, int) state" where
  "sata_step p v = do {
     fd \<leftarrow> k_open p O_WRONLY;
     if fd < 0 then ret fd
     else do {
       e \<leftarrow> k_write fd v;
       _ \<leftarrow> k_close fd;
       if e < 0 then ret e else ret 0 }
   }"

fun sata_steps :: "(string \<times> string) list \<Rightarrow> ('z kernel_scheme, int) state" where
  "sata_steps [] = ret 0"
| "sata_steps ((p, v) # ps) = do {
     e \<leftarrow> sata_step p v;
     if e < 0 then ret e else sata_steps ps }"

text \<open>
  \<open>timer_ms = timer_sec * 1000\<close> in an \<open>int\<close>.  Past 2147483 seconds the product is undefined in C; the wrapped
  value stands for what compilers make of it, and no property below uses it.
\<close>

definition standby_ms :: "int \<Rightarrow> int" where
  "standby_ms timer_sec = sint (word_of_int timer_sec * 1000 :: u32)"

definition standby_plan :: "int \<Rightarrow> (string \<times> string) list" where
  "standby_plan timer_sec =
     [(POWER_CONTROL_PATH, VALUE_AUTO),
      (AUTO_SUSPEND_DELAY_PATH, show_int (standby_ms timer_sec)),
      (HOST_CONTROL_PATH, VALUE_AUTO)]"

definition hdd_set_standby_timer :: "int \<Rightarrow> ('z kernel_scheme, int) state" where
  "hdd_set_standby_timer timer_sec =
     (if timer_sec < 0 then ret (- EINVAL) else sata_steps (standby_plan timer_sec))"

definition hdd_disable_standby_timer :: "('z kernel_scheme, int) state" where
  "hdd_disable_standby_timer =
     sata_steps [(POWER_CONTROL_PATH, VALUE_ON), (HOST_CONTROL_PATH, VALUE_ON)]"

section \<open>Correctness\<close>

lemma sata_step_effect:
  "same_but_errno (s\<lparr>wlog := wlog s @ accepted s O_WRONLY (p, d)\<rparr>) (exec (sata_step p d) s)"
  and sata_step_result: "result (sata_step p d) s = (if node_ok s O_WRONLY (p, d) then 0 else - 1)"
proof -
  have "same_but_errno (s\<lparr>wlog := wlog s @ accepted s O_WRONLY (p, d)\<rparr>) (exec (sata_step p d) s)
    \<and> result (sata_step p d) s = (if node_ok s O_WRONLY (p, d) then 0 else - 1)"
  proof (cases "opened s p O_WRONLY")
    case None
    then show ?thesis by (simp add: sata_step_def accepted_def node_ok_def)
  next
    case (Some fd)
    note o = opened_Some [OF Some]
    have "(fds s)(fd := None) = fds s" using o(1) by (simp add: fun_upd_idem)
    then show ?thesis
      using Some o
      by (auto simp: sata_step_def accepted_def node_ok_def exec_k_write result_k_write
          split: sum.splits)
  qed
  then show "same_but_errno (s\<lparr>wlog := wlog s @ accepted s O_WRONLY (p, d)\<rparr>) (exec (sata_step p d) s)"
    and "result (sata_step p d) s = (if node_ok s O_WRONLY (p, d) then 0 else - 1)" by simp_all
qed

interpretation sata: node_writer "sata_step :: string \<Rightarrow> string \<Rightarrow> ('z kernel_scheme, int) state" O_WRONLY
  by unfold_locales (rule sata_step_effect)

text \<open>
  The early-exit sequence: exactly the steps before the first refusal take effect, the result says
  whether there was one, and no descriptor stays open on any path.
\<close>

lemma sata_steps_effect:
  "same_but_errno
     (s\<lparr>wlog := wlog s @ concat (map (accepted s O_WRONLY) (takeWhile (node_ok s O_WRONLY) ps))\<rparr>)
     (exec (sata_steps ps) s)
   \<and> result (sata_steps ps) s = (if list_all (node_ok s O_WRONLY) ps then 0 else - 1)"
proof (induction ps arbitrary: s)
  case (Cons pd ps)
  obtain p d where pd: "pd = (p, d)" by (cases pd)
  obtain e where e: "exec (sata_step p d) s = s\<lparr>wlog := wlog s @ accepted s O_WRONLY (p, d), errno := e\<rparr>"
    using sata_step_effect [of s p d] by (auto simp: same_but_errno_def)
  show ?case
  proof (cases "node_ok s O_WRONLY (p, d)")
    case True
    then show ?thesis
      using Cons.IH [of "exec (sata_step p d) s"]
      by (auto simp: pd e sata_step_result same_but_errno_def)
  next
    case False
    then show ?thesis by (simp add: pd e sata_step_result accepted_refused)
  qed
qed simp

lemma standby_ms_exact: "0 \<le> t \<Longrightarrow> t \<le> 2147483 \<Longrightarrow> standby_ms t = t * 1000"
proof -
  assume "0 \<le> t" "t \<le> 2147483"
  then have "sint (word_of_int (t * 1000) :: u32) = t * 1000"
    by (simp only: int_word_sint) simp
  then show ?thesis by (simp add: standby_ms_def)
qed

text \<open>
  C25. For every delay whose number of milliseconds fits an \<open>int\<close>, setting the standby timer
  offers \<open>auto\<close>, the delay in milliseconds and \<open>auto\<close> to the three power nodes in this order; it
  stops at the first node that does not take its value, returns 0 exactly when all three did and
  -1 otherwise, and leaves the descriptor table as it was on every path.
\<close>

theorem hdd_set_standby_timer_effect:
  assumes "0 \<le> t" and "t \<le> 2147483"
    and "ps = [(POWER_CONTROL_PATH, ''auto''), (AUTO_SUSPEND_DELAY_PATH, show_int (t * 1000)),
               (HOST_CONTROL_PATH, ''auto'')]"
  shows "fds (exec (hdd_set_standby_timer t) s) = fds s
    \<and> wlog (exec (hdd_set_standby_timer t) s)
        = wlog s @ concat (map (accepted s O_WRONLY) (takeWhile (node_ok s O_WRONLY) ps))
    \<and> result (hdd_set_standby_timer t) s = (if list_all (node_ok s O_WRONLY) ps then 0 else - 1)"
proof -
  have e: "hdd_set_standby_timer t = (sata_steps ps :: ('a kernel_scheme, int) state)"
    using assms by (simp add: hdd_set_standby_timer_def standby_plan_def standby_ms_exact VALUE_AUTO_def)
  note eff = sata_steps_effect [of s ps]
  show ?thesis
    unfolding e using same_but_errno_fields(1,3) [OF conjunct1 [OF eff]] eff by simp
qed

definition sata_kernel :: kernel where
  "sata_kernel = plain_kernel [(POWER_CONTROL_PATH, plain_node []),
     (AUTO_SUSPEND_DELAY_PATH, plain_node [])]"

lemma sata_kernel_nodes:
  "node_ok sata_kernel O_WRONLY (POWER_CONTROL_PATH, d)"
  "node_ok sata_kernel O_WRONLY (AUTO_SUSPEND_DELAY_PATH, d)"
  "\<not> node_ok sata_kernel O_WRONLY (HOST_CONTROL_PATH, d)"
  "accepted sata_kernel O_WRONLY (POWER_CONTROL_PATH, d) = [(POWER_CONTROL_PATH, d)]"
  "accepted sata_kernel O_WRONLY (AUTO_SUSPEND_DELAY_PATH, d) = [(AUTO_SUSPEND_DELAY_PATH, d)]"
  by (simp_all add: sata_kernel_def node_ok_def accepted_def opened_def open_error_def
      driver_write_def plain_node_def POWER_CONTROL_PATH_def AUTO_SUSPEND_DELAY_PATH_def
      HOST_CONTROL_PATH_def)

theorem hdd_set_standby_timer_effect_witness:
  "wlog (exec (hdd_set_standby_timer 60) sata_kernel)
     = [(POWER_CONTROL_PATH, ''auto''), (AUTO_SUSPEND_DELAY_PATH, ''60000'')]
   \<and> result (hdd_set_standby_timer 60) sata_kernel = - 1"
proof -
  have "show_int 60000 = ''60000''" by (simp add: show_int_def show_nat.simps)
  moreover have "wlog sata_kernel = []" by (simp add: sata_kernel_def)
  ultimately show ?thesis
    using hdd_set_standby_timer_effect [of 60, OF _ _ refl, of sata_kernel]
    by (simp add: sata_kernel_nodes)
qed

text \<open>
  Disabling the timer offers \<open>on\<close> to the two power nodes under the same discipline, so after
  a success of both functions the nodes hold the opposite values.
\<close>

theorem hdd_disable_standby_timer_effect:
  "fds (exec hdd_disable_standby_timer s) = fds s
   \<and> wlog (exec hdd_disable_standby_timer s)
       = wlog s @ concat (map (accepted s O_WRONLY) (takeWhile (node_ok s O_WRONLY)
           [(POWER_CONTROL_PATH, ''on''), (HOST_CONTROL_PATH, ''on'')]))
   \<and> (result hdd_disable_standby_timer s = 0)
       = (node_ok s O_WRONLY (POWER_CONTROL_PATH, ''on'') \<and> node_ok s O_WRONLY (HOST_CONTROL_PATH, ''on''))"
  using sata_steps_effect [of s "[(POWER_CONTROL_PATH, ''on''), (HOST_CONTROL_PATH, ''on'')]"]
    same_but_errno_fields(1,3) [OF conjunct1 [OF sata_steps_effect
      [of s "[(POWER_CONTROL_PATH, ''on''), (HOST_CONTROL_PATH, ''on'')]"]]]
  unfolding hdd_disable_standby_timer_def VALUE_ON_def by simp

lemma check_node_existence_result:
  "same_but_errno s (exec (check_node_existence p) s)
   \<and> result (check_node_existence p) s
     = (if accessible s p F_OK \<and> accessible s p RW_OK then 0 else - 1)"
  using same_but_errno_trans [OF exec_k_access [of s p F_OK] exec_k_access, of p RW_OK]
    same_but_errno_fields(10) [OF exec_k_access [of s p F_OK]]
  by (auto simp: check_node_existence_def)

text \<open>The driver's answer in the buffer of 516 bytes, when it gives one.\<close>

definition drive_answer :: "'z kernel_scheme \<Rightarrow> string \<Rightarrow> u8 list option" where
  "drive_answer s p = (case nodes s p of
       None \<Rightarrow> None
     | Some n \<Rightarrow> (case n_ioctl n HDIO_DRIVE_CMD smart_args of
           Inl e \<Rightarrow> None
         | Inr out \<Rightarrow> Some (take (length smart_args) out @ drop (length out) smart_args)))"

text \<open>
  C34. Reading the temperature gives byte 204 of the driver's answer when the node exists, may be read
  and written, opens, and its driver answers; in every other case it returns -1 and leaves the
  caller's variable as it was.  The device is never left open.
\<close>

theorem hdd_get_temperature_correct:
  "fds (exec (hdd_get_temperature p temp) s) = fds s
   \<and> result (hdd_get_temperature p temp) s =
       (if accessible s p F_OK \<and> accessible s p RW_OK \<and> opened s p O_RDONLY \<noteq> None
        then (case drive_answer s p of None \<Rightarrow> (- 1, temp) | Some a \<Rightarrow> (0, uint (a ! 204)))
        else (- 1, temp))"
proof -
  obtain s1 where s1: "exec (check_node_existence p) s = s1" "same_but_errno s s1"
    using check_node_existence_result [of s p] by blast
  note f = same_but_errno_fields [OF s1(2)]
  have t: "HDA_TEMP = 204" by (simp add: HDA_TEMP_def STATUS_OFFSET_def)
  have r: "result (check_node_existence p) s = (if accessible s p F_OK \<and> accessible s p RW_OK then 0 else - 1)"
    using check_node_existence_result [of s p] by blast
  show ?thesis
  proof (cases "accessible s p F_OK \<and> accessible s p RW_OK")
    case False
    then show ?thesis using r f(1) s1(1) by (auto simp: hdd_get_temperature_def)
  next
    case acc: True
    show ?thesis
    proof (cases "opened s1 p O_RDONLY")
      case None
      then show ?thesis using acc r f(1,8) s1(1) by (simp add: hdd_get_temperature_def)
    next
      case (Some fd)
      then show ?thesis
        using acc r f(1,2,8) s1(1) opened_Some [OF Some]
        by (auto simp: hdd_get_temperature_def tegra_sata_hal_ioctl_def k_ioctl_def drive_answer_def t fun_upd_idem
            split: sum.split option.split)
    qed
  qed
qed

end
