(* ===== verification/Lights.thy ===== *)
theory Lights
  imports Posix
begin

unbundle bit_operations_syntax

text \<open>
  \<open>liblights/lights.c\<close>: the backlight and notification lights.  The flags
  \<open>already_warned\<close> only silence repeated log messages and are left out with them; the mutex
  \<open>g_lock\<close> and the devices on the heap are added in \<open>Lights_Device\<close>.  The name
  under which the framework asks for the backlight is a constant of \<open>hardware/lights.h\<close>
  and therefore an argument of \<open>open_lights\<close>.
\<close>

definition SYS_PATH_BL_BRIGHTNESS :: string where
  "SYS_PATH_BL_BRIGHTNESS = ''/sys/class/backlight/pwm-backlight/brightness''"
definition SYS_PATH_LED_BRIGHTNESS :: string where
  "SYS_PATH_LED_BRIGHTNESS = ''/sys/class/leds/white_led_en1/brightness''"
definition SYS_PATH_LED_TRIGGER :: string where
  "SYS_PATH_LED_TRIGGER = ''/sys/class/leds/white_led_en1/trigger''"

record light_state =
  color :: u32
  flashMode :: int
  flashOnMS :: int
  flashOffMS :: int

section \<open>Operations\<close>

definition write_int :: "string \<Rightarrow> int \<Rightarrow> ('z kernel_scheme, int) state" where
  "write_int p value = do {
     fd \<leftarrow> k_open p O_RDWR;
     if fd \<ge> 0 then do {
       amt \<leftarrow> k_write fd (show_int value @ [NL]);
       _ \<leftarrow> k_close fd;
       e \<leftarrow> gets errno;
       ret (if amt = - 1 then - e else 0) }
     else do {
       e \<leftarrow> gets errno;
       ret (- e) }
   }"

definition write_string :: "string \<Rightarrow> string \<Rightarrow> ('z kernel_scheme, int) state" where
  "write_string p str = do {
     fd \<leftarrow> k_open p O_RDWR;
     if fd \<ge> 0 then do {
       amt \<leftarrow> k_write fd str;
       _ \<leftarrow> k_close fd;
       e \<leftarrow> gets errno;
       ret (if amt = - 1 then - e else 0) }
     else do {
       e \<leftarrow> gets errno;
       ret (- e) }
   }"

text \<open>The result code and the caller's buffer.\<close>

definition read_string :: "string \<Rightarrow> string \<Rightarrow> nat \<Rightarrow> ('z kernel_scheme, int \<times> string) state" where
  "read_string p str n = do {
     fd \<leftarrow> k_open p O_RDONLY;
     if fd \<ge> 0 then do {
       (amt, data) \<leftarrow> k_read fd n;
       _ \<leftarrow> k_close fd;
       e \<leftarrow> gets errno;
       ret (if amt = - 1 then - e else 0, store data str) }
     else do {
       e \<leftarrow> gets errno;
       ret (- e, str) }
   }"

definition rgb_to_brightness :: "light_state \<Rightarrow> int" where
  "rgb_to_brightness st =
     (let c = color st AND 0x00ffffff
      in uint (drop_bit 8 (77 * (drop_bit 16 c AND 0x00ff)
          + 150 * (drop_bit 8 c AND 0x00ff)
          + 29 * (c AND 0x00ff) :: u32)))"

definition set_light_backlight :: "light_state \<Rightarrow> ('z kernel_scheme, int) state" where
  "set_light_backlight st = write_int SYS_PATH_BL_BRIGHTNESS (rgb_to_brightness st)"

definition set_light_notifications :: "light_state \<Rightarrow> ('z kernel_scheme, int) state" where
  "set_light_notifications st = do {
     _ \<leftarrow> write_int SYS_PATH_LED_BRIGHTNESS 255;
     _ \<leftarrow> write_string SYS_PATH_LED_TRIGGER ''timer'';
     ret 0
   }"

text \<open>A light device is the routine it was opened with.\<close>

datatype set_light = Backlight | Notifications

record light_device =
  set_light :: set_light

fun call_set_light :: "light_device \<Rightarrow> light_state \<Rightarrow> ('z kernel_scheme, int) state" where
  "call_set_light d st = (case set_light d of
       Backlight \<Rightarrow> set_light_backlight st
     | Notifications \<Rightarrow> set_light_notifications st)"

text \<open>The result code and the new device, if one is made.\<close>

definition open_lights :: "string \<Rightarrow> string \<Rightarrow> int \<times> light_device option" where
  "open_lights light_id_backlight name =
     (if name = light_id_backlight then (0, Some \<lparr>set_light = Backlight\<rparr>)
      else (- EINVAL, None))"

section \<open>Writing a node\<close>

lemma write_string_effect:
  "same_but_errno (s\<lparr>wlog := wlog s @ accepted s O_RDWR (p, d)\<rparr>) (exec (write_string p d) s)"
  and write_string_result:
  "result (write_string p d) s =
     (case open_error s p O_RDWR of Some e \<Rightarrow> - e
      | None \<Rightarrow> (case driver_write s p d of Inl e \<Rightarrow> - e | Inr _ \<Rightarrow> 0))"
proof -
  have "same_but_errno (s\<lparr>wlog := wlog s @ accepted s O_RDWR (p, d)\<rparr>) (exec (write_string p d) s)
    \<and> result (write_string p d) s =
     (case open_error s p O_RDWR of Some e \<Rightarrow> - e
      | None \<Rightarrow> (case driver_write s p d of Inl e \<Rightarrow> - e | Inr _ \<Rightarrow> 0))"
  proof (cases "opened s p O_RDWR")
    case None
    then obtain e where "open_error s p O_RDWR = Some e" by (auto simp: opened_None_iff)
    with None show ?thesis by (simp add: write_string_def accepted_def)
  next
    case (Some fd)
    then have "open_error s p O_RDWR = None" by (auto simp: opened_def split: if_splits)
    then show ?thesis
      using Some opened_Some [OF Some]
      by (auto simp: write_string_def accepted_def exec_k_write result_k_write fun_upd_idem
          split: sum.splits)
  qed
  then show "same_but_errno (s\<lparr>wlog := wlog s @ accepted s O_RDWR (p, d)\<rparr>) (exec (write_string p d) s)"
    and "result (write_string p d) s =
     (case open_error s p O_RDWR of Some e \<Rightarrow> - e
      | None \<Rightarrow> (case driver_write s p d of Inl e \<Rightarrow> - e | Inr _ \<Rightarrow> 0))" by simp_all
qed

interpretation ws: node_writer "write_string :: string \<Rightarrow> string \<Rightarrow> ('z kernel_scheme, int) state" O_RDWR
  by unfold_locales (rule write_string_effect)

lemma write_int_string: "write_int p v = write_string p (show_int v @ [NL])"
  by (simp add: write_int_def write_string_def)

text \<open>
  Writing an integer keeps the descriptor table, reports 0 exactly when the node opened and
  its driver took the write, and the negated error number otherwise; the text offered, a decimal
  number and a newline, always fits the 20 byte buffer it is printed into.
\<close>

theorem write_int_correct:
  assumes "int32 v"
  shows "fds (exec (write_int p v) s) = fds s
    \<and> wlog (exec (write_int p v) s) = wlog s @ accepted s O_RDWR (p, show_int v @ [NL])
    \<and> result (write_int p v) s =
        (case open_error s p O_RDWR of Some e \<Rightarrow> - e
         | None \<Rightarrow> (case driver_write s p (show_int v @ [NL]) of Inl e \<Rightarrow> - e | Inr _ \<Rightarrow> 0))
    \<and> length (show_int v @ [NL]) < 20"
  using length_show_int [OF assms] by (simp add: write_int_string ws.wr_fields write_string_result)

definition lights_kernel :: kernel where
  "lights_kernel = plain_kernel [(SYS_PATH_BL_BRIGHTNESS, plain_node [])]"

lemma lights_kernel_simps [simp]:
  "open_error lights_kernel SYS_PATH_BL_BRIGHTNESS fl = None"
  "opened lights_kernel SYS_PATH_BL_BRIGHTNESS fl = Some 3"
  "driver_write lights_kernel SYS_PATH_BL_BRIGHTNESS d = Inr (length d)"
  "wlog lights_kernel = []"
  by (simp_all add: lights_kernel_def opened_def open_error_def driver_write_def plain_node_def)

theorem write_int_correct_witness:
  "wlog (exec (write_int SYS_PATH_BL_BRIGHTNESS 200) lights_kernel) = [(SYS_PATH_BL_BRIGHTNESS, ''200\<newline>'')]
   \<and> result (write_int SYS_PATH_BL_BRIGHTNESS 200) lights_kernel = 0"
proof -
  have "int32 200" by (simp add: int32_def)
  moreover have "show_int 200 = ''200''" by (simp add: show_int_def show_nat.simps)
  ultimately show ?thesis
    using write_int_correct [of 200 SYS_PATH_BL_BRIGHTNESS lights_kernel]
    by (simp add: accepted_def)
qed

section \<open>Brightness\<close>

definition red :: "light_state \<Rightarrow> nat" where "red st = unat (color st) div 65536 mod 256"
definition green :: "light_state \<Rightarrow> nat" where "green st = unat (color st) div 256 mod 256"
definition blue :: "light_state \<Rightarrow> nat" where "blue st = unat (color st) mod 256"

lemma unat_shift: "unat (drop_bit n (w :: u32)) = unat w div 2 ^ n"
  by (subst unat_drop_bit_eq) (rule drop_bit_eq_div)

lemma unat_low_bits: "n \<le> 32 \<Longrightarrow> unat (take_bit n (w :: u32)) = unat w mod 2 ^ n"
  by (subst unsigned_take_bit_eq) (rule take_bit_eq_mod)

lemma low_byte: "unat (w AND 255 :: u32) = unat w mod 256"
proof -
  have "w AND 255 = take_bit 8 w" by (simp add: take_bit_eq_mask mask_eq_exp_minus_1)
  then show ?thesis using unat_low_bits [of 8 w] by simp
qed

lemma rgb_bytes:
  "unat (drop_bit 16 (color st AND 0xffffff) AND 0xff) = red st"
  "unat (drop_bit 8 (color st AND 0xffffff) AND 0xff) = green st"
  "unat ((color st AND 0xffffff) AND 0xff) = blue st"
proof -
  have m: "color st AND 0xffffff = take_bit 24 (color st)"
    by (simp add: take_bit_eq_mask mask_eq_exp_minus_1)
  have u: "unat (drop_bit n (take_bit 24 (color st))) = unat (color st) mod 2 ^ 24 div 2 ^ n" for n
    by (simp only: unat_shift unat_low_bits)
  show "unat (drop_bit 16 (color st AND 0xffffff) AND 0xff) = red st"
    using u [of 16] mod_mult2_eq [of "unat (color st)" 65536 256] by (simp add: m low_byte red_def)
  show "unat (drop_bit 8 (color st AND 0xffffff) AND 0xff) = green st"
    using u [of 8] mod_mult2_eq [of "unat (color st)" 256 65536]
    by (simp add: m low_byte green_def mod_mod_cancel)
  show "unat ((color st AND 0xffffff) AND 0xff) = blue st"
    using u [of 0] by (simp add: m low_byte blue_def mod_mod_cancel)
qed

lemma rgb_to_brightness_value:
  "rgb_to_brightness st = (77 * int (red st) + 150 * int (green st) + 29 * int (blue st)) div 256"
proof -
  let ?r = "drop_bit 16 (color st AND 0xffffff) AND 0xff :: u32"
  let ?g = "drop_bit 8 (color st AND 0xffffff) AND 0xff :: u32"
  let ?b = "(color st AND 0xffffff) AND 0xff :: u32"
  have lim: "red st < 256" "green st < 256" "blue st < 256"
    by (simp_all add: red_def green_def blue_def)
  have "unat (77 * ?r + 150 * ?g + 29 * ?b) = 77 * red st + 150 * green st + 29 * blue st"
    using lim rgb_bytes [of st] by (simp add: unat_word_ariths)
  then have "rgb_to_brightness st = int ((77 * red st + 150 * green st + 29 * blue st) div 256)"
    unfolding rgb_to_brightness_def Let_def uint_nat unat_shift by simp
  then show ?thesis by (simp add: zdiv_int)
qed

lemma rgb_to_brightness_mono:
  assumes "red st \<le> red st'" and "green st \<le> green st'" and "blue st \<le> blue st'"
  shows "rgb_to_brightness st \<le> rgb_to_brightness st'"
  unfolding rgb_to_brightness_value using assms by (intro zdiv_mono1) simp_all

text \<open>
  C33. The brightness is the weighted mean (77 r + 150 g + 29 b) / 256 of the three colour bytes,
  computed without overflow in 32 bits, whatever the alpha byte is.  It is always a legal
  brightness from 0 to 255, a grey of value v gives exactly v (so black is off and white is full),
  and making no channel darker never dims the light.
\<close>

theorem rgb_to_brightness_mean:
  "rgb_to_brightness st = (77 * int (red st) + 150 * int (green st) + 29 * int (blue st)) div 256
   \<and> 0 \<le> rgb_to_brightness st \<and> rgb_to_brightness st \<le> 255
   \<and> rgb_to_brightness \<lparr>color = 0x10101 * of_nat (n mod 256), flashMode = a, flashOnMS = b, flashOffMS = c\<rparr>
       = int (n mod 256)
   \<and> (red st \<le> red st' \<and> green st \<le> green st' \<and> blue st \<le> blue st' \<longrightarrow> rgb_to_brightness st \<le> rgb_to_brightness st')"
proof -
  define g where "g = \<lparr>color = 0x10101 * of_nat (n mod 256), flashMode = a, flashOnMS = b, flashOffMS = c\<rparr>"
  have u: "unat (color g) = 65793 * (n mod 256)"
    by (simp add: g_def unat_word_ariths unat_of_nat)
  have grey: "65793 * k div 65536 = k" "65793 * k div 256 = 257 * k" "65793 * k mod 256 = k"
    "257 * k mod 256 = k" if "k < 256" for k :: nat
    using that by (auto intro!: div_nat_eqI simp: mod_nat_eqI)
  have "red g = n mod 256" "green g = n mod 256" "blue g = n mod 256"
    using grey [of "n mod 256"] by (simp_all add: red_def green_def blue_def u)
  then have "rgb_to_brightness g = int (n mod 256)"
    by (simp add: rgb_to_brightness_value)
  moreover have "red st < 256" "green st < 256" "blue st < 256"
    by (simp_all add: red_def green_def blue_def)
  then have "0 \<le> rgb_to_brightness st \<and> rgb_to_brightness st \<le> 255"
    unfolding rgb_to_brightness_value by linarith
  ultimately show ?thesis using rgb_to_brightness_mono [of st st'] rgb_to_brightness_value [of st] by (simp add: g_def)
qed

theorem rgb_to_brightness_mean_witness:
  "rgb_to_brightness \<lparr>color = 0xff102030, flashMode = 0, flashOnMS = 0, flashOffMS = 0\<rparr>
   \<le> rgb_to_brightness \<lparr>color = 0x00112233, flashMode = 0, flashOnMS = 0, flashOffMS = 0\<rparr>"
  using rgb_to_brightness_mean [of "\<lparr>color = 0xff102030, flashMode = 0, flashOnMS = 0, flashOffMS = 0\<rparr>" 0 0 0 0
      "\<lparr>color = 0x00112233, flashMode = 0, flashOnMS = 0, flashOffMS = 0\<rparr>"]
  by (simp add: red_def green_def blue_def)

section \<open>Devices\<close>

text \<open>
  Opening succeeds for exactly one name; every device that can be opened is the backlight, so
  setting a light through it offers the brightness of the colour, and nothing else, to the
  backlight node, and the notification routine is never reached.
\<close>

theorem open_lights_only_backlight:
  assumes "open_lights bl name = (r, Some d)"
  shows "r = 0 \<and> name = bl
    \<and> wlog (exec (call_set_light d st) s) = wlog s @ accepted s O_RDWR
        (SYS_PATH_BL_BRIGHTNESS, show_int (rgb_to_brightness st) @ [NL])
    \<and> fds (exec (call_set_light d st) s) = fds s"
  using assms
  by (auto simp: open_lights_def set_light_backlight_def write_int_string ws.wr_fields
      split: if_splits)

theorem open_lights_only_backlight_witness:
  "wlog (exec (call_set_light \<lparr>set_light = Backlight\<rparr>
       \<lparr>color = 0xff808080, flashMode = 0, flashOnMS = 0, flashOffMS = 0\<rparr>) lights_kernel)
     = [(SYS_PATH_BL_BRIGHTNESS, ''128\<newline>'')]"
proof -
  have "open_lights ''backlight'' ''backlight'' = (0, Some \<lparr>set_light = Backlight\<rparr>)"
    by (simp add: open_lights_def)
  moreover have "rgb_to_brightness \<lparr>color = 0xff808080, flashMode = 0, flashOnMS = 0, flashOffMS = 0\<rparr> = 128"
    by (simp add: rgb_to_brightness_def)
  moreover have "show_int 128 = ''128''" by (simp add: show_int_def show_nat.simps)
  ultimately show ?thesis
    using open_lights_only_backlight [of "''backlight''" "''backlight''" 0 "\<lparr>set_light = Backlight\<rparr>"
        "\<lparr>color = 0xff808080, flashMode = 0, flashOnMS = 0, flashOffMS = 0\<rparr>" lights_kernel]
    by (simp add: accepted_def)
qed

end
