(* ===== verification/Lights_Device.thy ===== *)
theory Lights_Device
  imports Lights
begin

text \<open>
  \<open>liblights/lights.c\<close> as a module in use: light devices on the heap, opened, used by any number of
  threads, and closed, and the lock \<open>g_lock\<close> around the writes.  \<open>open_lights\<close> initialises that
  lock each time it is called, also while a thread is between taking and releasing it.
\<close>

section \<open>State\<close>

text \<open>
  \<open>devices\<close> is the heap of light devices and \<open>out_of_memory\<close> what \<open>malloc\<close> answers next; \<open>g_lock\<close>
  says whether the lock is taken.  \<open>inside\<close> is a ghost field: the threads between taking and
  releasing the lock, each with its device and the state it sets.
\<close>

record lights = kernel +
  devices :: "nat \<Rightarrow> light_device option"
  next_device :: nat
  out_of_memory :: bool
  g_lock :: bool
  inside :: "nat \<Rightarrow> (light_device \<times> light_state) option"
  lights_undef :: bool

section \<open>Operations\<close>

text \<open>\<open>malloc\<close> and \<open>memset\<close>: the result of \<open>malloc\<close> is not tested.\<close>

definition new_light_device :: "light_device \<Rightarrow> (lights, nat option) state" where
  "new_light_device d = do {
     s \<leftarrow> gets (\<lambda>s. s);
     if out_of_memory s then do { modify (\<lambda>s. s\<lparr>lights_undef := True\<rparr>); ret None }
     else do {
       modify (\<lambda>s. s\<lparr>devices := (devices s)(next_device s \<mapsto> d), next_device := Suc (next_device s)\<rparr>);
       ret (Some (next_device s)) }
   }"

text \<open>\<open>open_lights\<close> with its effects: the result code and \<open>*device\<close>.\<close>

definition open_lights_device :: "string \<Rightarrow> string \<Rightarrow> (lights, int \<times> nat option) state" where
  "open_lights_device light_id_backlight name = (case open_lights light_id_backlight name of
       (r, None) \<Rightarrow> ret (r, None)
     | (r, Some d) \<Rightarrow> do {
         modify (\<lambda>s. s\<lparr>g_lock := False\<rparr>);
         dev \<leftarrow> new_light_device d;
         ret (r, dev) })"

definition close_lights :: "nat option \<Rightarrow> (lights, int) state" where
  "close_lights dev = do {
     (case dev of
        None \<Rightarrow> ret ()
      | Some a \<Rightarrow> modify (\<lambda>s. if devices s a = None then s\<lparr>lights_undef := True\<rparr>
                              else s\<lparr>devices := (devices s)(a := None)\<rparr>));
     ret 0
   }"

text \<open>The module: its entry point, and the texts and version that name it.\<close>

record lights_module =
  version_major :: nat
  version_minor :: nat
  lights_name :: string
  lights_author :: string
  open_method :: "string \<Rightarrow> (lights, int \<times> nat option) state"

definition lights_HAL_MODULE_INFO_SYM :: "string \<Rightarrow> lights_module" where
  "lights_HAL_MODULE_INFO_SYM light_id_backlight = \<lparr>
     version_major = 1, version_minor = 0,
     lights_name = ''NVIDIA Macallan Lights Module'', lights_author = ''NVIDIA'',
     open_method = open_lights_device light_id_backlight\<rparr>"

section \<open>Threads\<close>

text \<open>
  A thread that sets a light takes the lock, and then writes and releases it.  With \<open>careful\<close>, no
  device is opened while a thread has the lock.
\<close>

inductive lights_step :: "lights_module \<Rightarrow> bool \<Rightarrow> lights \<Rightarrow> lights \<Rightarrow> bool" for M careful where
  l_open: "careful \<longrightarrow> inside s = Map.empty \<Longrightarrow> lights_step M careful s (exec (open_method M name) s)"
| l_close: "devices s a \<noteq> None \<Longrightarrow> lights_step M careful s (exec (close_lights (Some a)) s)"
| l_enter: "\<not> g_lock s \<Longrightarrow> inside s i = None \<Longrightarrow> devices s a = Some d \<Longrightarrow>
    lights_step M careful s (s\<lparr>g_lock := True, inside := (inside s)(i \<mapsto> (d, st))\<rparr>)"
| l_leave: "inside s i = Some (d, st) \<Longrightarrow>
    lights_step M careful s ((exec (call_set_light d st) s)\<lparr>g_lock := False, inside := (inside s)(i := None)\<rparr>)"
| l_environment: "lights_step M careful s (s\<lparr>nodes := N, out_of_memory := b\<rparr>)"

definition lights_init :: "lights \<Rightarrow> bool" where
  "lights_init s \<longleftrightarrow> devices s = Map.empty \<and> \<not> g_lock s \<and> inside s = Map.empty \<and> wlog s = []"

section \<open>What every session keeps\<close>

text \<open>What has been written: only brightnesses, only to the backlight, each perhaps cut short by the driver.\<close>

definition brightness_write :: "string \<times> string \<Rightarrow> bool" where
  "brightness_write w \<longleftrightarrow> fst w = SYS_PATH_BL_BRIGHTNESS
     \<and> (\<exists>v c. 0 \<le> v \<and> v \<le> 255 \<and> snd w = take c (show_int v @ [NL]))"

definition lights_inv :: "(int \<Rightarrow> ofile option) \<Rightarrow> lights \<Rightarrow> bool" where
  "lights_inv F s \<longleftrightarrow> (\<forall>a d. devices s a = Some d \<longrightarrow> set_light d = Backlight)
     \<and> (\<forall>i d st. inside s i = Some (d, st) \<longrightarrow> set_light d = Backlight)
     \<and> list_all brightness_write (wlog s) \<and> fds s = F"

text \<open>At most one thread is inside, and only while the lock is taken.\<close>

definition exclusive :: "lights \<Rightarrow> bool" where
  "exclusive s \<longleftrightarrow> (\<forall>i j. inside s i \<noteq> None \<and> inside s j \<noteq> None \<longrightarrow> i = j)
     \<and> (inside s \<noteq> Map.empty \<longrightarrow> g_lock s)"

lemma set_backlight_effect:
  assumes "set_light d = Backlight"
  shows "\<exists>w e. exec (call_set_light d st) s = s\<lparr>wlog := wlog s @ w, errno := e\<rparr> \<and> list_all brightness_write w"
proof -
  let ?d = "show_int (rgb_to_brightness st) @ [NL]"
  obtain e where e: "exec (write_string SYS_PATH_BL_BRIGHTNESS ?d) s
      = s\<lparr>wlog := wlog s @ accepted s O_RDWR (SYS_PATH_BL_BRIGHTNESS, ?d), errno := e\<rparr>"
    using ws.wr_effect [of s SYS_PATH_BL_BRIGHTNESS ?d] by (auto simp: same_but_errno_def)
  have "red st < 256" "green st < 256" "blue st < 256" by (simp_all add: red_def green_def blue_def)
  then have "0 \<le> rgb_to_brightness st \<and> rgb_to_brightness st \<le> 255"
    unfolding rgb_to_brightness_value by linarith
  then have "brightness_write (SYS_PATH_BL_BRIGHTNESS, take c ?d)" for c
    by (auto simp: brightness_write_def intro!: exI)
  then have "list_all brightness_write (accepted s O_RDWR (SYS_PATH_BL_BRIGHTNESS, ?d))"
    by (simp add: accepted_def split: sum.split)
  then show ?thesis using assms e by (auto simp: set_light_backlight_def write_int_string)
qed

lemma open_effect:
  "exec (open_method (lights_HAL_MODULE_INFO_SYM bl) name) s =
     (if name \<noteq> bl then s
      else if out_of_memory s then s\<lparr>g_lock := False, lights_undef := True\<rparr>
      else s\<lparr>devices := (devices s)(next_device s \<mapsto> \<lparr>set_light = Backlight\<rparr>),
             next_device := Suc (next_device s), g_lock := False\<rparr>)"
  by (simp add: lights_HAL_MODULE_INFO_SYM_def open_lights_device_def open_lights_def new_light_device_def)

lemma lights_inv_step:
  assumes inv: "lights_inv F s" and step: "lights_step (lights_HAL_MODULE_INFO_SYM bl) careful s t"
  shows "lights_inv F t"
  using step
proof cases
  case (l_open name)
  then show ?thesis using inv by (auto simp: open_effect lights_inv_def)
next
  case (l_close a)
  then show ?thesis using inv by (auto simp: close_lights_def lights_inv_def)
next
  case (l_enter i a d st)
  then show ?thesis using inv by (auto simp: lights_inv_def)
next
  case (l_leave i d st)
  have "set_light d = Backlight" using inv l_leave(2) unfolding lights_inv_def by blast
  from set_backlight_effect [OF this, of st s] obtain w e where
    w: "exec (call_set_light d st) s = s\<lparr>wlog := wlog s @ w, errno := e\<rparr>" "list_all brightness_write w" by blast
  then show ?thesis using inv unfolding l_leave(1) w(1) by (auto simp: lights_inv_def)
next
  case (l_environment N b)
  then show ?thesis using inv by (auto simp: lights_inv_def)
qed

lemma exclusive_step:
  assumes inv: "lights_inv F s" "exclusive s" and step: "lights_step (lights_HAL_MODULE_INFO_SYM bl) True s t"
  shows "exclusive t"
  using step
proof cases
  case (l_open name)
  then show ?thesis using inv(2) by (auto simp: open_effect exclusive_def)
next
  case (l_close a)
  then show ?thesis using inv(2) by (auto simp: close_lights_def exclusive_def)
next
  case (l_enter i a d st)
  then show ?thesis using inv(2) by (auto simp: exclusive_def)
next
  case (l_leave i d st)
  have "set_light d = Backlight" using inv l_leave(2) unfolding lights_inv_def by blast
  from set_backlight_effect [OF this, of st s] obtain w e where
    w: "exec (call_set_light d st) s = s\<lparr>wlog := wlog s @ w, errno := e\<rparr>" by blast
  have "inside s j = None" if "j \<noteq> i" for j using inv(2) l_leave(2) that unfolding exclusive_def by (metis option.distinct(1))
  then show ?thesis unfolding l_leave(1) w exclusive_def by auto
next
  case (l_environment N b)
  then show ?thesis using inv(2) by (auto simp: exclusive_def)
qed


interpretation ls: plain_invariant "\<lambda>s. lights_init s \<and> fds s = F" "lights_step (lights_HAL_MODULE_INFO_SYM bl) careful"
  "\<lambda>s. lights_inv F s \<and> (careful \<longrightarrow> exclusive s)" for F bl careful
proof unfold_locales
  fix s assume "lights_init s \<and> fds s = F"
  then show "lights_inv F s \<and> (careful \<longrightarrow> exclusive s)" by (simp add: lights_init_def lights_inv_def exclusive_def)
next
  fix s t assume s: "lights_inv F s \<and> (careful \<longrightarrow> exclusive s)"
    and step: "lights_step (lights_HAL_MODULE_INFO_SYM bl) careful s t"
  have "lights_inv F t" using lights_inv_step [OF _ step] s by simp
  moreover have "exclusive t" if "careful" using s step that by (auto intro: exclusive_step)
  ultimately show "lights_inv F t \<and> (careful \<longrightarrow> exclusive t)" by simp
qed

text \<open>
  C23. In every session, however many devices are opened and closed and however their threads
  interleave: every device there is sets the backlight, nothing but brightnesses from 0 to 255 is ever
  written and only to the backlight node, and no descriptor is opened for good or closed.  If no
  device is opened while a thread holds the lock, at most one thread at a time is inside it.
\<close>

theorem lights_session:
  assumes "reach (\<lambda>s. lights_init s \<and> fds s = F) (lights_step (lights_HAL_MODULE_INFO_SYM bl) careful) n s"
  shows "(\<forall>a d. devices s a = Some d \<longrightarrow> set_light d = Backlight)
    \<and> list_all brightness_write (wlog s) \<and> fds s = F
    \<and> (careful \<and> inside s i \<noteq> None \<and> inside s j \<noteq> None \<longrightarrow> i = j)"
  using ls.always [OF assms] by (auto simp: lights_inv_def exclusive_def)

definition lights_demo :: lights where
  "lights_demo = kernel.extend lights_kernel \<lparr>devices = Map.empty, next_device = 0,
     out_of_memory = False, g_lock = False, inside = Map.empty, lights_undef = False\<rparr>"

lemma lights_demo_simps [simp]:
  "fds lights_demo = std_fds" "devices lights_demo = Map.empty" "next_device lights_demo = 0"
  "\<not> out_of_memory lights_demo" "\<not> g_lock lights_demo" "inside lights_demo = Map.empty" "wlog lights_demo = []"
  "\<not> lights_undef lights_demo"
  by (simp_all add: lights_demo_def kernel.defs lights_kernel_def plain_kernel_def)

text \<open>A device is opened, and a thread enters with it.\<close>

definition white :: light_state where
  "white = \<lparr>color = 0xffffffff, flashMode = 0, flashOnMS = 0, flashOffMS = 0\<rparr>"

definition lights_busy :: lights where
  "lights_busy = lights_demo\<lparr>devices := [0 \<mapsto> \<lparr>set_light = Backlight\<rparr>], next_device := 1,
     g_lock := True, inside := [1 \<mapsto> (\<lparr>set_light = Backlight\<rparr>, white)]\<rparr>"

lemma lights_busy_reached:
  "reach (\<lambda>s. lights_init s \<and> fds s = std_fds) (lights_step (lights_HAL_MODULE_INFO_SYM ''backlight'') careful) 2 lights_busy"
proof -
  let ?r = "reach (\<lambda>s. lights_init s \<and> fds s = std_fds) (lights_step (lights_HAL_MODULE_INFO_SYM ''backlight'') careful)"
  let ?t = "lights_demo\<lparr>devices := [0 \<mapsto> \<lparr>set_light = Backlight\<rparr>], next_device := 1, g_lock := False\<rparr>"
  have "?r 0 lights_demo" by (rule reach_init) (simp add: lights_init_def)
  moreover have "lights_step (lights_HAL_MODULE_INFO_SYM ''backlight'') careful lights_demo ?t"
    using l_open [of careful lights_demo "lights_HAL_MODULE_INFO_SYM ''backlight''" "''backlight''"]
    by (simp add: open_effect)
  ultimately have 1: "?r (Suc 0) ?t" by (rule reach_step)
  have "lights_step (lights_HAL_MODULE_INFO_SYM ''backlight'') careful ?t lights_busy"
    using l_enter [of ?t 1 0 "\<lparr>set_light = Backlight\<rparr>" "lights_HAL_MODULE_INFO_SYM ''backlight''" careful white]
    by (simp add: lights_busy_def)
  from reach_step [where init = "\<lambda>s. lights_init s \<and> fds s = std_fds"
      and step = "lights_step (lights_HAL_MODULE_INFO_SYM ''backlight'') careful", OF 1 this]
  show ?thesis by (simp add: numeral_2_eq_2)
qed

theorem lights_session_witness:
  "fds lights_busy = std_fds \<and> inside lights_busy 1 \<noteq> None"
  using lights_session [OF lights_busy_reached, of True 1 1] by (simp add: lights_busy_def)

text \<open>
  C40. Opening a light initialises the lock, whoever holds it: while one thread is writing the brightness,
  a second open of the backlight lets another thread in beside it.
\<close>

theorem lights_open_breaks_lock:
  assumes "inside s i = Some x" and "inside s j = None" and "\<not> out_of_memory s"
    and "t = exec (open_method (lights_HAL_MODULE_INFO_SYM bl) bl) s"
  shows "\<exists>u. lights_step (lights_HAL_MODULE_INFO_SYM bl) False s t
    \<and> lights_step (lights_HAL_MODULE_INFO_SYM bl) False t u
    \<and> devices t (next_device s) = Some \<lparr>set_light = Backlight\<rparr>
    \<and> inside u i = Some x \<and> inside u j = Some (\<lparr>set_light = Backlight\<rparr>, st)"
proof -
  let ?M = "lights_HAL_MODULE_INFO_SYM bl" and ?d = "\<lparr>set_light = Backlight\<rparr>"
  have t: "t = s\<lparr>devices := (devices s)(next_device s \<mapsto> ?d), next_device := Suc (next_device s), g_lock := False\<rparr>"
    using assms(3,4) by (simp add: open_effect)
  have "lights_step ?M False s t" unfolding assms(4) by (rule l_open) simp
  moreover have "lights_step ?M False t (t\<lparr>g_lock := True, inside := (inside t)(j \<mapsto> (?d, st))\<rparr>)"
    by (rule l_enter [where a = "next_device s"]) (simp_all add: t assms(2))
  moreover have "i \<noteq> j" using assms(1,2) by auto
  ultimately show ?thesis using assms(1) by (intro exI conjI) (assumption, assumption, simp_all add: t)
qed

theorem lights_open_breaks_lock_witness:
  "\<exists>u :: lights. inside u 1 = Some (\<lparr>set_light = Backlight\<rparr>, white) \<and> inside u 2 = Some (\<lparr>set_light = Backlight\<rparr>, white)"
  using lights_open_breaks_lock [of lights_busy 1 "(\<lparr>set_light = Backlight\<rparr>, white)" 2 _ "''backlight''" white, OF _ _ _ refl]
  by (simp add: lights_busy_def) blast

end
