(* ===== verification/Sysfs_Utils.thy ===== *)
theory Sysfs_Utils
  imports Posix
begin

text \<open>
  \<open>power/powerhal_utils.cpp\<close>: reading and writing a node of the file system in one call,
  and typed access to system properties.  Log messages are left out.  A failed read puts the
  text of the error into the caller's buffer, as the code does, so callers that parse the buffer
  parse that text.
\<close>

section \<open>Nodes\<close>

definition sysfs_write :: "string \<Rightarrow> string \<Rightarrow> ('z kernel_scheme, unit) state" where
  "sysfs_write p s = do {
     fd \<leftarrow> k_open p O_WRONLY;
     if fd < 0 then ret ()
     else do {
       _ \<leftarrow> k_write fd s;
       _ \<leftarrow> k_close fd;
       ret () }
   }"

text \<open>\<open>strerror_r (errno, s, n)\<close> into a buffer.\<close>

definition strerror_r :: "string \<Rightarrow> nat \<Rightarrow> ('z kernel_scheme, string) state" where
  "strerror_r buf n = gets (\<lambda>s. store (take (n - 1) (strerr s (errno s)) @ [NUL]) buf)"

text \<open>The buffer is a value here: the old contents go in, the new contents come back.\<close>

definition sysfs_read :: "string \<Rightarrow> string \<Rightarrow> nat \<Rightarrow> ('z kernel_scheme, string) state" where
  "sysfs_read p buf n = do {
     fd \<leftarrow> k_open p O_RDONLY;
     if fd < 0 then strerror_r buf n
     else do {
       (len, data) \<leftarrow> k_read fd n;
       _ \<leftarrow> k_close fd;
       if len < 0 then strerror_r buf n else ret (store data buf) }
   }"

definition sysfs_exists :: "string \<Rightarrow> ('z kernel_scheme, bool) state" where
  "sysfs_exists p = do {
     fd \<leftarrow> k_open p O_RDONLY;
     _ \<leftarrow> k_close fd;
     ret (\<not> fd < 0)
   }"

definition PROPERTY_VALUE_MAX :: nat where "PROPERTY_VALUE_MAX = 92"

definition sysfs_write_int :: "string \<Rightarrow> int \<Rightarrow> ('z kernel_scheme, unit) state" where
  "sysfs_write_int p v = sysfs_write p (snprintf PROPERTY_VALUE_MAX (show_int v))"

section \<open>Properties\<close>

definition get_property_bool :: "string \<Rightarrow> bool \<Rightarrow> ('z kernel_scheme, bool) state" where
  "get_property_bool key default_value = do {
     v \<leftarrow> property_get key [];
     if 0 < length v then
       if v = ''1'' \<or> strcasecmp_eq v ''on'' \<or> strcasecmp_eq v ''true'' then ret True
       else if v = ''0'' \<or> strcasecmp_eq v ''off'' \<or> strcasecmp_eq v ''false'' then ret False
       else ret default_value
     else ret default_value
   }"

definition set_property_int :: "string \<Rightarrow> int \<Rightarrow> ('z kernel_scheme, unit) state" where
  "set_property_int key v = do {
     _ \<leftarrow> property_set key (snprintf PROPERTY_VALUE_MAX (show_int v));
     ret ()
   }"

section \<open>Correctness\<close>

lemma sysfs_write_effect:
  "same_but_errno (s\<lparr>wlog := wlog s @ accepted s O_WRONLY (p, d)\<rparr>) (exec (sysfs_write p d) s)"
proof (cases "opened s p O_WRONLY")
  case None
  then show ?thesis by (simp add: sysfs_write_def accepted_def)
next
  case (Some fd)
  note o = opened_Some [OF Some]
  have "(fds s)(fd := None) = fds s" using o(1) by (simp add: fun_upd_idem)
  then show ?thesis
    using Some o by (auto simp: sysfs_write_def accepted_def exec_k_write split: sum.split)
qed

interpretation sw: node_writer "sysfs_write :: string \<Rightarrow> string \<Rightarrow> ('z kernel_scheme, unit) state" O_WRONLY
  by unfold_locales (rule sysfs_write_effect)

text \<open>What a successful read finds, \<open>None\<close> when the node cannot be opened or read.\<close>

definition node_text :: "'z kernel_scheme \<Rightarrow> string \<Rightarrow> nat \<Rightarrow> string option" where
  "node_text s p n =
     (if opened s p O_RDONLY = None then None
      else (case nodes s p of
          None \<Rightarrow> None
        | Some x \<Rightarrow> (case n_read x of Inl _ \<Rightarrow> None | Inr d \<Rightarrow> Some (take n d))))"

lemma sysfs_read_effect: "same_but_errno s (exec (sysfs_read p buf n) s)"
proof (cases "opened s p O_RDONLY")
  case None
  then show ?thesis by (simp add: sysfs_read_def strerror_r_def)
next
  case (Some fd)
  note o = opened_Some [OF Some]
  have "(fds s)(fd := None) = fds s" using o(1) by (simp add: fun_upd_idem)
  then show ?thesis
    using Some o
    by (auto simp: sysfs_read_def strerror_r_def k_read_def split: option.split sum.split)
qed

lemma sysfs_read_result:
  assumes "node_text s p n = Some d"
  shows "result (sysfs_read p buf n) s = store d buf"
proof -
  obtain fd where fd: "opened s p O_RDONLY = Some fd"
    using assms by (cases "opened s p O_RDONLY") (auto simp: node_text_def)
  show ?thesis
    using assms opened_Some [OF fd] fd
    by (auto simp: node_text_def sysfs_read_def k_read_def split: option.splits sum.splits)
qed

lemma sysfs_read_failed:
  assumes "node_text s p n = None"
  shows "\<exists>e. result (sysfs_read p buf n) s = store (take (n - 1) (strerr s e) @ [NUL]) buf"
proof (cases "opened s p O_RDONLY")
  case None
  then show ?thesis by (auto simp: sysfs_read_def strerror_r_def)
next
  case (Some fd)
  then show ?thesis
    using assms opened_Some [OF Some]
    by (auto simp: node_text_def sysfs_read_def k_read_def strerror_r_def
        split: option.splits sum.splits)
qed

lemma sysfs_exists_effect:
  assumes "fds s (- 1) = None"
  shows "same_but_errno s (exec (sysfs_exists p) s)"
    and "result (sysfs_exists p) s \<longleftrightarrow> opened s p O_RDONLY \<noteq> None"
proof -
  have "same_but_errno s (exec (sysfs_exists p) s)
      \<and> (result (sysfs_exists p) s \<longleftrightarrow> opened s p O_RDONLY \<noteq> None)"
  proof (cases "opened s p O_RDONLY")
    case None
    then show ?thesis using assms by (auto simp: sysfs_exists_def same_but_errno_def)
  next
    case (Some fd)
    then show ?thesis
      using opened_Some [OF Some] by (auto simp: sysfs_exists_def fun_upd_idem)
  qed
  then show "same_but_errno s (exec (sysfs_exists p) s)"
    and "result (sysfs_exists p) s \<longleftrightarrow> opened s p O_RDONLY \<noteq> None" by simp_all
qed

lemma sysfs_write_int_text: "int32 v \<Longrightarrow> sysfs_write_int p v = sysfs_write p (show_int v)"
  using length_show_int [of v] by (simp add: sysfs_write_int_def PROPERTY_VALUE_MAX_def)

lemma get_property_bool_pure [simp]: "exec (get_property_bool k d) s = s"
  by (simp add: get_property_bool_def property_get_def)

lemma set_property_int_effect:
  "int32 v \<Longrightarrow> exec (set_property_int key v) s =
     (if prop_status s key (show_int v) = 0 then s\<lparr>props := (props s)(key \<mapsto> show_int v)\<rparr> else s)"
  using length_show_int [of v]
  by (simp add: set_property_int_def property_set_def PROPERTY_VALUE_MAX_def)

section \<open>Properties of the utilities\<close>

lemma show_int_inj: "show_int i = show_int j \<Longrightarrow> i = j"
  using atoi_show_int by metis

lemma show_int_not_word: "\<not> strcasecmp_eq (show_int v) ''on''" "\<not> strcasecmp_eq (show_int v) ''true''"
  "\<not> strcasecmp_eq (show_int v) ''off''" "\<not> strcasecmp_eq (show_int v) ''false''"
proof -
  have "is_digit c \<or> c = CHR ''-''" if "c \<in> set (show_int v)" for c
    using that show_nat_digits by (auto simp: show_int_def split: if_splits)
  then have "to_lower c = c" if "c \<in> set (show_int v)" for c
    using that by (fastforce simp: to_lower_def is_digit_def char_code_def)
  then have m: "map to_lower (show_int v) = show_int v" by (simp add: map_idI)
  have w: "show_int v \<noteq> w" if "\<exists>c \<in> set w. \<not> is_digit c \<and> c \<noteq> CHR ''-''" for w
    using that show_nat_digits by (auto simp: show_int_def split: if_splits)
  show "\<not> strcasecmp_eq (show_int v) ''on''" "\<not> strcasecmp_eq (show_int v) ''true''"
    "\<not> strcasecmp_eq (show_int v) ''off''" "\<not> strcasecmp_eq (show_int v) ''false''"
    by (simp_all add: strcasecmp_eq_def m to_lower_def char_code_def)
      (intro w; simp add: is_digit_def char_code_def)+
qed

text \<open>
  A number written to a property reads back as a truth value: 1 is true, 0 is false, and any other
  number is no truth value, so that the default is returned; a property the service refuses to set
  keeps its old reading.
\<close>

theorem property_int_roundtrip:
  assumes "int32 v"
  shows "result (get_property_bool key d) (exec (set_property_int key v) s) =
    (if prop_status s key (show_int v) = 0 then (if v = 1 then True else if v = 0 then False else d)
     else result (get_property_bool key d) s)"
proof -
  have 1: "show_int 1 = ''1''" "show_int 0 = ''0''" by (simp_all add: show_int_def show_nat.simps)
  have "show_int v = ''1'' \<longleftrightarrow> v = 1" "show_int v = ''0'' \<longleftrightarrow> v = 0"
    using show_int_inj [of v 1] show_int_inj [of v 0] 1 by auto
  moreover have "show_int v \<noteq> []" by (simp add: show_int_def)
  ultimately show ?thesis
    using show_int_not_word [of v]
    by (simp add: set_property_int_effect [OF assms] get_property_bool_def property_get_def)
qed

theorem property_int_roundtrip_witness:
  "result (get_property_bool ''k'' False) (exec (set_property_int ''k'' 1) (plain_kernel [])) = True"
  using property_int_roundtrip [of 1 "''k''" False "plain_kernel []"] by (simp add: int32_def plain_kernel_def)

text \<open>
  Reading a node into a buffer: the bytes of the node replace the start of the buffer, as many as
  fit; when the node cannot be opened or read the buffer holds the text of the error instead, which
  the caller cannot tell from data; a node with more than fits leaves a buffer with no end of
  string.  No descriptor stays open and nothing is written.
\<close>

theorem sysfs_read_correct:
  "(case node_text s p n of
      None \<Rightarrow> \<exists>e. result (sysfs_read p buf n) s = store (take (n - 1) (strerr s e) @ [NUL]) buf
    | Some d \<Rightarrow> result (sysfs_read p buf n) s = store d buf
        \<and> (length buf = n \<and> length d = n \<and> NUL \<notin> set d \<longrightarrow> c_string (result (sysfs_read p buf n) s) = None))
   \<and> same_but_errno s (exec (sysfs_read p buf n) s)"
proof (cases "node_text s p n")
  case None
  then show ?thesis using sysfs_read_failed sysfs_read_effect by auto
next
  case (Some d)
  have "c_string (store d buf) = None" if "length buf = n" "length d = n" "NUL \<notin> set d"
    using that c_string_full_buffer by (simp add: store_def)
  then show ?thesis using Some sysfs_read_result [OF Some] sysfs_read_effect by auto
qed

theorem sysfs_read_correct_witness:
  "c_string (result (sysfs_read ''/n'' (zeros 2) 2) (plain_kernel [(''/n'', plain_node ''42'')])) = None"
proof -
  let ?s = "plain_kernel [(''/n'', plain_node ''42'')]"
  have z: "length (zeros 2) = 2" "length ''42'' = 2" "NUL \<notin> set ''42''" by (simp_all add: zeros_def)
  have t: "node_text ?s ''/n'' 2 = Some ''42''"
    by (simp add: node_text_def opened_def open_error_def plain_node_def)
  show ?thesis
    using sysfs_read_correct [where s = ?s and p = "''/n''" and n = 2 and buf = "zeros 2"] z
    unfolding t option.case by blast
qed

end
