(* ===== verification/Timeout_Poker.thy ===== *)
theory Timeout_Poker
  imports Posix
begin

text \<open>
  \<open>power/timeoutpoker.h\<close> and \<open>power/timeoutpoker.cpp\<close>: the data and the routines of
  the timeout poker.  A client asks for a PM QoS request that lasts a given time
  (\<open>requestPmQosTimed\<close>) or until the client closes a handle (\<open>createPmQosHandle\<close>).  The
  request is an event in a table, under a fresh key, and a message with that key is posted to the
  looper thread, which opens the PM QoS device node when the message arrives; the kernel keeps
  the request for as long as the descriptor is open.  A timed request then queues a second event
  that closes the descriptor.

  The class \<open>Looper\<close> of Android is not in the repository.  Its mailbox is the list of posted
  messages with their due times, nothing is assumed about the order in which it delivers them;
  whether it accepts a descriptor to watch (\<open>addFd\<close>) is a field of the state that no routine
  changes.
\<close>

section \<open>Data\<close>

datatype node_type = NODE_TYPE_DEFAULT | NODE_TYPE_PRIORITY

text \<open>
  The event classes, with their members in the order of the header.  \<open>outFd\<close> and
  \<open>done\<close> point to variables of the waiting caller; here they are the number of that call.
\<close>

datatype queued_event =
    PmQosOpenTimedEvent string int int int int node_type int
  | PmQosOpenHandleEvent string int int int int node_type nat nat
  | TimeoutEvent int

definition timed_event :: "string \<Rightarrow> int \<Rightarrow> int \<Rightarrow> queued_event" where
  "timed_event node val timeout =
     PmQosOpenTimedEvent node val (- 1) (- 1) (- 1) NODE_TYPE_DEFAULT timeout"

definition timed_event_priority :: "string \<Rightarrow> int \<Rightarrow> int \<Rightarrow> int \<Rightarrow> int \<Rightarrow> queued_event" where
  "timed_event_priority node priority mx mn timeout =
     PmQosOpenTimedEvent node 0 priority mx mn NODE_TYPE_PRIORITY timeout"

definition handle_event :: "string \<Rightarrow> int \<Rightarrow> nat \<Rightarrow> nat \<Rightarrow> queued_event" where
  "handle_event node val outFd done_b =
     PmQosOpenHandleEvent node val (- 1) (- 1) (- 1) NODE_TYPE_DEFAULT outFd done_b"

definition handle_event_priority :: "string \<Rightarrow> int \<Rightarrow> int \<Rightarrow> int \<Rightarrow> nat \<Rightarrow> nat \<Rightarrow> queued_event" where
  "handle_event_priority node priority mx mn outFd done_b =
     PmQosOpenHandleEvent node 0 priority mx mn NODE_TYPE_PRIORITY outFd done_b"

record poker =
  mKey :: u32
  mQueuedEvents :: "u32 \<Rightarrow> queued_event option"
  mailbox :: "(int \<times> u32) list"
  watched :: "(int \<times> int) list"

definition new_poker :: poker where
  "new_poker = \<lparr>mKey = 0, mQueuedEvents = Map.empty, mailbox = [], watched = []\<rparr>"

text \<open>
  The process around one poker: the kernel, the poker, and the results and barriers of the calls
  of \<open>createPmQosHandle\<close> that wait for the looper thread.
\<close>

record psys = kernel +
  pk :: poker
  outFds :: "nat \<Rightarrow> int option"
  dones :: "nat \<Rightarrow> bool"
  addFd_ok :: "int \<Rightarrow> bool"

section \<open>The event table\<close>

definition generateNewKey :: "poker \<Rightarrow> u32 \<times> poker" where
  "generateNewKey p = (mKey p, p\<lparr>mKey := mKey p + 1\<rparr>)"

text \<open>\<open>t\<close> is the time of the call; the looper is to deliver at \<open>t + delay\<close>.\<close>

definition sendEventDelayed :: "int \<Rightarrow> int \<Rightarrow> queued_event \<Rightarrow> poker \<Rightarrow> poker" where
  "sendEventDelayed t delay ev p =
     (let (key, p) = generateNewKey p
      in p\<lparr>mQueuedEvents := (mQueuedEvents p)(key \<mapsto> ev), mailbox := mailbox p @ [(t + delay, key)]\<rparr>)"

definition removeEventByKey :: "u32 \<Rightarrow> poker \<Rightarrow> queued_event option \<times> poker" where
  "removeEventByKey what p = (mQueuedEvents p what, p\<lparr>mQueuedEvents := (mQueuedEvents p)(what := None)\<rparr>)"

definition pushEvent :: "int \<Rightarrow> queued_event \<Rightarrow> poker \<Rightarrow> poker" where
  "pushEvent t ev p = sendEventDelayed t 0 ev p"

section \<open>Opening a PM QoS node\<close>

definition COMMAND_SIZE :: nat where "COMMAND_SIZE = 20"

definition createConstraintCommand :: "nat \<Rightarrow> int \<Rightarrow> int \<Rightarrow> int \<Rightarrow> string" where
  "createConstraintCommand sz priority mx mn =
     snprintf sz (show_int mx @ '' '' @ show_int mn @ '' '' @ show_int priority @ '' 0'')"

definition openPmQosNode :: "string \<Rightarrow> int \<Rightarrow> ('z kernel_scheme, int) state" where
  "openPmQosNode filename val = do {
     fd \<leftarrow> k_open filename O_RDWR;
     if fd < 0 then ret (- 1)
     else do {
       _ \<leftarrow> k_write fd (le_bytes (word_of_int val));
       ret fd }
   }"

definition openPmQosNode_priority :: "string \<Rightarrow> int \<Rightarrow> int \<Rightarrow> int \<Rightarrow> ('z kernel_scheme, int) state" where
  "openPmQosNode_priority filename priority mx mn = do {
     fd \<leftarrow> k_open filename O_RDWR;
     if fd < 0 then ret (- 1)
     else do {
       _ \<leftarrow> k_write fd (createConstraintCommand COMMAND_SIZE priority mx mn);
       ret fd }
   }"

text \<open>The calls by which a client opens the node itself and keeps the descriptor.\<close>

definition requestPmQos :: "string \<Rightarrow> int \<Rightarrow> ('z kernel_scheme, int) state" where
  "requestPmQos filename val = do {
     fd \<leftarrow> k_open filename O_RDWR;
     if fd < 0 then ret (- 1)
     else do {
       _ \<leftarrow> k_write fd (le_bytes (word_of_int val));
       ret fd }
   }"

definition requestPmQos_priority :: "string \<Rightarrow> int \<Rightarrow> int \<Rightarrow> int \<Rightarrow> ('z kernel_scheme, int) state" where
  "requestPmQos_priority filename priority mx mn = do {
     fd \<leftarrow> k_open filename O_RDWR;
     if fd < 0 then ret (- 1)
     else do {
       _ \<leftarrow> k_write fd (createConstraintCommand COMMAND_SIZE priority mx mn);
       ret fd }
   }"

section \<open>Timed requests\<close>

definition requestPmQosTimed :: "string \<Rightarrow> int \<Rightarrow> int \<Rightarrow> int \<Rightarrow> poker \<Rightarrow> poker" where
  "requestPmQosTimed filename val timeout t p = pushEvent t (timed_event filename val timeout) p"

definition requestPmQosTimed_priority ::
    "string \<Rightarrow> int \<Rightarrow> int \<Rightarrow> int \<Rightarrow> int \<Rightarrow> int \<Rightarrow> poker \<Rightarrow> poker" where
  "requestPmQosTimed_priority filename priority mx mn timeout t p =
     pushEvent t (timed_event_priority filename priority mx mn timeout) p"

text \<open>Arming the timer that ends a request.\<close>

definition armTimeout :: "int \<Rightarrow> int \<Rightarrow> ('z psys_scheme, unit) state" where
  "armTimeout timeout fd = modify (\<lambda>s. s\<lparr>pk := sendEventDelayed (now s) timeout (TimeoutEvent fd) (pk s)\<rparr>)"

definition openPmQosTimed :: "string \<Rightarrow> int \<Rightarrow> int \<Rightarrow> ('z psys_scheme, unit) state" where
  "openPmQosTimed filename val timeout = do {
     fd \<leftarrow> openPmQosNode filename val;
     if fd < 0 then ret () else armTimeout timeout fd
   }"

definition openPmQosTimed_priority :: "string \<Rightarrow> int \<Rightarrow> int \<Rightarrow> int \<Rightarrow> int \<Rightarrow> ('z psys_scheme, unit) state" where
  "openPmQosTimed_priority filename priority mx mn timeout = do {
     fd \<leftarrow> openPmQosNode_priority filename priority mx mn;
     if fd < 0 then ret () else armTimeout timeout fd
   }"

definition timeoutRequest :: "int \<Rightarrow> ('z psys_scheme, unit) state" where
  "timeoutRequest fd = do { _ \<leftarrow> k_close fd; ret () }"

section \<open>Requests that last until a handle is closed\<close>

text \<open>\<open>Looper::addFd\<close> returns 1 or -1; the source returns its logical negation.\<close>

definition c_not :: "int \<Rightarrow> int" where
  "c_not x = (if x = 0 then 1 else 0)"

definition looper_addFd :: "int \<Rightarrow> int \<Rightarrow> ('z psys_scheme, int) state" where
  "looper_addFd handle fd = do {
     ok \<leftarrow> gets addFd_ok;
     if ok handle
     then do { modify (\<lambda>s. s\<lparr>pk := (pk s)\<lparr>watched := watched (pk s) @ [(handle, fd)]\<rparr>\<rparr>); ret 1 }
     else ret (- 1)
   }"

definition listenForHandleToCloseFd :: "int \<Rightarrow> int \<Rightarrow> ('z psys_scheme, int) state" where
  "listenForHandleToCloseFd handle fd = do {
     r \<leftarrow> looper_addFd handle fd;
     ret (c_not r)
   }"

text \<open>
  The client gets the read end of the pipe, \<open>pipefd[CLIENT_FD]\<close>; the looper watches the write
  end.  The second test of \<open>res\<close> is the source's: the variable still holds what \<open>pipe\<close>
  returned, since the result of \<open>listenForHandleToCloseFd\<close> is dropped.
\<close>

definition createHandleForFd :: "int \<Rightarrow> ('z psys_scheme, int) state" where
  "createHandleForFd fd = do {
     pipefd \<leftarrow> k_pipe;
     case pipefd of
       None \<Rightarrow> do { _ \<leftarrow> k_close fd; ret (- 1) }
     | Some (client, server) \<Rightarrow> do {
         let res = (0 :: int);
         _ \<leftarrow> listenForHandleToCloseFd server fd;
         if res \<noteq> 0 then do {
           _ \<leftarrow> k_close fd;
           _ \<leftarrow> k_close server;
           _ \<leftarrow> k_close client;
           ret (- 1) }
         else ret client }
   }"

definition createHandleForPmQosRequest :: "string \<Rightarrow> int \<Rightarrow> ('z psys_scheme, int) state" where
  "createHandleForPmQosRequest filename val = do {
     fd \<leftarrow> openPmQosNode filename val;
     if fd < 0 then ret (- 1) else createHandleForFd fd
   }"

definition createHandleForPmQosRequest_priority ::
    "string \<Rightarrow> int \<Rightarrow> int \<Rightarrow> int \<Rightarrow> ('z psys_scheme, int) state" where
  "createHandleForPmQosRequest_priority filename priority mx mn = do {
     fd \<leftarrow> openPmQosNode_priority filename priority mx mn;
     if fd < 0 then ret (- 1) else createHandleForFd fd
   }"

text \<open>
  \<open>createPmQosHandle\<close> up to its wait; the call then returns \<open>outFds call\<close> once
  \<open>dones call\<close>.  \<open>call\<close> numbers the activation whose locals the event points to.
\<close>

definition createPmQosHandle :: "string \<Rightarrow> int \<Rightarrow> nat \<Rightarrow> ('z psys_scheme, unit) state" where
  "createPmQosHandle filename val call = modify (\<lambda>s.
     s\<lparr>outFds := (outFds s)(call := None), dones := (dones s)(call := False),
       pk := pushEvent (now s) (handle_event filename val call call) (pk s)\<rparr>)"

definition createPmQosHandle_priority :: "string \<Rightarrow> int \<Rightarrow> int \<Rightarrow> int \<Rightarrow> nat \<Rightarrow> ('z psys_scheme, unit) state" where
  "createPmQosHandle_priority filename priority mx mn call = modify (\<lambda>s.
     s\<lparr>outFds := (outFds s)(call := None), dones := (dones s)(call := False),
       pk := pushEvent (now s) (handle_event_priority filename priority mx mn call call) (pk s)\<rparr>)"

definition pipeCloseCb :: "int \<Rightarrow> bool \<Rightarrow> int \<Rightarrow> ('z psys_scheme, int) state" where
  "pipeCloseCb handle hangup ctx_fd =
     (if hangup then do {
        modify (\<lambda>s. s\<lparr>pk := (pk s)\<lparr>watched := filter (\<lambda>(h, _). h \<noteq> handle) (watched (pk s))\<rparr>\<rparr>);
        _ \<leftarrow> k_close handle;
        _ \<leftarrow> k_close ctx_fd;
        ret 0 }
      else ret 1)"

section \<open>Running events\<close>

text \<open>The method \<open>run\<close> of the three event classes.\<close>

fun run_event :: "queued_event \<Rightarrow> ('z psys_scheme, unit) state" where
  "run_event (PmQosOpenTimedEvent node val priority mx mn type timeout) =
     (if type = NODE_TYPE_PRIORITY then openPmQosTimed_priority node priority mx mn timeout
      else openPmQosTimed node val timeout)"
| "run_event (PmQosOpenHandleEvent node val priority mx mn type outFd done_b) = do {
     fd \<leftarrow> (if type = NODE_TYPE_PRIORITY
            then createHandleForPmQosRequest_priority node priority mx mn
            else createHandleForPmQosRequest node val);
     modify (\<lambda>s. s\<lparr>outFds := (outFds s)(outFd \<mapsto> fd)\<rparr>);
     modify (\<lambda>s. s\<lparr>dones := (dones s)(done_b := True)\<rparr>)
   }"
| "run_event (TimeoutEvent fd) = timeoutRequest fd"

text \<open>
  \<open>handleMessage\<close>.  The result says whether the key was in the table: \<open>KeyedVector\<close> has no
  value to give for a missing one.
\<close>

definition handleMessage :: "u32 \<Rightarrow> ('z psys_scheme, bool) state" where
  "handleMessage what = do {
     (e, p) \<leftarrow> gets (\<lambda>s. removeEventByKey what (pk s));
     case e of
       None \<Rightarrow> ret False
     | Some ev \<Rightarrow> do {
         modify (\<lambda>s. s\<lparr>pk := p\<rparr>);
         run_event ev;
         ret True }
   }"

section \<open>Effects\<close>

text \<open>
  Opening a PM QoS node, by either command format and by either thread, differs only in the bytes
  written.
\<close>

definition opened_fds :: "'z kernel_scheme \<Rightarrow> string \<Rightarrow> int \<Rightarrow> ofile option" where
  "opened_fds s f = (case opened s f O_RDWR of
       None \<Rightarrow> fds s | Some fd \<Rightarrow> (fds s)(fd \<mapsto> Node f O_RDWR))"

lemma open_and_write_effect:
  assumes "m = do {
     fd \<leftarrow> k_open f O_RDWR;
     if fd < 0 then ret (- 1)
     else do { _ \<leftarrow> k_write fd d; ret fd } }"
  shows "\<exists>e l. exec m s = s\<lparr>fds := opened_fds s f, errno := e, wlog := l\<rparr>"
    and "result m s = (case opened s f O_RDWR of None \<Rightarrow> - 1 | Some fd \<Rightarrow> fd)"
proof -
  have "(\<exists>e l. exec m s = s\<lparr>fds := opened_fds s f, errno := e, wlog := l\<rparr>)
    \<and> result m s = (case opened s f O_RDWR of None \<Rightarrow> - 1 | Some fd \<Rightarrow> fd)"
  proof (cases "opened s f O_RDWR")
    case None
    have "s = s\<lparr>wlog := wlog s\<rparr>" by simp
    with None show ?thesis
      by (auto simp: assms opened_fds_def intro!: exI [of _ "the (open_error s f O_RDWR)"] exI [of _ "wlog s"])
  next
    case (Some fd)
    let ?s = "s\<lparr>fds := (fds s)(fd \<mapsto> Node f O_RDWR)\<rparr>"
    have "\<exists>e l. exec (k_write fd d) ?s = ?s\<lparr>errno := e, wlog := l\<rparr>"
    proof (cases "driver_write ?s f d")
      case (Inl e)
      then show ?thesis by (auto simp: exec_k_write intro!: exI [of _ e] exI [of _ "wlog s"])
    next
      case (Inr c)
      then show ?thesis by (auto simp: exec_k_write intro!: exI [of _ "errno s"])
    qed
    then show ?thesis
      using Some opened_Some [OF Some] by (auto simp: assms opened_fds_def)
  qed
  then show "\<exists>e l. exec m s = s\<lparr>fds := opened_fds s f, errno := e, wlog := l\<rparr>"
    and "result m s = (case opened s f O_RDWR of None \<Rightarrow> - 1 | Some fd \<Rightarrow> fd)" by simp_all
qed

lemmas openPmQosNode_effect = open_and_write_effect [OF openPmQosNode_def]
lemmas openPmQosNode_priority_effect = open_and_write_effect [OF openPmQosNode_priority_def]
lemmas requestPmQos_effect = open_and_write_effect [OF requestPmQos_def]
lemmas requestPmQos_priority_effect = open_and_write_effect [OF requestPmQos_priority_def]

text \<open>
  Making a handle: either no pipe is to be had, then the node is closed again, or two fresh
  descriptors are the ends of a new pipe.
\<close>

lemma k_pipe_cases:
  obtains e where "result k_pipe s = None" "exec k_pipe s = s\<lparr>errno := e\<rparr>"
  | r w where "result k_pipe s = Some (r, w)" "fds s r = None" "fds s w = None" "r \<noteq> w" "0 \<le> r"
      "exec k_pipe s = s\<lparr>fds := (fds s)(r \<mapsto> PipeR (next_pipe s), w \<mapsto> PipeW (next_pipe s)),
         next_pipe := Suc (next_pipe s)\<rparr>" "r \<in> set (fd_slots s)"
proof (cases "free_fd s")
  case None
  then show ?thesis using that(1) by (simp add: k_pipe_def)
next
  case (Some r)
  note fr = free_fd_Some [OF Some]
  let ?t = "s\<lparr>fds := (fds s)(r \<mapsto> PipeR (next_pipe s))\<rparr>"
  show ?thesis
  proof (cases "free_fd ?t")
    case None
    then show ?thesis using that(1) Some by (simp add: k_pipe_def)
  next
    case (Some w)
    then have "w \<noteq> r" and "fds s w = None" using free_fd_Some(1) [OF Some] by (auto split: if_splits)
    moreover have "r \<in> set (fd_slots s)" using fr(2,3) by (auto simp: fd_slots_def image_iff intro!: bexI [of _ "nat r"])
    ultimately show ?thesis using that(2) [of r w] \<open>free_fd s = Some r\<close> Some fr by (simp add: k_pipe_def)
  qed
qed

lemma createHandleForFd_cases:
  assumes "fds s fd \<noteq> None"
  obtains e where "result (createHandleForFd fd) s = - 1"
      "exec (createHandleForFd fd) s = s\<lparr>errno := e, fds := (fds s)(fd := None)\<rparr>"
  | r w where "result (createHandleForFd fd) s = r" "fds s r = None" "fds s w = None" "r \<noteq> w" "0 \<le> r"
      "exec (createHandleForFd fd) s = s\<lparr>
         fds := (fds s)(r \<mapsto> PipeR (next_pipe s), w \<mapsto> PipeW (next_pipe s)),
         next_pipe := Suc (next_pipe s),
         pk := (if addFd_ok s w then (pk s)\<lparr>watched := watched (pk s) @ [(w, fd)]\<rparr> else pk s)\<rparr>"
      "r \<in> set (fd_slots s)"
proof (cases rule: k_pipe_cases [of s])
  case (1 e)
  then show ?thesis using that(1) assms by (simp add: createHandleForFd_def)
next
  case (2 r w)
  then show ?thesis
    using that(2) [of r w]
    by (simp add: createHandleForFd_def listenForHandleToCloseFd_def looper_addFd_def)
qed

end
