(* ===== verification/Event_Queue.thy ===== *)
theory Event_Queue
  imports Timeout_Poker "HOL-Library.Multiset"
begin

text \<open>
  The interface between the poker's event handlers and its event table.  The table stores events
  under machine-word keys and the looper delivers bare keys; what the handlers rely on is that
  together they form a bag of events with due times: sending adds one element, delivering removes
  exactly the element that was sent, and delivering never misses.  This holds as long as fewer
  than \<open>2 ^ 31 - 1\<close> keys have been generated; \<open>mKey\<close> is an \<open>int\<close>, so one more increment is
  undefined, and where it wraps an old event may be overwritten.
\<close>

section \<open>The interface\<close>

locale event_queue =
  fixes empty :: 'q
    and send :: "int \<Rightarrow> int \<Rightarrow> 'e \<Rightarrow> 'q \<Rightarrow> 'q"
    and take_event :: "int \<Rightarrow> 'k \<Rightarrow> 'q \<Rightarrow> 'e option \<times> 'q"
    and messages :: "'q \<Rightarrow> (int \<times> 'k) set"
    and contents :: "'q \<Rightarrow> (int \<times> 'e) multiset"
    and invar :: "nat \<Rightarrow> 'q \<Rightarrow> bool"
    and cap :: nat
  assumes empty: "invar 0 empty" "contents empty = {#}"
    and send: "invar n q \<Longrightarrow> n < cap \<Longrightarrow> invar (Suc n) (send t d e q)"
      "invar n q \<Longrightarrow> n < cap \<Longrightarrow> contents (send t d e q) = add_mset (t + d, e) (contents q)"
    and take: "invar n q \<Longrightarrow> (d, k) \<in> messages q \<Longrightarrow>
      \<exists>e q'. take_event d k q = (Some e, q') \<and> invar n q' \<and> contents q = add_mset (d, e) (contents q')"
    and pending: "invar n q \<Longrightarrow> (d, e) \<in># contents q \<Longrightarrow> \<exists>k. (d, k) \<in> messages q"
    and weaken: "invar n q \<Longrightarrow> n \<le> m \<Longrightarrow> invar m q"
begin

lemma take_someE:
  assumes "invar n q" and "(d, k) \<in> messages q"
  obtains e q' where "take_event d k q = (Some e, q')" "invar n q'"
    "contents q = add_mset (d, e) (contents q')"
  using take [OF assms] by blast

text \<open>Sends one after another: nothing is lost and nothing is reordered out of the bag.\<close>

lemma send_all:
  "invar n q \<Longrightarrow> n + length es \<le> cap \<Longrightarrow>
   invar (n + length es) (fold (\<lambda>(d, e). send t d e) es q)
   \<and> contents (fold (\<lambda>(d, e). send t d e) es q)
     = contents q + mset (map (\<lambda>(d, e). (t + d, e)) es)"
proof (induction es arbitrary: n q)
  case (Cons x es)
  obtain d e where x: "x = (d, e)" by (cases x)
  have "invar (Suc n) (send t d e q)" and "Suc n + length es \<le> cap"
    and "contents (send t d e q) = add_mset (t + d, e) (contents q)"
    using Cons.prems send by simp_all
  then show ?case using Cons.IH [of "Suc n" "send t d e q"] by (simp add: x)
qed simp

end

section \<open>The poker's table and mailbox\<close>

definition key_limit :: nat where "key_limit = 2 ^ 31 - 1"

text \<open>Delivery: the looper drops the message, the handler removes the event.\<close>

definition take_message :: "int \<Rightarrow> u32 \<Rightarrow> poker \<Rightarrow> queued_event option \<times> poker" where
  "take_message d k p = removeEventByKey k (p\<lparr>mailbox := remove1 (d, k) (mailbox p)\<rparr>)"

definition event_of :: "(u32 \<Rightarrow> queued_event option) \<Rightarrow> int \<times> u32 \<Rightarrow> (int \<times> queued_event) multiset" where
  "event_of tab m = (case tab (snd m) of None \<Rightarrow> {#} | Some e \<Rightarrow> {#(fst m, e)#})"

definition queued :: "poker \<Rightarrow> (int \<times> queued_event) multiset" where
  "queued p = (\<Sum>m \<in># mset (mailbox p). event_of (mQueuedEvents p) m)"

definition table_ok :: "nat \<Rightarrow> poker \<Rightarrow> bool" where
  "table_ok n p \<longleftrightarrow> unat (mKey p) \<le> n \<and> distinct (map snd (mailbox p))
     \<and> set (map snd (mailbox p)) = dom (mQueuedEvents p)
     \<and> (\<forall>k \<in> dom (mQueuedEvents p). k < mKey p)"

lemma event_of_other:
  "k \<notin> snd ` set ms \<Longrightarrow>
   (\<Sum>m \<in># mset ms. event_of (tab(k := x)) m) = (\<Sum>m \<in># mset ms. event_of tab m)"
  by (intro arg_cong [where f = sum_mset] image_mset_cong) (auto simp: event_of_def)

lemma mKey_step: "unat (k :: u32) \<le> n \<Longrightarrow> n < key_limit \<Longrightarrow> unat (k + 1) = Suc (unat k) \<and> k < k + 1"
proof -
  assume "unat k \<le> n" "n < key_limit"
  then have "unat k + 1 < 2 ^ 32" by (simp add: key_limit_def)
  then have "unat (k + 1) = Suc (unat k)" by (simp add: unat_word_ariths)
  then show ?thesis by (simp add: word_less_nat_alt)
qed

lemma table_ok_send:
  assumes ok: "table_ok n p" and n: "n < key_limit"
  shows "table_ok (Suc n) (sendEventDelayed t d e p)"
    and "queued (sendEventDelayed t d e p) = add_mset (t + d, e) (queued p)"
proof -
  have k: "unat (mKey p + 1) = Suc (unat (mKey p))" "mKey p < mKey p + 1"
    using mKey_step [of "mKey p" n] ok n by (simp_all add: table_ok_def)
  have fresh: "mKey p \<notin> dom (mQueuedEvents p)" using ok by (auto simp: table_ok_def)
  then have fresh': "mKey p \<notin> snd ` set (mailbox p)" using ok by (auto simp: table_ok_def)
  show "table_ok (Suc n) (sendEventDelayed t d e p)"
    using ok k fresh'
    by (auto simp: table_ok_def sendEventDelayed_def generateNewKey_def intro: less_trans)
  show "queued (sendEventDelayed t d e p) = add_mset (t + d, e) (queued p)"
    using event_of_other [OF fresh', of "mQueuedEvents p" "Some e"]
    by (simp add: queued_def sendEventDelayed_def generateNewKey_def event_of_def)
qed

lemma table_ok_take:
  assumes ok: "table_ok n p" and m: "(d, k) \<in> set (mailbox p)"
  obtains e p' where "take_message d k p = (Some e, p')" "table_ok n p'"
    "queued p = add_mset (d, e) (queued p')"
proof -
  have "k \<in> dom (mQueuedEvents p)" using ok m by (force simp: table_ok_def)
  then obtain e where e: "mQueuedEvents p k = Some e" by auto
  obtain xs ys where xy: "mailbox p = xs @ (d, k) # ys" and nin: "(d, k) \<notin> set xs"
    using split_list_first [OF m] by blast
  have dist: "k \<notin> snd ` set xs" "k \<notin> snd ` set ys" "distinct (map snd (xs @ ys))"
    using ok xy by (auto simp: table_ok_def)
  define p' where "p' = p\<lparr>mailbox := xs @ ys, mQueuedEvents := (mQueuedEvents p)(k := None)\<rparr>"
  have t: "take_message d k p = (Some e, p')"
    using e nin by (simp add: take_message_def removeEventByKey_def p'_def xy remove1_append)
  have "set (map snd (xs @ ys)) = dom (mQueuedEvents p) - {k}"
    using ok dist xy by (auto simp: table_ok_def)
  then have "table_ok n p'"
    using ok dist(3) by (simp add: table_ok_def p'_def)
  moreover have "queued p = add_mset (d, e) (queued p')"
    using event_of_other [OF dist(1), of "mQueuedEvents p" None]
      event_of_other [OF dist(2), of "mQueuedEvents p" None] e
    by (simp add: queued_def p'_def xy) (simp add: event_of_def)
  ultimately show ?thesis using t that by blast
qed

lemma table_ok_mono: "table_ok n p \<Longrightarrow> n \<le> m \<Longrightarrow> table_ok m p"
  by (auto simp: table_ok_def)

lemma table_ok_pending:
  assumes "(d, e) \<in># queued p"
  shows "\<exists>k. (d, k) \<in> set (mailbox p)"
  using assms by (auto simp: queued_def event_of_def split: option.splits)

interpretation eq: event_queue new_poker sendEventDelayed take_message "\<lambda>p. set (mailbox p)" queued
  table_ok key_limit
proof unfold_locales
  show "table_ok 0 new_poker" "queued new_poker = {#}"
    by (simp_all add: table_ok_def new_poker_def queued_def)
qed (auto simp: table_ok_send table_ok_pending intro: table_ok_mono elim: table_ok_take)

end
