(* ===== verification/Poker_Steps.thy ===== *)
theory Poker_Steps
  imports Event_Queue
begin

text \<open>
  The timeout poker as a concurrent machine.  Client threads push events and open and close
  descriptors of their own at any time; the looper thread takes one due message at a time and
  runs its event, releasing \<open>mEvLock\<close> between removing the event, opening the node and
  queueing the event that closes it, so that clients may run in between.  The environment may
  change every device node and let time pass.

  \<open>clients\<close> is a ghost field: the descriptors that belong to the rest of the process.  The
  accounting invariant says that every open descriptor has exactly one owner, either the rest
  of the process or one place of the poker that will close it.  From it follow that no request
  is leaked, closed twice, or closed early.
\<close>

section \<open>States and steps\<close>

datatype looper_pc = Polling | Running queued_event | Arming int int | Crashed

record pproc = psys +
  pc :: looper_pc
  clients :: "int set"

definition claim :: "int \<Rightarrow> pproc \<Rightarrow> pproc" where
  "claim fd s = (if fd < 0 then s else s\<lparr>clients := insert fd (clients s)\<rparr>)"

definition claim_handle :: "nat \<Rightarrow> pproc \<Rightarrow> pproc" where
  "claim_handle call s = (case outFds s call of None \<Rightarrow> s | Some fd \<Rightarrow> claim fd s)"

text \<open>The node a timed event opens: the first half of \<open>openPmQosTimed\<close>.\<close>

definition open_for :: "string \<Rightarrow> int \<Rightarrow> int \<Rightarrow> int \<Rightarrow> int \<Rightarrow> node_type \<Rightarrow> (pproc, int) state" where
  "open_for node val priority mx mn type =
     (if type = NODE_TYPE_PRIORITY then openPmQosNode_priority node priority mx mn
      else openPmQosNode node val)"

definition after_open :: "int \<Rightarrow> int \<Rightarrow> looper_pc" where
  "after_open timeout fd = (if fd < 0 then Polling else Arming fd timeout)"

definition deliver :: "int \<Rightarrow> u32 \<Rightarrow> pproc \<Rightarrow> pproc" where
  "deliver d k s = (case take_message d k (pk s) of
       (None, p) \<Rightarrow> s\<lparr>pk := p, pc := Crashed\<rparr>
     | (Some e, p) \<Rightarrow> s\<lparr>pk := p, pc := Running e\<rparr>)"

inductive pstep :: "pproc \<Rightarrow> pproc \<Rightarrow> bool" where
  p_timed: "pstep s (s\<lparr>pk := requestPmQosTimed f v timeout (now s) (pk s)\<rparr>)"
| p_timed_priority:
    "pstep s (s\<lparr>pk := requestPmQosTimed_priority f pr mx mn timeout (now s) (pk s)\<rparr>)"
| p_handle: "pstep s (exec (createPmQosHandle f v call) s)"
| p_handle_priority: "pstep s (exec (createPmQosHandle_priority f pr mx mn call) s)"
| p_client_open: "pstep s (claim (result (requestPmQos f v) s) (exec (requestPmQos f v) s))"
| p_client_open_priority:
    "pstep s (claim (result (requestPmQos_priority f pr mx mn) s)
       (exec (requestPmQos_priority f pr mx mn) s))"
| p_client_close: "fd \<in> clients s \<Longrightarrow>
    pstep s ((exec (k_close fd) s)\<lparr>clients := clients s - {fd}\<rparr>)"
| p_environment: "now s \<le> t \<Longrightarrow> pstep s (s\<lparr>nodes := N, now := t\<rparr>)"
| p_deliver: "pc s = Polling \<Longrightarrow> (d, k) \<in> set (mailbox (pk s)) \<Longrightarrow> d \<le> now s \<Longrightarrow>
    pstep s (deliver d k s)"
| p_open: "pc s = Running (PmQosOpenTimedEvent f v pr mx mn type timeout) \<Longrightarrow>
    pstep s ((exec (open_for f v pr mx mn type) s)
      \<lparr>pc := after_open timeout (result (open_for f v pr mx mn type) s)\<rparr>)"
| p_arm: "pc s = Arming fd timeout \<Longrightarrow> pstep s ((exec (armTimeout timeout fd) s)\<lparr>pc := Polling\<rparr>)"
| p_close: "pc s = Running (TimeoutEvent fd) \<Longrightarrow>
    pstep s ((exec (timeoutRequest fd) s)\<lparr>pc := Polling\<rparr>)"
| p_run_handle: "pc s = Running (PmQosOpenHandleEvent f v pr mx mn type call b) \<Longrightarrow>
    pstep s (claim_handle call
      ((exec (run_event (PmQosOpenHandleEvent f v pr mx mn type call b)) s)\<lparr>pc := Polling\<rparr>))"
| p_hangup: "pc s = Polling \<Longrightarrow> (h, fd) \<in> set (watched (pk s)) \<Longrightarrow> hung_up s h \<Longrightarrow>
    pstep s (exec (pipeCloseCb h True fd) s)"

definition pinit :: "pproc \<Rightarrow> bool" where
  "pinit s \<longleftrightarrow> pk s = new_poker \<and> pc s = Polling \<and> (\<forall>h. addFd_ok s h)
     \<and> clients s = {fd. fds s fd \<noteq> None}"

section \<open>Ownership of descriptors\<close>

fun event_fds :: "queued_event \<Rightarrow> int multiset" where
  "event_fds (TimeoutEvent fd) = {#fd#}"
| "event_fds _ = {#}"

fun pc_fds :: "looper_pc \<Rightarrow> int multiset" where
  "pc_fds (Running e) = event_fds e"
| "pc_fds (Arming fd timeout) = {#fd#}"
| "pc_fds _ = {#}"

definition queue_fds :: "poker \<Rightarrow> int multiset" where
  "queue_fds p = (\<Sum>x \<in># queued p. event_fds (snd x))"

definition watch_fds :: "poker \<Rightarrow> int multiset" where
  "watch_fds p = (\<Sum>(h, fd) \<in># mset (watched p). {#h, fd#})"

definition owned :: "pproc \<Rightarrow> int multiset" where
  "owned s = queue_fds (pk s) + pc_fds (pc s) + watch_fds (pk s)"

definition accounted :: "pproc \<Rightarrow> bool" where
  "accounted s \<longleftrightarrow>
     (\<forall>fd. count (owned s) fd + of_bool (fd \<in> clients s) = (of_bool (fds s fd \<noteq> None) :: nat))"

definition pinv :: "nat \<Rightarrow> pproc \<Rightarrow> bool" where
  "pinv n s \<longleftrightarrow> table_ok n (pk s) \<and> accounted s \<and> (\<forall>h. addFd_ok s h) \<and> pc s \<noteq> Crashed"

lemma accountedD:
  assumes "accounted s"
  shows "fd \<in># owned s \<Longrightarrow> fds s fd \<noteq> None \<and> fd \<notin> clients s \<and> count (owned s) fd = 1"
    and "fd \<in> clients s \<Longrightarrow> fds s fd \<noteq> None \<and> fd \<notin># owned s"
    and "fds s fd = None \<Longrightarrow> fd \<notin># owned s \<and> fd \<notin> clients s"
  using assms [unfolded accounted_def, rule_format, of fd]
  by (auto simp: count_greater_zero_iff [symmetric] of_bool_def not_in_iff simp del: count_greater_zero_iff
      split: if_splits)

text \<open>How the three kinds of change of the descriptor table keep the accounts.\<close>

lemma accounted_same:
  "accounted s \<Longrightarrow> fds t = fds s \<Longrightarrow> owned t = owned s \<Longrightarrow> clients t = clients s \<Longrightarrow> accounted t"
  by (simp add: accounted_def)

lemma accounted_new_owned:
  "accounted s \<Longrightarrow> fds s fd = None \<Longrightarrow> fds t = (fds s)(fd \<mapsto> f) \<Longrightarrow> owned t = add_mset fd (owned s) \<Longrightarrow>
   clients t = clients s \<Longrightarrow> accounted t"
  using accountedD(3) [of s fd] by (auto simp: accounted_def not_in_iff)

lemma accounted_new_client:
  "accounted s \<Longrightarrow> fds s fd = None \<Longrightarrow> fds t = (fds s)(fd \<mapsto> f) \<Longrightarrow> owned t = owned s \<Longrightarrow>
   clients t = insert fd (clients s) \<Longrightarrow> accounted t"
  using accountedD(3) [of s fd] by (auto simp: accounted_def not_in_iff)

lemma accounted_release:
  "accounted s \<Longrightarrow> owned s = add_mset fd (owned t) \<Longrightarrow> fds t = (fds s)(fd := None) \<Longrightarrow>
   clients t = clients s \<Longrightarrow> accounted t"
  using accountedD(1) [of s fd] unfolding accounted_def
  by (auto split: if_splits)

lemma accounted_client_close:
  "accounted s \<Longrightarrow> fd \<in> clients s \<Longrightarrow> owned t = owned s \<Longrightarrow> fds t = (fds s)(fd := None) \<Longrightarrow>
   clients t = clients s - {fd} \<Longrightarrow> accounted t"
  using accountedD(2) [of s fd] unfolding accounted_def
  by (auto simp: not_in_iff split: if_splits)

section \<open>Every step keeps the invariant\<close>

lemma watched_send [simp]: "watched (sendEventDelayed t d e p) = watched p"
  by (simp add: sendEventDelayed_def generateNewKey_def)

lemma queue_fds_send:
  "table_ok n p \<Longrightarrow> n < key_limit \<Longrightarrow>
   queue_fds (sendEventDelayed t d e p) = event_fds e + queue_fds p"
  by (simp add: queue_fds_def eq.send(2))

lemma watch_fds_send [simp]: "watch_fds (sendEventDelayed t d e p) = watch_fds p"
  by (simp add: watch_fds_def)

lemma watched_take: "take_message d k p = (x, p') \<Longrightarrow> watched p' = watched p"
  by (auto simp: take_message_def removeEventByKey_def)

lemma pinv_send:
  assumes "pinv n s" and "n < key_limit" and "event_fds e = {#}"
    and "pk t = sendEventDelayed d0 d e (pk s)" and "pc t = pc s" and "fds t = fds s"
    and "clients t = clients s" and "addFd_ok t = addFd_ok s"
  shows "pinv (Suc n) t"
proof -
  have ok: "table_ok n (pk s)" using assms(1) by (simp add: pinv_def)
  have "owned t = owned s"
    using assms(3-5) queue_fds_send [OF ok assms(2)] by (simp add: owned_def)
  then have "accounted t" using assms by (auto intro: accounted_same simp: pinv_def)
  then show ?thesis using assms eq.send(1) [OF ok assms(2)] by (simp add: pinv_def)
qed

lemma pinv_frame:
  assumes "pinv n s" and "accounted t" and "table_ok n (pk t)" and "pc t \<noteq> Crashed"
    and "addFd_ok t = addFd_ok s"
  shows "pinv (Suc n) t"
  using assms table_ok_mono [of n "pk t" "Suc n"] by (simp add: pinv_def)

lemma open_for_effect:
  "\<exists>e l. exec (open_for f v pr mx mn type) s = s\<lparr>fds := opened_fds s f, errno := e, wlog := l\<rparr>"
  and open_for_result:
  "result (open_for f v pr mx mn type) s = (case opened s f O_RDWR of None \<Rightarrow> - 1 | Some fd \<Rightarrow> fd)"
  using openPmQosNode_effect [of f v s] openPmQosNode_priority_effect [of f pr mx mn s]
  by (simp_all add: open_for_def)

lemma pinv_client_open:
  assumes inv: "pinv n s"
    and eff: "\<exists>e l. exec m s = s\<lparr>fds := opened_fds s f, errno := e, wlog := l\<rparr>"
    and res: "result m s = (case opened s f O_RDWR of None \<Rightarrow> - 1 | Some fd \<Rightarrow> fd)"
  shows "pinv (Suc n) (claim (result m s) (exec m s))"
proof -
  obtain e l where e: "exec m s = s\<lparr>fds := opened_fds s f, errno := e, wlog := l\<rparr>" using eff by blast
  have acc: "accounted s" using inv by (simp add: pinv_def)
  let ?t = "claim (result m s) (exec m s)"
  have same: "pk ?t = pk s" "pc ?t = pc s" "addFd_ok ?t = addFd_ok s"
    by (simp_all add: claim_def e)
  have "accounted ?t"
  proof (cases "opened s f O_RDWR")
    case None
    then show ?thesis
      by (intro accounted_same [OF acc]) (simp_all add: claim_def e res opened_fds_def owned_def)
  next
    case (Some fd)
    then show ?thesis
      using opened_Some [OF Some]
      by (intro accounted_new_client [OF acc, of fd _ "Node f O_RDWR"])
        (simp_all add: claim_def e res opened_fds_def owned_def)
  qed
  then show ?thesis using inv same by (intro pinv_frame [OF inv]) (simp_all add: pinv_def)
qed

lemma pinv_client_close:
  assumes inv: "pinv n s" and fd: "fd \<in> clients s"
  shows "pinv (Suc n) ((exec (k_close fd) s)\<lparr>clients := clients s - {fd}\<rparr>)"
proof -
  have acc: "accounted s" using inv by (simp add: pinv_def)
  obtain x where "fds s fd = Some x" using accountedD(2) [OF acc fd] by auto
  then have "accounted ((exec (k_close fd) s)\<lparr>clients := clients s - {fd}\<rparr>)"
    by (intro accounted_client_close [OF acc fd]) (simp_all add: owned_def)
  then show ?thesis
    using inv \<open>fds s fd = Some x\<close> by (intro pinv_frame [OF inv]) (simp_all add: pinv_def)
qed

lemma owned_deliver:
  assumes ok: "table_ok n (pk s)" and m: "(d, k) \<in> set (mailbox (pk s))" and "pc s = Polling"
  shows "owned (deliver d k s) = owned s" and "pc (deliver d k s) \<noteq> Crashed"
    and "table_ok n (pk (deliver d k s))"
proof -
  obtain e p' where t: "take_message d k (pk s) = (Some e, p')" and ok': "table_ok n p'"
    and q: "queued (pk s) = add_mset (d, e) (queued p')"
    by (rule eq.take_someE [OF ok m])
  have d: "deliver d k s = s\<lparr>pk := p', pc := Running e\<rparr>" by (simp add: deliver_def t)
  show "pc (deliver d k s) \<noteq> Crashed" and "table_ok n (pk (deliver d k s))" by (simp_all add: d ok')
  show "owned (deliver d k s) = owned s"
    using watched_take [OF t] by (simp add: d owned_def queue_fds_def watch_fds_def q assms(3))
qed

lemma deliver_frame [simp]:
  "fds (deliver d k s) = fds s" "clients (deliver d k s) = clients s"
  "addFd_ok (deliver d k s) = addFd_ok s" "now (deliver d k s) = now s"
  by (simp_all add: deliver_def split: prod.split option.split)

lemma pinv_deliver:
  assumes inv: "pinv n s" and m: "(d, k) \<in> set (mailbox (pk s))" and "pc s = Polling"
  shows "pinv (Suc n) (deliver d k s)"
proof -
  have ok: "table_ok n (pk s)" using inv by (simp add: pinv_def)
  have acc: "accounted s" using inv by (simp add: pinv_def)
  have "accounted (deliver d k s)"
    by (rule accounted_same [OF acc]) (simp_all add: owned_deliver(1) [OF ok m assms(3)])
  then show ?thesis
    using owned_deliver(2,3) [OF ok m assms(3)] by (intro pinv_frame [OF inv]) simp_all
qed

lemma pinv_open:
  assumes inv: "pinv n s" and pc: "pc s = Running (PmQosOpenTimedEvent f v pr mx mn type timeout)"
  shows "pinv (Suc n) ((exec (open_for f v pr mx mn type) s)
      \<lparr>pc := after_open timeout (result (open_for f v pr mx mn type) s)\<rparr>)"
proof -
  obtain e l where e: "exec (open_for f v pr mx mn type) s
      = s\<lparr>fds := opened_fds s f, errno := e, wlog := l\<rparr>" using open_for_effect by blast
  let ?t = "(exec (open_for f v pr mx mn type) s)
      \<lparr>pc := after_open timeout (result (open_for f v pr mx mn type) s)\<rparr>"
  have acc: "accounted s" using inv by (simp add: pinv_def)
  have "accounted ?t"
  proof (cases "opened s f O_RDWR")
    case None
    then show ?thesis
      using pc by (intro accounted_same [OF acc])
        (simp_all add: e open_for_result opened_fds_def owned_def after_open_def)
  next
    case (Some fd)
    then show ?thesis
      using pc opened_Some [OF Some]
      by (intro accounted_new_owned [OF acc, of fd _ "Node f O_RDWR"])
        (simp_all add: e open_for_result opened_fds_def owned_def after_open_def)
  qed
  then show ?thesis
    using inv by (intro pinv_frame [OF inv]) (simp_all add: pinv_def e after_open_def)
qed

lemma pinv_arm:
  assumes inv: "pinv n s" and pc: "pc s = Arming fd timeout" and n: "n < key_limit"
  shows "pinv (Suc n) ((exec (armTimeout timeout fd) s)\<lparr>pc := Polling\<rparr>)"
proof -
  have ok: "table_ok n (pk s)" using inv by (simp add: pinv_def)
  have acc: "accounted s" using inv by (simp add: pinv_def)
  have "accounted ((exec (armTimeout timeout fd) s)\<lparr>pc := Polling\<rparr>)"
    using queue_fds_send [OF ok n] pc
    by (intro accounted_same [OF acc]) (simp_all add: owned_def armTimeout_def)
  then show ?thesis
    using inv eq.send(1) [OF ok n] by (simp add: pinv_def armTimeout_def)
qed

lemma pinv_close:
  assumes inv: "pinv n s" and pc: "pc s = Running (TimeoutEvent fd)"
  shows "pinv (Suc n) ((exec (timeoutRequest fd) s)\<lparr>pc := Polling\<rparr>)"
proof -
  have acc: "accounted s" using inv by (simp add: pinv_def)
  have "fd \<in># owned s" using pc by (simp add: owned_def)
  then obtain x where x: "fds s fd = Some x" using accountedD(1) [OF acc] by blast
  then have "accounted ((exec (timeoutRequest fd) s)\<lparr>pc := Polling\<rparr>)"
    using pc by (intro accounted_release [OF acc, of fd]) (simp_all add: owned_def timeoutRequest_def)
  then show ?thesis
    using inv x
    by (intro pinv_frame [OF inv]) (simp_all add: pinv_def timeoutRequest_def)
qed

lemma accounted_new_handle:
  assumes acc: "accounted s" and "fds s fd = None" "fds s r = None" "fds s w = None"
    and "fd \<noteq> r" "fd \<noteq> w" "r \<noteq> w"
    and "fds t = (fds s)(fd \<mapsto> a, r \<mapsto> b, w \<mapsto> c)"
    and "owned t = add_mset w (add_mset fd (owned s))" and "clients t = insert r (clients s)"
  shows "accounted t"
  using assms accountedD(3) [OF acc, of fd] accountedD(3) [OF acc, of r] accountedD(3) [OF acc, of w]
  unfolding accounted_def by (auto simp: not_in_iff)

lemma accounted_release_handle:
  assumes acc: "accounted s" and "owned s = add_mset h (add_mset fd (owned t))" and "h \<noteq> fd"
    and "fds t = (fds s)(h := None, fd := None)" and "clients t = clients s"
  shows "accounted t"
proof -
  have "fds s h \<noteq> None \<and> h \<notin> clients s \<and> count (owned s) h = 1"
    and "fds s fd \<noteq> None \<and> fd \<notin> clients s \<and> count (owned s) fd = 1"
    using assms(2) by (intro accountedD(1) [OF acc]; simp)+
  then show ?thesis using assms unfolding accounted_def by (auto split: if_splits)
qed

text \<open>
  Making a handle: nothing but \<open>errno\<close> and the log, or three fresh descriptors, of which the caller
  gets one.
\<close>

definition make_handle :: "string \<Rightarrow> int \<Rightarrow> int \<Rightarrow> int \<Rightarrow> int \<Rightarrow> node_type \<Rightarrow> (pproc, int) state" where
  "make_handle f v pr mx mn type =
     (if type = NODE_TYPE_PRIORITY then createHandleForPmQosRequest_priority f pr mx mn
      else createHandleForPmQosRequest f v)"

lemma make_handle_cases:
  fixes s :: pproc
  obtains (refused) e l where "result (make_handle f v pr mx mn type) s = - 1"
      "exec (make_handle f v pr mx mn type) s = s\<lparr>errno := e, wlog := l\<rparr>"
  | (granted) fd r w e l where "opened s f O_RDWR = Some fd" "result (make_handle f v pr mx mn type) s = r"
      "0 \<le> r" "fds s fd = None" "fds s r = None" "fds s w = None" "distinct [fd, r, w]" "r \<in> set (fd_slots s)"
      "exec (make_handle f v pr mx mn type) s = s\<lparr>errno := e, wlog := l,
         fds := (fds s)(fd \<mapsto> Node f O_RDWR, r \<mapsto> PipeR (next_pipe s), w \<mapsto> PipeW (next_pipe s)),
         next_pipe := Suc (next_pipe s),
         pk := (if addFd_ok s w then (pk s)\<lparr>watched := watched (pk s) @ [(w, fd)]\<rparr> else pk s)\<rparr>"
proof -
  let ?m = "make_handle f v pr mx mn type"
  have m: "?m = do { fd \<leftarrow> open_for f v pr mx mn type; if fd < 0 then ret (- 1) else createHandleForFd fd }"
    by (simp add: make_handle_def open_for_def createHandleForPmQosRequest_def
        createHandleForPmQosRequest_priority_def)
  obtain e l where e: "exec (open_for f v pr mx mn type) s = s\<lparr>fds := opened_fds s f, errno := e, wlog := l\<rparr>"
    using open_for_effect by blast
  show thesis
  proof (cases "opened s f O_RDWR")
    case None
    show thesis by (rule refused [of l e]) (simp_all add: m None e open_for_result opened_fds_def)
  next
    case (Some fd)
    note o = opened_Some [OF Some]
    let ?s = "s\<lparr>fds := (fds s)(fd \<mapsto> Node f O_RDWR), errno := e, wlog := l\<rparr>"
    have x: "exec ?m s = exec (createHandleForFd fd) ?s" "result ?m s = result (createHandleForFd fd) ?s"
      using o by (simp_all add: m e open_for_result opened_fds_def Some)
    have "fds ?s fd \<noteq> None" by simp
    then show thesis
    proof (cases rule: createHandleForFd_cases)
      case (1 e')
      show thesis by (rule refused [of l e']) (simp_all add: x 1 o fun_upd_idem)
    next
      case (2 r w)
      have "r \<noteq> fd" "w \<noteq> fd" using 2(2,3) by auto
      then show thesis
        by (intro granted [OF Some, of r w l e]) (use 2 o in \<open>simp_all add: x fd_slots_def\<close>)
    qed
  qed
qed

text \<open>What running a handle event can do, seen from outside.\<close>

lemma run_handle_cases:
  fixes s :: pproc
  assumes t: "t = claim_handle call
      ((exec (run_event (PmQosOpenHandleEvent f v pr mx mn type call b)) s)\<lparr>pc := Polling\<rparr>)"
  obtains (refused) "fds t = fds s" "pk t = pk s" "clients t = clients s"
      "pc t = Polling" "addFd_ok t = addFd_ok s" "now t = now s"
  | (granted) fd r w where "fds s fd = None" "fds s r = None" "fds s w = None"
      "fd \<noteq> r" "fd \<noteq> w" "r \<noteq> w" "clients t = insert r (clients s)"
      "fds t = (fds s)(fd \<mapsto> Node f O_RDWR, r \<mapsto> PipeR (next_pipe s), w \<mapsto> PipeW (next_pipe s))"
      "pk t = (if addFd_ok s w then (pk s)\<lparr>watched := watched (pk s) @ [(w, fd)]\<rparr> else pk s)"
      "pc t = Polling" "addFd_ok t = addFd_ok s" "now t = now s"
proof -
  let ?m = "make_handle f v pr mx mn type"
  have t': "t = claim (result ?m s) ((exec ?m s)\<lparr>outFds := (outFds (exec ?m s))(call \<mapsto> result ?m s),
      dones := (dones (exec ?m s))(b := True), pc := Polling\<rparr>)"
    by (simp add: t make_handle_def claim_handle_def claim_def)
  show thesis
  proof (cases rule: make_handle_cases [of f v pr mx mn type s])
    case (refused e l)
    show thesis by (rule that(1)) (simp_all add: t' refused claim_def)
  next
    case (granted fd r w e l)
    show thesis by (rule that(2) [of fd r w]) (use granted in \<open>simp_all add: t' claim_def\<close>)
  qed
qed

lemma pinv_run_handle:
  fixes s t :: pproc
  assumes inv: "pinv n s" and pc: "pc s = Running (PmQosOpenHandleEvent f v pr mx mn type call b)"
    and t: "t = claim_handle call
      ((exec (run_event (PmQosOpenHandleEvent f v pr mx mn type call b)) s)\<lparr>pc := Polling\<rparr>)"
  shows "pinv (Suc n) t"
proof (cases rule: run_handle_cases [OF t])
  case 1
  have "accounted s" using inv by (simp add: pinv_def)
  then have "accounted t" by (rule accounted_same) (simp_all add: 1 owned_def pc)
  then show ?thesis using inv by (intro pinv_frame [OF inv]) (simp_all add: 1 pinv_def)
next
  case granted: (2 fd r w)
  have acc: "accounted s" and ok: "addFd_ok s w" using inv by (simp_all add: pinv_def)
  have "accounted t"
    by (rule accounted_new_handle [OF acc granted(1-6,8) _ granted(7)])
      (simp add: granted(9,10) ok owned_def queue_fds_def watch_fds_def queued_def pc)
  then show ?thesis
    using inv by (intro pinv_frame [OF inv]) (simp_all add: granted(9-11) ok pinv_def table_ok_def)
qed

lemma watched_unique:
  fixes h fd :: int
  assumes "(h, fd) \<in> set ws" and "count (\<Sum>(h, fd) \<in># mset ws. {#h, fd#}) h \<le> 1"
  shows "mset ws = add_mset (h, fd) (mset (filter (\<lambda>(x, _). x \<noteq> h) ws))"
proof -
  define S where "S zs = (\<Sum>(h, fd) \<in># mset zs. {#h, fd#})" for zs :: "(int \<times> int) list"
  obtain xs ys where ws: "ws = xs @ (h, fd) # ys" using split_list [OF assms(1)] by blast
  have c: "count (S zs) h \<ge> 1" if "(h, x) \<in> set zs" for zs x
    using that by (induction zs) (auto simp: S_def)
  have "count (S ws) h \<ge> 1 + count (S xs) h + count (S ys) h" by (simp add: S_def ws)
  then have "count (S xs) h = 0 \<and> count (S ys) h = 0"
    using assms(2) by (simp add: S_def [symmetric])
  then have "(h, x) \<notin> set xs" and "(h, x) \<notin> set ys" for x
    using c [of x xs] c [of x ys] by linarith+
  then have "filter (\<lambda>(x, _). x \<noteq> h) xs = xs" and "filter (\<lambda>(x, _). x \<noteq> h) ys = ys"
    by (auto simp: filter_id_conv)
  then show ?thesis by (simp add: ws)
qed

text \<open>A watched handle and its request are two descriptors of the poker, watched once.\<close>

lemma watched_owned:
  assumes acc: "accounted s" and w: "(h, fd) \<in> set (watched (pk s))"
  shows "h \<in># owned s" and "fd \<in># owned s" and "h \<noteq> fd"
    and "mset (watched (pk s)) = add_mset (h, fd) (mset (filter (\<lambda>(x, _). x \<noteq> h) (watched (pk s))))"
proof -
  have "{#h, fd#} \<subseteq># watch_fds (pk s)"
    using w by (auto simp: watch_fds_def dest!: split_list)
  moreover have "watch_fds (pk s) \<subseteq># owned s" by (simp add: owned_def)
  ultimately have in_owned: "{#h, fd#} \<subseteq># owned s" by (rule subset_mset.order_trans)
  then show mem: "h \<in># owned s" "fd \<in># owned s" by (auto dest: mset_subset_eqD)
  note oh = accountedD(1) [OF acc mem(1)]
  show "h \<noteq> fd" using mset_subset_eq_count [OF in_owned, of h] oh by auto
  have "count (watch_fds (pk s)) h \<le> 1" using oh by (simp add: owned_def)
  then show "mset (watched (pk s)) = add_mset (h, fd) (mset (filter (\<lambda>(x, _). x \<noteq> h) (watched (pk s))))"
    using watched_unique [OF w] by (simp add: watch_fds_def)
qed

lemma exec_hangup:
  assumes "accounted s" and "(h, fd) \<in> set (watched (pk s))"
  shows "exec (pipeCloseCb h True fd) s = s\<lparr>pk := (pk s)\<lparr>watched := filter (\<lambda>(x, _). x \<noteq> h) (watched (pk s))\<rparr>,
     fds := (fds s)(h := None, fd := None)\<rparr>"
  using watched_owned(3) [OF assms] accountedD(1) [OF assms(1) watched_owned(1) [OF assms]]
    accountedD(1) [OF assms(1) watched_owned(2) [OF assms]]
  by (auto simp: pipeCloseCb_def)

lemma pinv_hangup:
  fixes s :: pproc
  assumes inv: "pinv n s" and w: "(h, fd) \<in> set (watched (pk s))" and pc: "pc s = Polling"
  shows "pinv (Suc n) (exec (pipeCloseCb h True fd) s)"
proof -
  have acc: "accounted s" using inv by (simp add: pinv_def)
  note t = exec_hangup [OF acc w]
  have "watch_fds (pk s) = add_mset h (add_mset fd
      (watch_fds ((pk s)\<lparr>watched := filter (\<lambda>(x, _). x \<noteq> h) (watched (pk s))\<rparr>)))"
    unfolding watch_fds_def by (subst watched_owned(4) [OF acc w]) simp
  then have "accounted (exec (pipeCloseCb h True fd) s)"
    by (intro accounted_release_handle [OF acc _ watched_owned(3) [OF acc w]])
      (simp_all add: t owned_def queue_fds_def queued_def)
  then show ?thesis
    using inv by (intro pinv_frame [OF inv]) (simp_all add: t pinv_def table_ok_def)
qed

theorem pinv_step:
  assumes inv: "pinv n s" and step: "pstep s t" and n: "n < key_limit"
  shows "pinv (Suc n) t"
  using step
proof cases
  case (p_timed f v timeout)
  then show ?thesis
    using inv n by (intro pinv_send [OF inv n])
      (simp_all add: requestPmQosTimed_def pushEvent_def timed_event_def)
next
  case (p_timed_priority f pr mx mn timeout)
  then show ?thesis
    by (intro pinv_send [OF inv n])
      (simp_all add: requestPmQosTimed_priority_def pushEvent_def timed_event_priority_def)
next
  case (p_handle f v call)
  then show ?thesis
    by (intro pinv_send [OF inv n]) (simp_all add: createPmQosHandle_def pushEvent_def handle_event_def)
next
  case (p_handle_priority f pr mx mn call)
  then show ?thesis
    by (intro pinv_send [OF inv n])
      (simp_all add: createPmQosHandle_priority_def pushEvent_def handle_event_priority_def)
next
  case (p_client_open f v)
  then show ?thesis using pinv_client_open [OF inv requestPmQos_effect] by simp
next
  case (p_client_open_priority f pr mx mn)
  then show ?thesis using pinv_client_open [OF inv requestPmQos_priority_effect] by simp
next
  case (p_environment t' N)
  have "accounted s" using inv by (simp add: pinv_def)
  then have "accounted t"
    by (rule accounted_same) (simp_all add: p_environment owned_def)
  then show ?thesis using inv p_environment by (intro pinv_frame [OF inv]) (simp_all add: pinv_def)
next
  case (p_client_close fd)
  then show ?thesis using pinv_client_close [OF inv] by simp
next
  case (p_deliver d k)
  then show ?thesis using pinv_deliver [OF inv] by simp
next
  case (p_open f v pr mx mn type timeout)
  then show ?thesis using pinv_open [OF inv] by simp
next
  case (p_arm fd timeout)
  then show ?thesis using pinv_arm [OF inv _ n] by simp
next
  case (p_close fd)
  then show ?thesis using pinv_close [OF inv] by simp
next
  case (p_run_handle f v pr mx mn type call b)
  show ?thesis by (rule pinv_run_handle [OF inv p_run_handle(2,1)])
next
  case (p_hangup h fd)
  then show ?thesis using pinv_hangup [OF inv] by simp
qed

lemma pinv_init: "pinit s \<Longrightarrow> pinv 0 s"
  using eq.empty by (auto simp: pinit_def pinv_def accounted_def owned_def queue_fds_def watch_fds_def new_poker_def)

interpretation poker: counted_invariant pinit pstep pinv key_limit
  by unfold_locales (auto intro: pinv_init pinv_step)

end
