(* ===== verification/Poker_Safety.thy ===== *)
theory Poker_Safety
  imports Poker_Steps
begin

text \<open>
  Safety of the timeout poker in every interleaving of clients, looper and environment: each open
  descriptor has one owner, the looper only closes what it owns, and a granted request stays in
  force for at least its timeout.
\<close>

section \<open>What one step does to time and to descriptors that are in use\<close>

lemma now_step:
  assumes "pstep s t"
  shows "now s \<le> now t"
  using assms
proof cases
  case (p_client_open f v)
  then show ?thesis using requestPmQos_effect(1) [of f v s] by (auto simp: claim_def)
next
  case (p_client_open_priority f pr mx mn)
  then show ?thesis using requestPmQos_priority_effect(1) [of f pr mx mn s] by (auto simp: claim_def)
next
  case (p_open f v pr mx mn type timeout)
  then show ?thesis using open_for_effect [of f v pr mx mn type s] by auto
next
  case (p_run_handle f v pr mx mn type call b)
  then show ?thesis by (cases rule: run_handle_cases [OF p_run_handle(1)]) simp_all
qed (simp_all add: createPmQosHandle_def createPmQosHandle_priority_def armTimeout_def timeoutRequest_def
    pipeCloseCb_def)

text \<open>
  \<open>holds fd d s\<close>: the looper has opened \<open>fd\<close> for a timed request and will not close it before
  time \<open>d\<close>.
\<close>

definition holds :: "int \<Rightarrow> int \<Rightarrow> pproc \<Rightarrow> bool" where
  "holds fd d s \<longleftrightarrow> (\<exists>timeout. pc s = Arming fd timeout \<and> d \<le> now s + timeout)
     \<or> (\<exists>d'. d \<le> d' \<and> (d', TimeoutEvent fd) \<in># queued (pk s))"

lemma holds_owned: "holds fd d s \<Longrightarrow> fd \<in># owned s"
  by (auto simp: holds_def owned_def queue_fds_def intro: bexI [rotated])

lemma holds_once:
  assumes "accounted s" and "holds fd d s"
  shows "pc s \<noteq> Running (TimeoutEvent fd)" and "fd \<notin># watch_fds (pk s)" and "fd \<notin> clients s"
    and "fds s fd \<noteq> None"
proof -
  have o: "fds s fd \<noteq> None \<and> fd \<notin> clients s \<and> count (owned s) fd = 1"
    by (rule accountedD(1) [OF assms(1) holds_owned [OF assms(2)]])
  then show "fd \<notin> clients s" and "fds s fd \<noteq> None" by simp_all
  have "fd \<in># queue_fds (pk s) \<or> (\<exists>timeout. pc s = Arming fd timeout)"
    using assms(2) by (auto simp: holds_def queue_fds_def intro: bexI [rotated])
  then have "(pc s = Running (TimeoutEvent fd) \<longrightarrow> count (owned s) fd \<ge> 2)
      \<and> (fd \<in># watch_fds (pk s) \<longrightarrow> count (owned s) fd \<ge> 2)"
    by (auto simp: owned_def count_greater_zero_iff [symmetric] Suc_le_eq simp del: count_greater_zero_iff)
  with o show "pc s \<noteq> Running (TimeoutEvent fd)" and "fd \<notin># watch_fds (pk s)" by auto
qed

lemma queued_watched [simp]: "queued (p\<lparr>watched := w\<rparr>) = queued p"
  by (simp add: queued_def)

lemma holds_open_client:
  assumes h: "holds fd d s" and acc: "accounted s"
    and eff: "\<exists>e l. exec m s = s\<lparr>fds := opened_fds s f, errno := e, wlog := l\<rparr>"
  shows "holds fd d (claim (result m s) (exec m s)) \<and> fds (claim (result m s) (exec m s)) fd = fds s fd"
proof -
  obtain e l where e: "exec m s = s\<lparr>fds := opened_fds s f, errno := e, wlog := l\<rparr>" using eff by blast
  have "opened_fds s f fd = fds s fd"
    using holds_once(4) [OF acc h] opened_Some(1) [of s f O_RDWR]
    by (auto simp: opened_fds_def split: option.split)
  then show ?thesis using h by (simp add: claim_def e holds_def)
qed

lemma holds_step:
  assumes h: "holds fd d s" and inv: "pinv n s" and step: "pstep s t" and n: "n < key_limit"
    and early: "now t < d"
  shows "holds fd d t \<and> fds t fd = fds s fd"
proof -
  have acc: "accounted s" and ok: "table_ok n (pk s)" using inv by (simp_all add: pinv_def)
  note once = holds_once [OF acc h]
  show ?thesis
    using step
  proof cases
    case (p_client_open f v)
    then show ?thesis using holds_open_client [OF h acc requestPmQos_effect(1)] by simp
  next
    case (p_client_open_priority f pr mx mn)
    then show ?thesis using holds_open_client [OF h acc requestPmQos_priority_effect(1)] by simp
  next
    case (p_client_close fd')
    then have "fd' \<noteq> fd" using once by auto
    then show ?thesis using h p_client_close by (simp add: holds_def)
  next
    case (p_environment t' N)
    then show ?thesis using h by (force simp: holds_def)
  next
    case (p_deliver d' k)
    obtain e p' where tk: "take_message d' k (pk s) = (Some e, p')"
      and q: "queued (pk s) = add_mset (d', e) (queued p')"
      by (rule eq.take_someE [OF ok p_deliver(3)])
    have "d' < d" using p_deliver early by simp
    then show ?thesis using h p_deliver(1,2) tk q by (auto simp: holds_def deliver_def)
  next
    case (p_open f v pr mx mn type timeout)
    obtain e l where e: "exec (open_for f v pr mx mn type) s = s\<lparr>fds := opened_fds s f, errno := e, wlog := l\<rparr>"
      using open_for_effect by blast
    have "opened_fds s f fd = fds s fd"
      using once(4) opened_Some(1) [of s f O_RDWR] by (auto simp: opened_fds_def split: option.split)
    then show ?thesis using h p_open by (auto simp: holds_def e)
  next
    case (p_arm fd' timeout)
    then show ?thesis
      using h eq.send(2) [OF ok n] by (auto simp: holds_def armTimeout_def)
  next
    case (p_close fd')
    then have "fd' \<noteq> fd" using once by auto
    then show ?thesis using h p_close by (simp add: holds_def timeoutRequest_def)
  next
    case (p_run_handle f v pr mx mn type call b)
    have q: "\<exists>d'\<ge>d. (d', TimeoutEvent fd) \<in># queued (pk s)" using h p_run_handle(2) by (simp add: holds_def)
    show ?thesis
    proof (cases rule: run_handle_cases [OF p_run_handle(1)])
      case 1
      then show ?thesis using q by (simp add: holds_def)
    next
      case (2 fd' r w)
      then have "fd \<noteq> fd'" "fd \<noteq> r" "fd \<noteq> w" using once(4) by auto
      moreover have "queued (pk t) = queued (pk s)" by (simp add: 2(9))
      ultimately show ?thesis using q by (simp add: 2(8) holds_def)
    qed
  next
    case (p_hangup h' fd')
    have "h' \<in># watch_fds (pk s)" "fd' \<in># watch_fds (pk s)"
      using p_hangup(3) by (auto simp: watch_fds_def intro!: bexI [of _ "(h', fd')"])
    then have "h' \<noteq> fd" "fd' \<noteq> fd" using once by auto
    then show ?thesis using h p_hangup(1,2) by (auto simp: holds_def pipeCloseCb_def)
  next
    case (p_timed f v timeout)
    then show ?thesis using h eq.send(2) [OF ok n] by (auto simp: holds_def requestPmQosTimed_def pushEvent_def)
  next
    case (p_timed_priority f pr mx mn timeout)
    then show ?thesis
      using h eq.send(2) [OF ok n] by (auto simp: holds_def requestPmQosTimed_priority_def pushEvent_def)
  next
    case (p_handle f v call)
    then show ?thesis
      using h eq.send(2) [OF ok n] by (auto simp: holds_def createPmQosHandle_def pushEvent_def)
  next
    case (p_handle_priority f pr mx mn call)
    then show ?thesis
      using h eq.send(2) [OF ok n] by (auto simp: holds_def createPmQosHandle_priority_def pushEvent_def)
  qed
qed

lemma holds_run:
  "run pstep m s t \<Longrightarrow> holds fd d s \<Longrightarrow> pinv n s \<Longrightarrow> n + m \<le> key_limit \<Longrightarrow> now t < d \<Longrightarrow>
   holds fd d t \<and> fds t fd = fds s fd"
proof (induction rule: run.induct)
  case (run_snoc m s t u)
  have "now t < d" using now_step [OF run_snoc.hyps(2)] run_snoc.prems by simp
  then have "holds fd d t" and "fds t fd = fds s fd" using run_snoc by auto
  moreover have "pinv (n + m) t"
    using poker.run_inv [OF run_snoc.hyps(1)] run_snoc.prems by simp
  ultimately show ?case
    using holds_step [of fd d t "n + m" u] run_snoc by simp
qed simp


section \<open>A concrete process\<close>

text \<open>A process with the poker of the frequency floor, before any request.\<close>

definition demo_proc :: "pproc" where
  "demo_proc = \<lparr>nodes = [''/dev/cpu_freq_min'' \<mapsto> plain_node []], fds = std_fds, fd_max = 8,
     next_pipe = 0, wlog = [], errno = 0, strerr = (\<lambda>_. []), props = Map.empty,
     prop_status = (\<lambda>_ _. 0), now = 0, pk = new_poker, outFds = Map.empty, dones = (\<lambda>_. False),
     addFd_ok = (\<lambda>_. True), pc = Polling, clients = {0, 1, 2}\<rparr>"

definition demo_event :: queued_event where
  "demo_event = timed_event ''/dev/cpu_freq_min'' 1020000 100"

definition demo_armed :: pproc where
  "demo_armed = demo_proc\<lparr>pk := new_poker\<lparr>mKey := 1\<rparr>, pc := Arming 3 100,
     fds := std_fds(3 \<mapsto> Node ''/dev/cpu_freq_min'' O_RDWR),
     wlog := [(''/dev/cpu_freq_min'', le_bytes (word_of_int 1020000))]\<rparr>"

lemmas pinit_reach = reach_init [where init = pinit and step = pstep]
lemmas pstep_reach = reach_step [where init = pinit and step = pstep]

lemma demo_init: "pinit demo_proc"
  by (auto simp: pinit_def demo_proc_def std_fds_def split: if_splits)

lemma opened_demo: "opened (demo_proc\<lparr>pk := p, pc := c\<rparr>) ''/dev/cpu_freq_min'' O_RDWR = Some 3"
  by (simp add: opened_def open_error_def free_fd_def fd_slots_def demo_proc_def plain_node_def
      std_fds_def upt_rec)

lemma demo_reach_armed: "reach pinit pstep 3 demo_armed"
proof -
  let ?f = "''/dev/cpu_freq_min''"
  let ?p = "requestPmQosTimed ?f 1020000 100 0 new_poker"
  let ?q = "new_poker\<lparr>mKey := 1\<rparr>"
  let ?s1 = "demo_proc\<lparr>pk := ?p\<rparr>" and ?s2 = "demo_proc\<lparr>pk := ?q, pc := Running demo_event\<rparr>"
  have "pstep demo_proc (demo_proc\<lparr>pk := requestPmQosTimed ?f 1020000 100 (now demo_proc) (pk demo_proc)\<rparr>)"
    by (rule p_timed)
  then have 1: "pstep demo_proc ?s1" by (simp add: demo_proc_def)
  have "pstep ?s1 (deliver 0 0 ?s1)"
    by (rule p_deliver) (simp_all add: demo_proc_def requestPmQosTimed_def pushEvent_def
        sendEventDelayed_def generateNewKey_def new_poker_def)
  moreover have "deliver 0 0 ?s1 = ?s2"
    by (simp add: deliver_def take_message_def removeEventByKey_def requestPmQosTimed_def pushEvent_def
        sendEventDelayed_def generateNewKey_def new_poker_def demo_event_def)
  ultimately have 2: "pstep ?s1 ?s2" by simp
  have "pstep ?s2 ((exec (open_for ?f 1020000 (- 1) (- 1) (- 1) NODE_TYPE_DEFAULT) ?s2)
      \<lparr>pc := after_open 100 (result (open_for ?f 1020000 (- 1) (- 1) (- 1) NODE_TYPE_DEFAULT) ?s2)\<rparr>)"
    by (rule p_open) (simp add: demo_event_def timed_event_def)
  moreover have "driver_write (?s2\<lparr>fds := x\<rparr>) ?f d = Inr (length d)" for x d
    by (simp add: driver_write_def demo_proc_def plain_node_def)
  ultimately have 3: "pstep ?s2 demo_armed"
    by (simp add: open_for_def openPmQosNode_def opened_demo after_open_def exec_k_write)
      (simp add: demo_armed_def demo_proc_def)
  have "reach pinit pstep (Suc (Suc (Suc 0))) demo_armed"
    by (rule pstep_reach [OF pstep_reach [OF pstep_reach [OF pinit_reach [OF demo_init] 1] 2] 3])
  then show ?thesis by (simp add: eval_nat_numeral)
qed

definition demo_due :: pproc where
  "demo_due = demo_armed\<lparr>pk := new_poker\<lparr>mKey := 2\<rparr>, now := 100, pc := Running (TimeoutEvent 3)\<rparr>"

lemma demo_reach_due: "reach pinit pstep 6 demo_due"
proof -
  let ?p = "sendEventDelayed 0 100 (TimeoutEvent 3) (new_poker\<lparr>mKey := 1\<rparr>)"
  let ?s1 = "demo_armed\<lparr>pk := ?p, pc := Polling\<rparr>" and ?s2 = "demo_armed\<lparr>pk := ?p, pc := Polling, now := 100\<rparr>"
  have "pstep demo_armed ((exec (armTimeout 100 3) demo_armed)\<lparr>pc := Polling\<rparr>)"
    by (rule p_arm) (simp add: demo_armed_def)
  then have 1: "pstep demo_armed ?s1" by (simp add: armTimeout_def demo_armed_def demo_proc_def)
  have "pstep ?s1 (?s1\<lparr>nodes := nodes ?s1, now := 100\<rparr>)"
    by (rule p_environment) (simp add: demo_armed_def demo_proc_def)
  then have 2: "pstep ?s1 ?s2" by simp
  have "pstep ?s2 (deliver 100 1 ?s2)"
    by (rule p_deliver) (simp_all add: sendEventDelayed_def generateNewKey_def new_poker_def)
  moreover have "deliver 100 1 ?s2 = demo_due"
    by (simp add: deliver_def take_message_def removeEventByKey_def demo_due_def
        sendEventDelayed_def generateNewKey_def new_poker_def)
  ultimately have 3: "pstep ?s2 demo_due" by simp
  have "reach pinit pstep (Suc (Suc (Suc 3))) demo_due"
    by (rule pstep_reach [OF pstep_reach [OF pstep_reach [OF demo_reach_armed 1] 2] 3])
  then show ?thesis by simp
qed

section \<open>Properties\<close>

lemma accounted_owner:
  assumes "accounted s"
  shows "fds s fd \<noteq> None \<longleftrightarrow> fd \<in> clients s \<or> fd \<in># owned s"
proof (cases "fd \<in> clients s \<or> fd \<in># owned s")
  case True
  then show ?thesis using accountedD(1,2) [OF assms] by blast
next
  case False
  then show ?thesis
    using assms [unfolded accounted_def, rule_format, of fd] by (simp add: not_in_iff split: if_splits)
qed

lemma accounted_once: "accounted s \<Longrightarrow> count (owned s) fd \<le> 1"
  using accountedD(1) [of s fd] by (cases "fd \<in># owned s") (auto simp: not_in_iff)

text \<open>
  C1. Every descriptor has exactly one owner.  In every state that clients, looper and environment
  can reach together, the open descriptors are those of the rest of the process and those that
  the poker still has to close; the two groups are disjoint, the poker is to close each of its own
  exactly once, and the looper has never failed to find the event of a message.  So no request is
  leaked and none is closed twice.
\<close>

theorem poker_accounting:
  assumes "reach pinit pstep n s" and "n \<le> key_limit"
  shows "{fd. fds s fd \<noteq> None} = clients s \<union> set_mset (owned s)
    \<and> clients s \<inter> set_mset (owned s) = {} \<and> (\<forall>fd. count (owned s) fd \<le> 1) \<and> pc s \<noteq> Crashed"
proof -
  have inv: "pinv n s" by (rule poker.reach_inv [OF assms])
  then have acc: "accounted s" by (simp add: pinv_def)
  show ?thesis
    using inv accountedD(2) [OF acc] accounted_owner [OF acc] accounted_once [OF acc]
    by (auto simp: pinv_def)
qed

theorem poker_accounting_witness:
  "{fd. fds demo_armed fd \<noteq> None} = {0, 1, 2, 3} \<and> owned demo_armed = {#3#}"
proof -
  have "{fd. fds demo_armed fd \<noteq> None} = clients demo_armed \<union> set_mset (owned demo_armed)"
    by (rule poker_accounting [OF demo_reach_armed, THEN conjunct1]) (simp add: key_limit_def)
  moreover have "owned demo_armed = {#3#}"
    by (simp add: owned_def demo_armed_def queue_fds_def watch_fds_def queued_def new_poker_def)
  moreover have "clients demo_armed = {0, 1, 2}" by (simp add: demo_armed_def demo_proc_def)
  ultimately show ?thesis by (simp add: insert_commute)
qed

text \<open>
  C2. A granted boost is never cut short.  Once the looper has opened a node for a timed request,
  the descriptor stays open and untouched for the whole timeout, whatever requests, deliveries,
  closings and environment changes come in between.
\<close>

theorem boost_held_until_due:
  assumes "reach pinit pstep n s" and "pc s = Arming fd timeout" and "run pstep m s t"
    and "n + m \<le> key_limit" and "now t < now s + timeout"
  shows "fds t fd = fds s fd \<and> fds t fd \<noteq> None"
proof -
  have inv: "pinv n s" using poker.reach_inv [OF assms(1)] assms(4) by simp
  have h: "holds fd (now s + timeout) s" using assms(2) by (simp add: holds_def)
  have "fds t fd = fds s fd" using holds_run [OF assms(3) h inv assms(4,5)] by simp
  moreover have "fds s fd \<noteq> None" using holds_once(4) [OF _ h] inv by (simp add: pinv_def)
  ultimately show ?thesis by simp
qed

theorem boost_held_until_due_witness:
  "fds (demo_armed\<lparr>nodes := Map.empty, now := 99\<rparr>) 3 = Some (Node ''/dev/cpu_freq_min'' O_RDWR)"
proof -
  have "pstep demo_armed (demo_armed\<lparr>nodes := Map.empty, now := 99\<rparr>)"
    by (rule p_environment) (simp add: demo_armed_def demo_proc_def)
  then have "run pstep (Suc 0) demo_armed (demo_armed\<lparr>nodes := Map.empty, now := 99\<rparr>)"
    by (rule run_single)
  from boost_held_until_due [OF demo_reach_armed _ this, of 3 100] show ?thesis
    by (simp add: demo_armed_def demo_proc_def key_limit_def)
qed

text \<open>
  What the looper closes is its own: a due timeout event and a hang-up of a handle close
  descriptors that are open, belong to no client, and are closed by a call that succeeds.
\<close>

theorem looper_closes_its_own:
  assumes "reach pinit pstep n s" and "n \<le> key_limit"
  shows "(pc s = Running (TimeoutEvent fd) \<longrightarrow>
      fds s fd \<noteq> None \<and> fd \<notin> clients s \<and> fds (exec (timeoutRequest fd) s) = (fds s)(fd := None))
    \<and> ((h, fd) \<in> set (watched (pk s)) \<longrightarrow>
      fds s h \<noteq> None \<and> fds s fd \<noteq> None \<and> h \<notin> clients s \<and> fd \<notin> clients s
      \<and> fds (exec (pipeCloseCb h True fd) s) = (fds s)(h := None, fd := None)
      \<and> (h, fd) \<notin> set (watched (pk (exec (pipeCloseCb h True fd) s))))"
proof -
  have acc: "accounted s" using poker.reach_inv [OF assms] by (simp add: pinv_def)
  have 1: "fd \<in># owned s" if "pc s = Running (TimeoutEvent fd)" using that by (simp add: owned_def)
  have 2: "h \<in># owned s \<and> fd \<in># owned s \<and> h \<noteq> fd" if "(h, fd) \<in> set (watched (pk s))"
    using watched_owned(1-3) [OF acc that] by simp
  show ?thesis
    using 1 2 accountedD(1) [OF acc, of fd] accountedD(1) [OF acc, of h]
    by (auto simp: timeoutRequest_def pipeCloseCb_def)
qed

theorem looper_closes_its_own_witness:
  "pc demo_due = Running (TimeoutEvent 3) \<and> fds (exec (timeoutRequest 3) demo_due) 3 = None"
proof -
  have pc: "pc demo_due = Running (TimeoutEvent 3)" by (simp add: demo_due_def)
  have "6 \<le> key_limit" by (simp add: key_limit_def)
  from looper_closes_its_own [OF demo_reach_due this, of 3] pc
  have "fds (exec (timeoutRequest 3) demo_due) = (fds demo_due)(3 := None)" by blast
  with pc show ?thesis by simp
qed

end
