(* ===== verification/Poker_Spec.thy ===== *)
theory Poker_Spec
  imports Poker_Safety
begin

text \<open>
  What the timeout poker promises, without keys, tables, messages, descriptor tables or command
  strings: a register of requests.  A request waits, is opened or refused, is in force until its
  due date or until its handle is dropped, and ends.  Every step of clients, looper and environment is
  a step of this register or changes nothing in it.
\<close>

section \<open>The register\<close>

datatype ticket =
    Waiting queued_event
  | Opening queued_event
  | Granted int int
  | Until int int
  | Ending int
  | Handle int int

fun ticket_fds :: "ticket \<Rightarrow> int multiset" where
  "ticket_fds (Granted fd timeout) = {#fd#}"
| "ticket_fds (Until fd due) = {#fd#}"
| "ticket_fds (Ending fd) = {#fd#}"
| "ticket_fds (Handle h fd) = {#h, fd#}"
| "ticket_fds _ = {#}"

record register =
  clock :: int
  tickets :: "ticket multiset"
  holders :: "int set"

definition in_use :: "register \<Rightarrow> int multiset" where
  "in_use b = (\<Sum>x \<in># tickets b. ticket_fds x)"

definition fresh :: "register \<Rightarrow> int \<Rightarrow> bool" where
  "fresh b fd \<longleftrightarrow> fd \<notin> holders b \<and> fd \<notin># in_use b"

fun timed_of :: "queued_event \<Rightarrow> int option" where
  "timed_of (PmQosOpenTimedEvent f v pr mx mn type timeout) = Some timeout"
| "timed_of _ = None"

fun asks_handle :: "queued_event \<Rightarrow> bool" where
  "asks_handle (PmQosOpenHandleEvent f v pr mx mn type call b) = True"
| "asks_handle _ = False"

inductive spec_step :: "register \<Rightarrow> register \<Rightarrow> bool" where
  s_ask: "timed_of e \<noteq> None \<or> asks_handle e \<Longrightarrow> spec_step b (b\<lparr>tickets := add_mset (Waiting e) (tickets b)\<rparr>)"
| s_tick: "clock b \<le> c \<Longrightarrow> spec_step b (b\<lparr>clock := c\<rparr>)"
| s_begin: "tickets b = add_mset (Waiting e) T \<Longrightarrow> spec_step b (b\<lparr>tickets := add_mset (Opening e) T\<rparr>)"
| s_refuse: "tickets b = add_mset (Opening e) T \<Longrightarrow> spec_step b (b\<lparr>tickets := T\<rparr>)"
| s_grant: "tickets b = add_mset (Opening e) T \<Longrightarrow> timed_of e = Some timeout \<Longrightarrow> fresh b fd \<Longrightarrow>
    spec_step b (b\<lparr>tickets := add_mset (Granted fd timeout) T\<rparr>)"
| s_arm: "tickets b = add_mset (Granted fd timeout) T \<Longrightarrow>
    spec_step b (b\<lparr>tickets := add_mset (Until fd (clock b + timeout)) T\<rparr>)"
| s_expire: "tickets b = add_mset (Until fd due) T \<Longrightarrow> due \<le> clock b \<Longrightarrow>
    spec_step b (b\<lparr>tickets := add_mset (Ending fd) T\<rparr>)"
| s_end: "tickets b = add_mset (Ending fd) T \<Longrightarrow> spec_step b (b\<lparr>tickets := T\<rparr>)"
| s_handle: "tickets b = add_mset (Opening e) T \<Longrightarrow> asks_handle e \<Longrightarrow>
    fresh b fd \<Longrightarrow> fresh b r \<Longrightarrow> fresh b h \<Longrightarrow> distinct [fd, r, h] \<Longrightarrow>
    spec_step b (b\<lparr>tickets := add_mset (Handle h fd) T, holders := insert r (holders b)\<rparr>)"
| s_drop: "tickets b = add_mset (Handle h fd) T \<Longrightarrow> spec_step b (b\<lparr>tickets := T\<rparr>)"
| s_open: "fresh b fd \<Longrightarrow> spec_step b (b\<lparr>holders := insert fd (holders b)\<rparr>)"
| s_close: "fd \<in> holders b \<Longrightarrow> spec_step b (b\<lparr>holders := holders b - {fd}\<rparr>)"

text \<open>The register's own promise: a request in force stays in force until it is due.\<close>

lemma spec_lease_step:
  assumes "spec_step b c" and "Until fd due \<in># tickets b" and "clock c < due"
  shows "Until fd due \<in># tickets c"
  using assms by cases auto

lemma spec_clock: "spec_step b c \<Longrightarrow> clock b \<le> clock c"
  by (cases rule: spec_step.cases) auto

lemma spec_lease:
  "spec_step\<^sup>*\<^sup>* b c \<Longrightarrow> Until fd due \<in># tickets b \<Longrightarrow> clock c < due \<Longrightarrow>
   Until fd due \<in># tickets c"
proof (induction rule: rtranclp_induct)
  case (step c d)
  have "Until fd due \<in># tickets c" using step.IH step.prems spec_clock [OF step.hyps(2)] by simp
  then show ?case using spec_lease_step [OF step.hyps(2)] step.prems(2) by simp
qed simp

section \<open>Reading the register off a state of the program\<close>

fun ticket_of :: "int \<times> queued_event \<Rightarrow> ticket" where
  "ticket_of (due, TimeoutEvent fd) = Until fd due"
| "ticket_of (due, e) = Waiting e"

fun pc_tickets :: "looper_pc \<Rightarrow> ticket multiset" where
  "pc_tickets (Running (TimeoutEvent fd)) = {#Ending fd#}"
| "pc_tickets (Running e) = {#Opening e#}"
| "pc_tickets (Arming fd timeout) = {#Granted fd timeout#}"
| "pc_tickets _ = {#}"

definition register_of :: "pproc \<Rightarrow> register" where
  "register_of s = \<lparr>clock = now s,
     tickets = image_mset ticket_of (queued (pk s)) + pc_tickets (pc s)
       + image_mset (\<lambda>(h, fd). Handle h fd) (mset (watched (pk s))),
     holders = clients s\<rparr>"

lemma ticket_of_fds: "ticket_fds (ticket_of x) = event_fds (snd x)"
  by (cases x rule: ticket_of.cases) simp_all

lemma pc_tickets_fds: "(\<Sum>x \<in># pc_tickets c. ticket_fds x) = pc_fds c"
  by (cases c rule: pc_tickets.cases) simp_all

lemma in_use_register: "in_use (register_of s) = owned s"
  by (simp add: in_use_def register_of_def owned_def queue_fds_def watch_fds_def pc_tickets_fds
      ticket_of_fds image_mset.compositionality comp_def case_prod_unfold)

lemma fresh_register: "accounted s \<Longrightarrow> fds s fd = None \<Longrightarrow> fresh (register_of s) fd"
  using accountedD(3) [of s fd] by (simp add: fresh_def in_use_register) (simp add: register_of_def)

lemma register_cong:
  "now t = now s \<Longrightarrow> pk t = pk s \<Longrightarrow> pc t = pc s \<Longrightarrow> clients t = clients s \<Longrightarrow> register_of t = register_of s"
  by (simp add: register_of_def)

section \<open>Every step of the program is a step of the register\<close>

definition handle_tickets :: "poker \<Rightarrow> ticket multiset" where
  "handle_tickets p = image_mset (\<lambda>(h, fd). Handle h fd) (mset (watched p))"

lemma tickets_register:
  "tickets (register_of s) = image_mset ticket_of (queued (pk s)) + pc_tickets (pc s) + handle_tickets (pk s)"
  "clock (register_of s) = now s" "holders (register_of s) = clients s"
  by (simp_all add: register_of_def handle_tickets_def)

lemma register_eqI:
  "clock b = now t \<Longrightarrow> holders b = clients t \<Longrightarrow>
   tickets b = image_mset ticket_of (queued (pk t)) + pc_tickets (pc t) + handle_tickets (pk t) \<Longrightarrow>
   register_of t = b"
  by (simp add: register_of_def handle_tickets_def)

lemma sim_ask:
  assumes ok: "table_ok n (pk s)" and n: "n < key_limit"
    and "pk t = sendEventDelayed due d e (pk s)" and "pc t = pc s" and "now t = now s" and "clients t = clients s"
    and "timed_of e \<noteq> None \<or> asks_handle e"
  shows "spec_step (register_of s) (register_of t)"
proof -
  have w: "ticket_of (due + d, e) = Waiting e" using assms(7) by (cases e) simp_all
  have "register_of t = (register_of s)\<lparr>tickets := add_mset (Waiting e) (tickets (register_of s))\<rparr>"
    by (rule register_eqI) (simp_all add: assms(3-6) eq.send(2) [OF ok n] w tickets_register handle_tickets_def)
  then show ?thesis using s_ask [OF assms(7)] by simp
qed

lemma sim_client_open:
  fixes s :: pproc
  assumes acc: "accounted s"
    and eff: "\<exists>e l. exec m s = s\<lparr>fds := opened_fds s f, errno := e, wlog := l\<rparr>"
    and res: "result m s = (case opened s f O_RDWR of None \<Rightarrow> - 1 | Some fd \<Rightarrow> fd)"
    and t: "t = claim (result m s) (exec m s)"
  shows "register_of t = register_of s \<or> spec_step (register_of s) (register_of t)"
proof -
  obtain e l where e: "exec m s = s\<lparr>fds := opened_fds s f, errno := e, wlog := l\<rparr>" using eff by blast
  show ?thesis
  proof (cases "opened s f O_RDWR")
    case None
    then show ?thesis by (intro disjI1 register_cong) (simp_all add: t claim_def e res)
  next
    case (Some fd)
    note o = opened_Some [OF Some]
    have "register_of t = (register_of s)\<lparr>holders := insert fd (holders (register_of s))\<rparr>"
      using o by (intro register_eqI) (simp_all add: t claim_def e res Some tickets_register)
    then show ?thesis using s_open [OF fresh_register [OF acc o(1)]] by simp
  qed
qed

lemma sim_deliver:
  assumes ok: "table_ok n (pk s)" and pc: "pc s = Polling" and m: "(d, k) \<in> set (mailbox (pk s))"
    and due: "d \<le> now s"
  shows "spec_step (register_of s) (register_of (deliver d k s))"
proof -
  obtain e p' where tk: "take_message d k (pk s) = (Some e, p')" and q: "queued (pk s) = add_mset (d, e) (queued p')"
    by (rule eq.take_someE [OF ok m])
  have d: "deliver d k s = s\<lparr>pk := p', pc := Running e\<rparr>" by (simp add: deliver_def tk)
  have h: "handle_tickets p' = handle_tickets (pk s)" using watched_take [OF tk] by (simp add: handle_tickets_def)
  let ?T = "image_mset ticket_of (queued p') + handle_tickets (pk s)"
  show ?thesis
  proof (cases "\<exists>fd. e = TimeoutEvent fd")
    case True
    then obtain fd where e: "e = TimeoutEvent fd" by blast
    have "register_of (deliver d k s) = (register_of s)\<lparr>tickets := add_mset (Ending fd) ?T\<rparr>"
      by (rule register_eqI) (simp_all add: d e tickets_register h)
    moreover have "tickets (register_of s) = add_mset (Until fd d) ?T" by (simp add: tickets_register q e pc)
    ultimately show ?thesis using s_expire [of "register_of s" fd d ?T] due by (simp add: tickets_register)
  next
    case False
    then have w: "ticket_of (d, e) = Waiting e" "pc_tickets (Running e) = {#Opening e#}" by (cases e; simp)+
    have "register_of (deliver d k s) = (register_of s)\<lparr>tickets := add_mset (Opening e) ?T\<rparr>"
      by (rule register_eqI) (simp_all add: d w tickets_register h)
    moreover have "tickets (register_of s) = add_mset (Waiting e) ?T" by (simp add: tickets_register q w pc)
    ultimately show ?thesis using s_begin by simp
  qed
qed

lemma sim_open:
  fixes s :: pproc
  assumes acc: "accounted s" and pc: "pc s = Running e" and e: "e = PmQosOpenTimedEvent f v pr mx mn type timeout"
    and t: "t = (exec (open_for f v pr mx mn type) s)
      \<lparr>pc := after_open timeout (result (open_for f v pr mx mn type) s)\<rparr>"
  shows "spec_step (register_of s) (register_of t)"
proof -
  obtain err l where o: "exec (open_for f v pr mx mn type) s = s\<lparr>fds := opened_fds s f, errno := err, wlog := l\<rparr>"
    using open_for_effect by blast
  let ?T = "image_mset ticket_of (queued (pk s)) + handle_tickets (pk s)"
  have b: "tickets (register_of s) = add_mset (Opening e) ?T" by (simp add: tickets_register pc e)
  show ?thesis
  proof (cases "opened s f O_RDWR")
    case None
    have "register_of t = (register_of s)\<lparr>tickets := ?T\<rparr>"
      by (rule register_eqI) (simp_all add: t o open_for_result None after_open_def tickets_register)
    then show ?thesis using s_refuse [OF b] by simp
  next
    case (Some fd)
    note of = opened_Some [OF Some]
    have "register_of t = (register_of s)\<lparr>tickets := add_mset (Granted fd timeout) ?T\<rparr>"
      using of by (intro register_eqI) (simp_all add: t o open_for_result Some after_open_def tickets_register)
    then show ?thesis using s_grant [OF b _ fresh_register [OF acc of(1)]] e by simp
  qed
qed

lemma sim_run_handle:
  fixes s t :: pproc
  assumes acc: "accounted s" and ok: "\<forall>h. addFd_ok s h"
    and pc: "pc s = Running (PmQosOpenHandleEvent f v pr mx mn type call b)"
    and t: "t = claim_handle call
      ((exec (run_event (PmQosOpenHandleEvent f v pr mx mn type call b)) s)\<lparr>pc := Polling\<rparr>)"
  shows "spec_step (register_of s) (register_of t)"
proof -
  let ?e = "PmQosOpenHandleEvent f v pr mx mn type call b"
  let ?T = "image_mset ticket_of (queued (pk s)) + handle_tickets (pk s)"
  have b: "tickets (register_of s) = add_mset (Opening ?e) ?T" by (simp add: tickets_register pc)
  show ?thesis
  proof (cases rule: run_handle_cases [OF t])
    case 1
    have "register_of t = (register_of s)\<lparr>tickets := ?T\<rparr>"
      by (rule register_eqI) (simp_all add: 1 tickets_register)
    then show ?thesis using s_refuse [OF b] by simp
  next
    case (2 fd r w)
    have "queued (pk t) = queued (pk s)" and "handle_tickets (pk t) = add_mset (Handle w fd) (handle_tickets (pk s))"
      using ok by (simp_all add: 2 queued_def handle_tickets_def)
    then have "register_of t = (register_of s)\<lparr>tickets := add_mset (Handle w fd) ?T,
        holders := insert r (holders (register_of s))\<rparr>"
      by (intro register_eqI) (simp_all add: 2(7,10,12) tickets_register)
    moreover have "fresh (register_of s) fd" "fresh (register_of s) r" "fresh (register_of s) w"
      using 2(1-3) by (simp_all add: fresh_register [OF acc])
    ultimately show ?thesis using s_handle [OF b, of fd r w] 2(4-6) by simp
  qed
qed

lemma sim_hangup:
  fixes s :: pproc
  assumes acc: "accounted s" and pc: "pc s = Polling" and w: "(h, fd) \<in> set (watched (pk s))"
  shows "spec_step (register_of s) (register_of (exec (pipeCloseCb h True fd) s))"
proof -
  let ?p = "(pk s)\<lparr>watched := filter (\<lambda>(x, _). x \<noteq> h) (watched (pk s))\<rparr>"
  let ?T = "image_mset ticket_of (queued (pk s)) + handle_tickets ?p"
  have "handle_tickets (pk s) = add_mset (Handle h fd) (handle_tickets ?p)"
    unfolding handle_tickets_def by (subst watched_owned(4) [OF acc w]) simp
  then have b: "tickets (register_of s) = add_mset (Handle h fd) ?T" by (simp add: tickets_register pc)
  have "queued ?p = queued (pk s)" by (simp add: queued_def)
  then have "register_of (exec (pipeCloseCb h True fd) s) = (register_of s)\<lparr>tickets := ?T\<rparr>"
    by (intro register_eqI) (simp_all add: exec_hangup [OF acc w] pc tickets_register)
  then show ?thesis using s_drop [OF b] by simp
qed

lemma sim_arm:
  fixes s :: pproc
  assumes ok: "table_ok n (pk s)" and n: "n < key_limit" and pc: "pc s = Arming fd timeout"
  shows "spec_step (register_of s) (register_of ((exec (armTimeout timeout fd) s)\<lparr>pc := Polling\<rparr>))"
proof -
  let ?T = "image_mset ticket_of (queued (pk s)) + handle_tickets (pk s)"
  have b: "tickets (register_of s) = add_mset (Granted fd timeout) ?T" by (simp add: tickets_register pc)
  have "register_of ((exec (armTimeout timeout fd) s)\<lparr>pc := Polling\<rparr>)
      = (register_of s)\<lparr>tickets := add_mset (Until fd (clock (register_of s) + timeout)) ?T\<rparr>"
    by (rule register_eqI) (simp_all add: armTimeout_def eq.send(2) [OF ok n] tickets_register handle_tickets_def)
  then show ?thesis using s_arm [OF b] by simp
qed

lemma sim_close:
  fixes s :: pproc
  assumes pc: "pc s = Running (TimeoutEvent fd)"
  shows "spec_step (register_of s) (register_of ((exec (timeoutRequest fd) s)\<lparr>pc := Polling\<rparr>))"
proof -
  let ?T = "image_mset ticket_of (queued (pk s)) + handle_tickets (pk s)"
  have b: "tickets (register_of s) = add_mset (Ending fd) ?T" by (simp add: tickets_register pc)
  have "register_of ((exec (timeoutRequest fd) s)\<lparr>pc := Polling\<rparr>) = (register_of s)\<lparr>tickets := ?T\<rparr>"
    by (rule register_eqI) (simp_all add: timeoutRequest_def tickets_register)
  then show ?thesis using s_end [OF b] by simp
qed

lemma sim_step:
  assumes inv: "pinv n s" and step: "pstep s t" and n: "n < key_limit"
  shows "register_of t = register_of s \<or> spec_step (register_of s) (register_of t)"
proof -
  have acc: "accounted s" and ok: "table_ok n (pk s)" and add: "\<forall>h. addFd_ok s h"
    using inv by (simp_all add: pinv_def)
  show ?thesis
    using step
  proof cases
    case (p_timed f v timeout)
    show ?thesis
      by (rule disjI2, rule sim_ask [OF ok n, where due = "now s" and d = 0 and e = "timed_event f v timeout"])
        (simp_all add: p_timed requestPmQosTimed_def pushEvent_def timed_event_def)
  next
    case (p_timed_priority f pr mx mn timeout)
    show ?thesis
      by (rule disjI2, rule sim_ask [OF ok n, where due = "now s" and d = 0 and e = "timed_event_priority f pr mx mn timeout"])
        (simp_all add: p_timed_priority requestPmQosTimed_priority_def pushEvent_def timed_event_priority_def)
  next
    case (p_handle f v call)
    show ?thesis
      by (rule disjI2, rule sim_ask [OF ok n, where due = "now s" and d = 0 and e = "handle_event f v call call"])
        (simp_all add: p_handle createPmQosHandle_def pushEvent_def handle_event_def)
  next
    case (p_handle_priority f pr mx mn call)
    show ?thesis
      by (rule disjI2, rule sim_ask [OF ok n, where due = "now s" and d = 0 and e = "handle_event_priority f pr mx mn call call"])
        (simp_all add: p_handle_priority createPmQosHandle_priority_def pushEvent_def handle_event_priority_def)
  next
    case (p_client_open f v)
    show ?thesis by (rule sim_client_open [OF acc requestPmQos_effect p_client_open])
  next
    case (p_client_open_priority f pr mx mn)
    show ?thesis by (rule sim_client_open [OF acc requestPmQos_priority_effect p_client_open_priority])
  next
    case (p_client_close fd)
    obtain x where "fds s fd = Some x" using accountedD(2) [OF acc p_client_close(2)] by auto
    then have "register_of t = (register_of s)\<lparr>holders := holders (register_of s) - {fd}\<rparr>"
      by (intro register_eqI) (simp_all add: p_client_close(1) tickets_register)
    then show ?thesis using s_close [of fd "register_of s"] p_client_close(2) by (simp add: tickets_register)
  next
    case (p_environment t' N)
    have "register_of t = (register_of s)\<lparr>clock := t'\<rparr>"
      by (rule register_eqI) (simp_all add: p_environment(1) tickets_register)
    then show ?thesis using s_tick [of "register_of s" t'] p_environment(2) by (simp add: tickets_register)
  next
    case (p_deliver d k)
    then show ?thesis using sim_deliver [OF ok] by simp
  next
    case (p_open f v pr mx mn type timeout)
    show ?thesis using sim_open [OF acc p_open(2) refl p_open(1)] by (rule disjI2)
  next
    case (p_arm fd timeout)
    then show ?thesis using sim_arm [OF ok n] by simp
  next
    case (p_close fd)
    then show ?thesis using sim_close by simp
  next
    case (p_run_handle f v pr mx mn type call b)
    show ?thesis using sim_run_handle [OF acc add p_run_handle(2,1)] by (rule disjI2)
  next
    case (p_hangup h fd)
    then show ?thesis using sim_hangup [OF acc] by simp
  qed
qed

interpretation pspec: functional_simulation pinit pstep pinv key_limit register_of spec_step
  by unfold_locales (rule sim_step)

section \<open>Properties\<close>

lemma register_init: "pinit s \<Longrightarrow> register_of s = \<lparr>clock = now s, tickets = {#}, holders = clients s\<rparr>"
  using eq.empty(2) by (simp add: pinit_def register_of_def) (simp add: new_poker_def)

definition demo_leased :: pproc where
  "demo_leased = demo_armed\<lparr>pk := sendEventDelayed 0 100 (TimeoutEvent 3) (new_poker\<lparr>mKey := 1\<rparr>), pc := Polling\<rparr>"

lemma demo_step_leased: "pstep demo_armed demo_leased"
proof -
  have "pstep demo_armed ((exec (armTimeout 100 3) demo_armed)\<lparr>pc := Polling\<rparr>)"
    by (rule p_arm) (simp add: demo_armed_def)
  then show ?thesis by (simp add: demo_leased_def armTimeout_def demo_armed_def demo_proc_def)
qed

lemma demo_reach_leased: "reach pinit pstep 4 demo_leased"
  using pstep_reach [OF demo_reach_armed demo_step_leased] by (simp add: eval_nat_numeral)

lemma demo_registers:
  "tickets (register_of demo_armed) = {#Granted 3 100#}" "tickets (register_of demo_leased) = {#Until 3 100#}"
  by (simp_all add: tickets_register demo_armed_def demo_leased_def handle_tickets_def queued_def new_poker_def
      sendEventDelayed_def generateNewKey_def event_of_def)

text \<open>
  C3. The poker implements the register of requests.  Whatever clients, looper and environment do,
  the requests of the program go through the phases of the register in its order: a request is
  opened on a descriptor nobody uses, its due date is set from the time it was granted, it ends
  only when due; and the descriptors open in the program are those of the register.
\<close>

theorem poker_refines_register:
  assumes "reach pinit pstep n s" and "run pstep m s t" and "n + m \<le> key_limit"
  shows "(\<exists>c H. spec_step\<^sup>*\<^sup>* \<lparr>clock = c, tickets = {#}, holders = H\<rparr> (register_of s))
    \<and> spec_step\<^sup>*\<^sup>* (register_of s) (register_of t)
    \<and> {fd. fds t fd \<noteq> None} = holders (register_of t) \<union> set_mset (in_use (register_of t))"
proof -
  have inv: "pinv n s" using poker.reach_inv [OF assms(1)] assms(3) by simp
  obtain s0 where "pinit s0" "spec_step\<^sup>*\<^sup>* (register_of s0) (register_of s)"
    using pspec.reach_simulates [OF assms(1)] assms(3) by auto
  then have 1: "\<exists>c H. spec_step\<^sup>*\<^sup>* \<lparr>clock = c, tickets = {#}, holders = H\<rparr> (register_of s)"
    using register_init [of s0] by auto
  have "accounted t" using poker.run_inv [OF assms(2) inv assms(3)] by (simp add: pinv_def)
  then have "{fd. fds t fd \<noteq> None} = clients t \<union> set_mset (owned t)" using accounted_owner by blast
  then show ?thesis
    using 1 pspec.run_simulates [OF assms(2) inv assms(3)] by (simp add: in_use_register tickets_register(3))
qed

theorem poker_refines_register_witness:
  "spec_step\<^sup>*\<^sup>* (register_of demo_armed) (register_of demo_leased)
   \<and> {fd. fds demo_leased fd \<noteq> None} = {0, 1, 2} \<union> {3}"
proof -
  have "run pstep (Suc 0) demo_armed demo_leased" using demo_step_leased by (rule run_single)
  from poker_refines_register [OF demo_reach_armed this]
  show ?thesis by (simp add: key_limit_def in_use_def demo_registers) (simp add: register_of_def demo_leased_def
      demo_armed_def demo_proc_def)
qed

text \<open>
  A request in force stays in force.  Once the due date of a timed request is set, the request
  is neither forgotten nor ended before that date, in any interleaving.
\<close>

theorem lease_kept:
  assumes "reach pinit pstep n s" and "run pstep m s t" and "n + m \<le> key_limit"
    and "Until fd due \<in># tickets (register_of s)" and "now t < due"
  shows "Until fd due \<in># tickets (register_of t) \<and> (due, TimeoutEvent fd) \<in># queued (pk t) \<and> fds t fd \<noteq> None"
proof -
  have inv: "pinv n s" using poker.reach_inv [OF assms(1)] assms(3) by simp
  have "Until fd due \<in># tickets (register_of t)"
    using spec_lease [OF pspec.run_simulates [OF assms(2) inv assms(3)] assms(4)] assms(5)
    by (simp add: tickets_register(2))
  moreover have "ticket_of x = Until fd due \<Longrightarrow> x = (due, TimeoutEvent fd)" for x
    by (cases x rule: ticket_of.cases) simp_all
  moreover have "Until fd due \<notin># pc_tickets (pc t) + handle_tickets (pk t)"
    by (cases "pc t" rule: pc_tickets.cases) (auto simp: handle_tickets_def)
  ultimately have q: "Until fd due \<in># tickets (register_of t)" "(due, TimeoutEvent fd) \<in># queued (pk t)"
    by (auto simp: tickets_register(1))
  then have "fd \<in># owned t" by (auto simp: owned_def queue_fds_def intro: bexI [rotated])
  moreover have "accounted t" using poker.run_inv [OF assms(2) inv assms(3)] by (simp add: pinv_def)
  ultimately show ?thesis using q accountedD(1) [of t fd] by simp
qed

theorem lease_kept_witness:
  "Until 3 100 \<in># tickets (register_of (demo_leased\<lparr>nodes := Map.empty, now := 99\<rparr>))"
proof -
  have "pstep demo_leased (demo_leased\<lparr>nodes := Map.empty, now := 99\<rparr>)"
    by (rule p_environment) (simp add: demo_leased_def demo_armed_def demo_proc_def)
  then have "run pstep (Suc 0) demo_leased (demo_leased\<lparr>nodes := Map.empty, now := 99\<rparr>)" by (rule run_single)
  from lease_kept [OF demo_reach_leased this, of 3 100] show ?thesis by (simp add: key_limit_def demo_registers)
qed

end
