(* ===== verification/Poker_Drain.thy ===== *)
theory Poker_Drain
  imports Poker_Safety
begin

text \<open>
  The looper thread alone: \<open>handleMessage\<close>, run as one call, is a run of the step relation, and a
  looper that keeps taking messages, in whatever order it picks them, empties its mailbox after
  a number of turns known in advance and has then closed every timed request.
\<close>

section \<open>One message as a run of steps\<close>

text \<open>The caller of \<open>createPmQosHandle\<close> takes over the descriptor the looper left for it.\<close>

fun hand_over :: "queued_event \<Rightarrow> pproc \<Rightarrow> pproc" where
  "hand_over (PmQosOpenHandleEvent f v pr mx mn type call b) s = claim_handle call s"
| "hand_over e s = s"

definition dispatch :: "int \<Rightarrow> u32 \<Rightarrow> pproc \<Rightarrow> pproc" where
  "dispatch d k s =
     (let s' = s\<lparr>pk := (pk s)\<lparr>mailbox := remove1 (d, k) (mailbox (pk s))\<rparr>\<rparr>
      in case mQueuedEvents (pk s) k of
        None \<Rightarrow> (exec (handleMessage k) s')\<lparr>pc := Crashed\<rparr>
      | Some e \<Rightarrow> hand_over e (exec (handleMessage k) s'))"

lemma deliver_Some:
  "mQueuedEvents (pk s) k = Some e \<Longrightarrow>
   deliver d k s = s\<lparr>pk := snd (take_message d k (pk s)), pc := Running e\<rparr>"
  by (simp add: deliver_def take_message_def removeEventByKey_def split: prod.split)

lemma dispatch_Some:
  assumes "mQueuedEvents (pk s) k = Some e"
  shows "dispatch d k s = hand_over e (exec (run_event e) (s\<lparr>pk := snd (take_message d k (pk s))\<rparr>))"
  using assms by (simp add: dispatch_def handleMessage_def take_message_def removeEventByKey_def Let_def)

lemma exec_run_timed:
  "exec (run_event (PmQosOpenTimedEvent f v pr mx mn type timeout)) s
    = (let fd = result (open_for f v pr mx mn type) s; t = exec (open_for f v pr mx mn type) s
       in if fd < 0 then t else exec (armTimeout timeout fd) t)"
  by (simp add: open_for_def openPmQosTimed_def openPmQosTimed_priority_def Let_def)

text \<open>No routine of the looper looks at the program counter, which is not part of the program's state.\<close>

definition pc_free :: "(pproc, 'a) state \<Rightarrow> bool" where
  "pc_free m \<longleftrightarrow> (\<forall>s c. exec m (s\<lparr>pc := c\<rparr>) = (exec m s)\<lparr>pc := c\<rparr> \<and> result m (s\<lparr>pc := c\<rparr>) = result m s)"

lemma pc_free_combinators:
  "pc_free (ret x)"
  "pc_free m \<Longrightarrow> (\<And>x. pc_free (f x)) \<Longrightarrow> pc_free (m \<bind> f)"
  "pc_free m \<Longrightarrow> pc_free m' \<Longrightarrow> pc_free (if b then m else m')"
  "(\<And>s c. g (s\<lparr>pc := c\<rparr>) = (g s)\<lparr>pc := c\<rparr>) \<Longrightarrow> pc_free (modify g)"
  "(\<And>s c. h (s\<lparr>pc := c\<rparr>) = h s) \<Longrightarrow> pc_free (gets h)"
  by (simp_all add: pc_free_def)

lemma free_fd_pc [simp]: "free_fd (s\<lparr>pc := c\<rparr>) = free_fd s" for s :: pproc
  by (simp add: free_fd_def fd_slots_def)

lemma opened_pc [simp]:
  "open_error (s\<lparr>pc := c\<rparr>) = open_error s" "opened (s\<lparr>pc := c\<rparr>) = opened s" for s :: pproc
  by (auto simp: fun_eq_iff open_error_def opened_def split: option.split)

lemma pc_free_kernel:
  "pc_free (k_open p fl)" "pc_free (k_close fd)" "pc_free (k_write fd d)" "pc_free k_pipe"
proof -
  show "pc_free (k_open p fl)" and "pc_free (k_close fd)"
    by (auto simp: pc_free_def split: option.split)
  show "pc_free (k_write fd d)"
    by (auto simp: pc_free_def k_write_def driver_write_def split: option.split ofile.split sum.split)
  have f: "free_fd (s\<lparr>fds := x, pc := c\<rparr>) = free_fd (s\<lparr>fds := x\<rparr>)" for s :: pproc and x c
    by (simp add: free_fd_def fd_slots_def)
  have "free_fd (s\<lparr>pc := c, fds := x\<rparr>) = free_fd (s\<lparr>fds := x\<rparr>)" for s :: pproc and x c
    by (simp add: free_fd_def fd_slots_def)
  then show "pc_free k_pipe" by (auto simp: pc_free_def k_pipe_def split: option.split)
qed

lemma pc_free_case_option:
  "pc_free m \<Longrightarrow> (\<And>x. pc_free (f x)) \<Longrightarrow> pc_free (case y of None \<Rightarrow> m | Some x \<Rightarrow> f x)"
  by (cases y) simp_all

lemma pc_free_case_prod: "(\<And>a b. pc_free (f a b)) \<Longrightarrow> pc_free (case x of (a, b) \<Rightarrow> f a b)"
  by (cases x) simp

lemmas pc_free_intros = pc_free_combinators pc_free_kernel pc_free_case_option pc_free_case_prod

lemma pc_free_createHandleForFd: "pc_free (createHandleForFd fd)"
  unfolding createHandleForFd_def listenForHandleToCloseFd_def looper_addFd_def Let_def
  by (intro pc_free_intros) simp_all

lemma pc_free_open_for: "pc_free (open_for f v pr mx mn type)"
  unfolding open_for_def openPmQosNode_def openPmQosNode_priority_def by (intro pc_free_intros)

lemma pc_free_arm: "pc_free (armTimeout timeout fd)"
  unfolding armTimeout_def by (intro pc_free_intros) simp

lemma pc_free_run_event: "pc_free (run_event e)"
proof (cases e)
  case (PmQosOpenTimedEvent f v pr mx mn type timeout)
  show ?thesis
    unfolding PmQosOpenTimedEvent run_event.simps openPmQosTimed_def openPmQosTimed_priority_def
      openPmQosNode_def openPmQosNode_priority_def
    by (intro pc_free_intros pc_free_arm)
next
  case (PmQosOpenHandleEvent f v pr mx mn type call b)
  show ?thesis
    unfolding PmQosOpenHandleEvent run_event.simps createHandleForPmQosRequest_def
      createHandleForPmQosRequest_priority_def openPmQosNode_def openPmQosNode_priority_def
    by (intro pc_free_intros pc_free_createHandleForFd) simp_all
next
  case (TimeoutEvent fd)
  show ?thesis unfolding TimeoutEvent run_event.simps timeoutRequest_def by (intro pc_free_intros)
qed

lemma pc_freeD: "pc_free m \<Longrightarrow> exec m (s\<lparr>pc := c\<rparr>) = (exec m s)\<lparr>pc := c\<rparr>"
  and pc_free_resultD: "pc_free m \<Longrightarrow> result m (s\<lparr>pc := c\<rparr>) = result m s"
  by (simp_all add: pc_free_def)

lemma pc_same: "pc_free m \<Longrightarrow> pc (exec m s) = pc s"
  by (metis pc_freeD pproc.select_convs(1) pproc.simps(1) pproc.surjective pproc.update_convs(1))

lemma pc_upd_same: "pc s = c \<Longrightarrow> s\<lparr>pc := c\<rparr> = s" for s :: pproc
  by simp

lemma exec_pc_twice:
  assumes "pc_free m" and "pc s = Polling"
  shows "(exec m (s\<lparr>pc := c\<rparr>))\<lparr>pc := Polling\<rparr> = exec m s"
  using pc_freeD [OF assms(1)] pc_same [OF assms(1), of s] assms(2) by (simp add: pc_upd_same)

section \<open>The steps behind one message\<close>

lemma run_two: "step s t \<Longrightarrow> step t u \<Longrightarrow> run step (Suc (Suc 0)) s u"
  using run_single run_snoc by metis

lemma run_three: "step s t \<Longrightarrow> step t u \<Longrightarrow> step u v \<Longrightarrow> run step (Suc (Suc (Suc 0))) s v"
  by (rule run_snoc [OF run_two])

text \<open>
  The steps of the looper when nobody else runs: it waits, takes a message, and runs its event.  They
  are steps of the poker.
\<close>

inductive lstep :: "pproc \<Rightarrow> pproc \<Rightarrow> bool" where
  l_wait: "now s \<le> t \<Longrightarrow> lstep s (s\<lparr>now := t\<rparr>)"
| l_deliver: "pc s = Polling \<Longrightarrow> (d, k) \<in> set (mailbox (pk s)) \<Longrightarrow> d \<le> now s \<Longrightarrow> lstep s (deliver d k s)"
| l_open: "pc s = Running (PmQosOpenTimedEvent f v pr mx mn type timeout) \<Longrightarrow>
    lstep s ((exec (open_for f v pr mx mn type) s)
      \<lparr>pc := after_open timeout (result (open_for f v pr mx mn type) s)\<rparr>)"
| l_arm: "pc s = Arming fd timeout \<Longrightarrow> lstep s ((exec (armTimeout timeout fd) s)\<lparr>pc := Polling\<rparr>)"
| l_close: "pc s = Running (TimeoutEvent fd) \<Longrightarrow> lstep s ((exec (timeoutRequest fd) s)\<lparr>pc := Polling\<rparr>)"
| l_run_handle: "pc s = Running (PmQosOpenHandleEvent f v pr mx mn type call b) \<Longrightarrow>
    lstep s (claim_handle call
      ((exec (run_event (PmQosOpenHandleEvent f v pr mx mn type call b)) s)\<lparr>pc := Polling\<rparr>))"

lemma lstep_pstep: "lstep s t \<Longrightarrow> pstep s t"
proof (induction rule: lstep.induct)
  case (l_wait s t)
  then show ?case using p_environment [of s t "nodes s"] by simp
qed (rule p_deliver p_open p_arm p_close p_run_handle; assumption)+

lemma run_lstep: "run lstep m s t \<Longrightarrow> run pstep m s t"
  by (erule run_mono) (rule lstep_pstep)

lemma timed_event_runs:
  assumes pc: "pc s = Polling" and e: "e = PmQosOpenTimedEvent f v pr mx mn type timeout"
    and 1: "lstep s0 (s\<lparr>pc := Running e\<rparr>)"
  shows "\<exists>m \<le> 3. run lstep m s0 (exec (run_event e) s)"
proof -
  let ?o = "open_for f v pr mx mn type" and ?r = "s\<lparr>pc := Running e\<rparr>"
  let ?t = "(exec ?o ?r)\<lparr>pc := after_open timeout (result ?o ?r)\<rparr>"
  have 2: "lstep ?r ?t" by (rule l_open) (simp add: e)
  have o: "exec ?o (s\<lparr>pc := c\<rparr>) = (exec ?o s)\<lparr>pc := c\<rparr>" "result ?o (s\<lparr>pc := c\<rparr>) = result ?o s" for c
    using pc_free_open_for pc_freeD pc_free_resultD by blast+
  have r: "exec (run_event e) s = (if result ?o s < 0 then exec ?o s
      else exec (armTimeout timeout (result ?o s)) (exec ?o s))"
    unfolding e exec_run_timed Let_def ..
  have po: "pc (exec ?o s) = Polling" using pc_same [OF pc_free_open_for] pc by simp
  show ?thesis
  proof (cases "result ?o s < 0")
    case True
    then have "?t = exec (run_event e) s"
      using po by (simp add: r o after_open_def pc_upd_same)
    then have "run lstep (Suc (Suc 0)) s0 (exec (run_event e) s)" using run_two [of lstep, OF 1 2] by simp
    then show ?thesis by (intro exI [of _ 2]) (simp add: eval_nat_numeral)
  next
    case False
    let ?a = "armTimeout timeout (result ?o s)"
    have t: "?t = (exec ?o s)\<lparr>pc := Arming (result ?o s) timeout\<rparr>" using False by (simp add: o after_open_def)
    have "lstep ?t ((exec ?a ?t)\<lparr>pc := Polling\<rparr>)" by (rule l_arm) (simp add: t)
    moreover have "(exec ?a ?t)\<lparr>pc := Polling\<rparr> = exec (run_event e) s"
      using False exec_pc_twice [OF pc_free_arm po] by (simp add: r t)
    ultimately have "run lstep (Suc (Suc (Suc 0))) s0 (exec (run_event e) s)"
      using run_three [of lstep, OF 1 2] by simp
    then show ?thesis by (intro exI [of _ 3]) (simp add: eval_nat_numeral)
  qed
qed

lemma event_runs:
  assumes pc: "pc s = Polling" and 1: "lstep s0 (s\<lparr>pc := Running e\<rparr>)"
  shows "\<exists>m \<le> 3. run lstep m s0 (hand_over e (exec (run_event e) s))"
proof (cases e)
  case (PmQosOpenTimedEvent f v pr mx mn type timeout)
  then show ?thesis using timed_event_runs [OF pc _ 1] by simp
next
  case (PmQosOpenHandleEvent f v pr mx mn type call b)
  let ?r = "s\<lparr>pc := Running e\<rparr>"
  have "lstep ?r (claim_handle call ((exec (run_event e) ?r)\<lparr>pc := Polling\<rparr>))"
    unfolding PmQosOpenHandleEvent by (rule l_run_handle) simp
  moreover have "(exec (run_event e) ?r)\<lparr>pc := Polling\<rparr> = exec (run_event e) s"
    by (rule exec_pc_twice [OF pc_free_run_event pc])
  ultimately have "run lstep (Suc (Suc 0)) s0 (hand_over e (exec (run_event e) s))"
    using run_two [of lstep, OF 1] by (simp add: PmQosOpenHandleEvent)
  then show ?thesis by (intro exI [of _ 2]) (simp add: eval_nat_numeral)
next
  case (TimeoutEvent fd)
  let ?r = "s\<lparr>pc := Running e\<rparr>"
  have "lstep ?r ((exec (timeoutRequest fd) ?r)\<lparr>pc := Polling\<rparr>)" by (rule l_close) (simp add: TimeoutEvent)
  moreover have "(exec (run_event e) ?r)\<lparr>pc := Polling\<rparr> = exec (run_event e) s"
    by (rule exec_pc_twice [OF pc_free_run_event pc])
  ultimately have "run lstep (Suc (Suc 0)) s0 (hand_over e (exec (run_event e) s))"
    using run_two [of lstep, OF 1] by (simp add: TimeoutEvent)
  then show ?thesis by (intro exI [of _ 2]) (simp add: eval_nat_numeral)
qed

lemma dispatch_runs:
  assumes "pc s = Polling" and "(d, k) \<in> set (mailbox (pk s))" and "d \<le> now s"
    and "mQueuedEvents (pk s) k = Some e"
  shows "\<exists>m \<le> 3. run lstep m s (dispatch d k s)"
proof -
  let ?s = "s\<lparr>pk := snd (take_message d k (pk s))\<rparr>"
  have "lstep s (?s\<lparr>pc := Running e\<rparr>)"
    using l_deliver [OF assms(1-3)] by (simp add: deliver_Some [OF assms(4)])
  from event_runs [OF _ this] show ?thesis using assms(1) by (simp add: dispatch_Some [OF assms(4)])
qed

section \<open>Draining the mailbox\<close>

text \<open>How many messages an event still costs: a timed request costs a second one that ends it.\<close>

fun turns_of :: "queued_event \<Rightarrow> nat" where
  "turns_of (PmQosOpenTimedEvent f v pr mx mn type timeout) = 2"
| "turns_of e = 1"

definition turns :: "poker \<Rightarrow> nat" where
  "turns p = (\<Sum>x \<in># queued p. turns_of (snd x))"

text \<open>
  One turn of a looper left alone: it picks some message, sleeps until the message is due, and
  handles it.
\<close>

definition wait_for :: "int \<Rightarrow> pproc \<Rightarrow> pproc" where
  "wait_for d s = s\<lparr>now := max (now s) d\<rparr>"

definition serve :: "(pproc \<Rightarrow> int \<times> u32) \<Rightarrow> pproc \<Rightarrow> pproc" where
  "serve pick s =
     (if mailbox (pk s) = [] then s
      else let (d, k) = pick s in dispatch d k (wait_for d s))"

lemma turns_of_pos: "0 < turns_of e"
  by (cases e) simp_all

text \<open>An event other than a timed request sends no message.\<close>

lemma run_event_queue:
  fixes s :: pproc
  assumes "table_ok n (pk s)" and "n < key_limit"
  shows "\<exists>es. queued (pk (exec (run_event e) s)) = queued (pk s) + es
     \<and> (\<Sum>x \<in># es. turns_of (snd x)) < turns_of e"
proof (cases e)
  case (PmQosOpenTimedEvent f v pr mx mn type timeout)
  obtain err l where o: "exec (open_for f v pr mx mn type) s = s\<lparr>fds := opened_fds s f, errno := err, wlog := l\<rparr>"
    using open_for_effect by blast
  have r: "exec (run_event e) s = (if result (open_for f v pr mx mn type) s < 0 then exec (open_for f v pr mx mn type) s
      else exec (armTimeout timeout (result (open_for f v pr mx mn type) s)) (exec (open_for f v pr mx mn type) s))"
    unfolding PmQosOpenTimedEvent exec_run_timed Let_def ..
  have w: "turns_of e = 2" by (simp add: PmQosOpenTimedEvent)
  show ?thesis
  proof (cases "result (open_for f v pr mx mn type) s < 0")
    case True
    then show ?thesis by (intro exI [of _ "{#}"]) (simp add: r o w)
  next
    case False
    then show ?thesis
      using eq.send(2) [OF assms]
      by (intro exI [of _ "{#(now s + timeout, TimeoutEvent (result (open_for f v pr mx mn type) s))#}"])
        (simp add: r o w armTimeout_def)
  qed
next
  case (PmQosOpenHandleEvent f v pr mx mn type call b)
  let ?t = "claim_handle call ((exec (run_event e) s)\<lparr>pc := Polling\<rparr>)"
  have "pk ?t = pk (exec (run_event e) s)"
    by (simp add: claim_handle_def claim_def split: option.split)
  moreover have "queued (pk ?t) = queued (pk s)"
    by (cases rule: run_handle_cases [of ?t call f v pr mx mn type b s])
      (auto simp: PmQosOpenHandleEvent queued_def simp del: run_event.simps)
  ultimately show ?thesis by (intro exI [of _ "{#}"]) (simp add: PmQosOpenHandleEvent)
next
  case (TimeoutEvent fd)
  then show ?thesis by (intro exI [of _ "{#}"]) (simp add: timeoutRequest_def)
qed

lemma dispatch_turns:
  assumes ok: "table_ok n (pk s)" and n: "n < key_limit" and m: "(d, k) \<in> set (mailbox (pk s))"
  shows "\<exists>e. mQueuedEvents (pk s) k = Some e" and "turns (pk (dispatch d k s)) < turns (pk s)"
    and "pc (dispatch d k s) = pc s"
proof -
  obtain e p' where t: "take_message d k (pk s) = (Some e, p')" and ok': "table_ok n p'"
    and q: "queued (pk s) = add_mset (d, e) (queued p')"
    by (rule eq.take_someE [OF ok m])
  have e: "mQueuedEvents (pk s) k = Some e" using t by (auto simp: take_message_def removeEventByKey_def)
  let ?s = "s\<lparr>pk := p'\<rparr>"
  have d: "dispatch d k s = hand_over e (exec (run_event e) ?s)" by (simp add: dispatch_Some [OF e] t)
  have h: "pk (hand_over e x) = pk x" "pc (hand_over e x) = pc x" for x
    by (cases e; simp add: claim_handle_def claim_def split: option.split)+
  obtain es where "queued (pk (exec (run_event e) ?s)) = queued p' + es" "(\<Sum>x \<in># es. turns_of (snd x)) < turns_of e"
    using run_event_queue [of n ?s e] ok' n by auto
  then show "turns (pk (dispatch d k s)) < turns (pk s)" by (simp add: turns_def d h q)
  show "pc (dispatch d k s) = pc s" using pc_same [OF pc_free_run_event, of e ?s] by (simp add: d h)
  show "\<exists>e. mQueuedEvents (pk s) k = Some e" using e ..
qed

lemma pinv_mono: "pinv n s \<Longrightarrow> n \<le> m \<Longrightarrow> pinv m s"
  using table_ok_mono by (auto simp: pinv_def)

lemma wait_step: "lstep s (wait_for d s)"
  using l_wait [of s "max (now s) d"] by (simp add: wait_for_def)

text \<open>\<open>picks pick\<close>: the looper picks a message that is in the mailbox.\<close>

definition picks :: "(pproc \<Rightarrow> int \<times> u32) \<Rightarrow> bool" where
  "picks pick \<longleftrightarrow> (\<forall>t. mailbox (pk t) \<noteq> [] \<longrightarrow> pick t \<in> set (mailbox (pk t)))"

lemma serve_progress:
  assumes pick: "picks pick" and inv: "pinv n s" and pc: "pc s = Polling" and n: "n < key_limit"
  shows "\<exists>m \<le> 4. run lstep m s (serve pick s)" and "pc (serve pick s) = Polling"
    and "turns (pk (serve pick s)) \<le> turns (pk s) - 1"
proof -
  have ok: "table_ok n (pk s)" using inv by (simp add: pinv_def)
  have "(\<exists>m \<le> 4. run lstep m s (serve pick s)) \<and> pc (serve pick s) = Polling
    \<and> turns (pk (serve pick s)) \<le> turns (pk s) - 1"
  proof (cases "mailbox (pk s) = []")
    case True
    then have "turns (pk s) = 0" by (simp add: turns_def queued_def)
    then show ?thesis using True pc by (auto simp: serve_def intro: exI [of _ 0] run_refl)
  next
    case False
    obtain d k where dk: "pick s = (d, k)" by (cases "pick s")
    have m: "(d, k) \<in> set (mailbox (pk s))" using pick False dk by (auto simp: picks_def)
    let ?w = "wait_for d s"
    have w: "pk ?w = pk s" "pc ?w = Polling" "d \<le> now ?w" using pc by (simp_all add: wait_for_def)
    have mw: "(d, k) \<in> set (mailbox (pk ?w))" and okw: "table_ok n (pk ?w)" using m ok w by simp_all
    note t = dispatch_turns [OF okw n mw]
    obtain e where "mQueuedEvents (pk ?w) k = Some e" using t(1) by blast
    from dispatch_runs [OF w(2) mw w(3) this] obtain i where i: "i \<le> 3" "run lstep i ?w (dispatch d k ?w)" by blast
    have "run lstep (Suc 0) s ?w" using wait_step by (rule run_single)
    then have "run lstep (Suc 0 + i) s (dispatch d k ?w)" by (rule run_trans [OF i(2)])
    moreover have "serve pick s = dispatch d k ?w" using False by (simp add: serve_def dk)
    ultimately show ?thesis using i(1) t(2,3) w by (auto intro!: exI [of _ "Suc 0 + i"])
  qed
  then show "\<exists>m \<le> 4. run lstep m s (serve pick s)" and "pc (serve pick s) = Polling"
    and "turns (pk (serve pick s)) \<le> turns (pk s) - 1" by simp_all
qed

lemma turns_zero:
  assumes "table_ok n p" and "turns p = 0"
  shows "mailbox p = []"
proof (rule ccontr)
  assume "mailbox p \<noteq> []"
  then obtain d k where "(d, k) \<in> set (mailbox p)" by (cases "mailbox p") force+
  then obtain e p' where "queued p = add_mset (d, e) (queued p')" by (rule eq.take_someE [OF assms(1)])
  then show False using assms(2) turns_of_pos [of e] by (simp add: turns_def)
qed

lemma drain:
  assumes "picks pick"
  shows "pinv n s \<Longrightarrow> pc s = Polling \<Longrightarrow> turns (pk s) \<le> w \<Longrightarrow> n + 4 * w \<le> key_limit \<Longrightarrow>
    \<exists>m \<le> 4 * w. run lstep m s ((serve pick ^^ w) s) \<and> pc ((serve pick ^^ w) s) = Polling
      \<and> mailbox (pk ((serve pick ^^ w) s)) = []"
proof (induction w arbitrary: n s)
  case 0
  have "table_ok n (pk s)" using 0 by (simp add: pinv_def)
  then show ?case using 0 turns_zero by (auto intro: run_refl)
next
  case (Suc w)
  have lim: "n + (4 + 4 * w) \<le> key_limit" using Suc.prems(4) by (simp only: mult_Suc_right)
  then have n: "n < key_limit" by linarith
  note p = serve_progress [OF assms Suc.prems(1,2) n]
  obtain i where i: "i \<le> 4" "run lstep i s (serve pick s)" using p(1) by blast
  have "n + i \<le> key_limit" using i(1) lim by linarith
  then have "pinv (n + i) (serve pick s)" by (rule poker.run_inv [OF run_lstep [OF i(2)] Suc.prems(1)])
  then have "pinv (n + 4) (serve pick s)" by (rule pinv_mono) (use i(1) in simp)
  moreover have "turns (pk (serve pick s)) \<le> w" and "n + 4 + 4 * w \<le> key_limit"
    using p(3) Suc.prems(3) lim by linarith+
  ultimately obtain m where m: "m \<le> 4 * w" "run lstep m (serve pick s) ((serve pick ^^ w) (serve pick s))"
    "pc ((serve pick ^^ w) (serve pick s)) = Polling" "mailbox (pk ((serve pick ^^ w) (serve pick s))) = []"
    using Suc.IH [OF _ p(2)] by blast
  have f: "(serve pick ^^ Suc w) s = (serve pick ^^ w) (serve pick s)"
    by (simp only: funpow_Suc_right comp_apply)
  have "i + m \<le> 4 * Suc w" using i(1) m(1) unfolding mult_Suc_right by linarith
  with run_trans [OF m(2) i(2)] m(3,4) show ?case unfolding f by blast
qed

section \<open>Properties\<close>

definition demo_asked :: pproc where
  "demo_asked = demo_proc\<lparr>pk := requestPmQosTimed ''/dev/cpu_freq_min'' 1020000 100 0 new_poker\<rparr>"

definition first_message :: "pproc \<Rightarrow> int \<times> u32" where
  "first_message s = hd (mailbox (pk s))"

lemma demo_reach_asked: "reach pinit pstep 1 demo_asked"
proof -
  have "pstep demo_proc (demo_proc\<lparr>pk := requestPmQosTimed ''/dev/cpu_freq_min'' 1020000 100 (now demo_proc) (pk demo_proc)\<rparr>)"
    by (rule p_timed)
  then have "pstep demo_proc demo_asked" by (simp add: demo_asked_def demo_proc_def)
  from pstep_reach [OF pinit_reach [OF demo_init] this] show ?thesis by simp
qed

lemma demo_asked_facts:
  "mailbox (pk demo_asked) = [(0, 0)]" "turns (pk demo_asked) = 2" "pc demo_asked = Polling" "now demo_asked = 0"
  by (simp_all add: demo_asked_def requestPmQosTimed_def pushEvent_def sendEventDelayed_def generateNewKey_def
      new_poker_def turns_def queued_def event_of_def timed_event_def demo_proc_def)

text \<open>
  C18. \<open>handleMessage\<close> as the source writes it, one call from the removal of the event to its
  end, is one of the interleavings of the step relation in which nobody else runs: a run of at
  most three steps.  It always finds its event, and each message handled brings the looper
  nearer to an empty mailbox.
\<close>

theorem handle_message_steps:
  assumes "reach pinit pstep n s" and "n < key_limit" and "pc s = Polling"
    and "(d, k) \<in> set (mailbox (pk s))" and "d \<le> now s"
  shows "mQueuedEvents (pk s) k \<noteq> None \<and> (\<exists>m \<le> 3. run pstep m s (dispatch d k s))
    \<and> turns (pk (dispatch d k s)) < turns (pk s)"
proof -
  have "pinv n s" using assms(2) by (intro poker.reach_inv [OF assms(1)]) simp
  then have ok: "table_ok n (pk s)" by (simp add: pinv_def)
  note t = dispatch_turns [OF ok assms(2,4)]
  from t(1) obtain e where "mQueuedEvents (pk s) k = Some e" by blast
  with dispatch_runs [OF assms(3-5)] t(2) run_lstep show ?thesis by blast
qed

theorem handle_message_steps_witness:
  "\<exists>m \<le> 3. run pstep m demo_asked (dispatch 0 0 demo_asked)"
  using handle_message_steps [OF demo_reach_asked, of 0 0] by (simp add: demo_asked_facts key_limit_def)

text \<open>
  C9. Every request comes to an end.  From any state that clients, looper and environment can
  reach together, a looper that is no longer sent anything empties its mailbox, in whatever order
  it picks the messages, within \<open>turns\<close> turns; then every descriptor that was opened for a
  timed request is closed again, and what is open belongs to clients or to handles that clients
  still hold.
\<close>

theorem looper_drains:
  assumes "reach pinit pstep n s" and "pc s = Polling" and "picks pick"
    and "n + 4 * turns (pk s) \<le> key_limit" and "t = (serve pick ^^ turns (pk s)) s"
  shows "mailbox (pk t) = [] \<and> {fd. fds t fd \<noteq> None} = clients t \<union> set_mset (watch_fds (pk t))
    \<and> (\<exists>m \<le> 4 * turns (pk s). run pstep m s t)"
proof -
  have inv: "pinv n s" using assms(4) by (intro poker.reach_inv [OF assms(1)]) simp
  obtain m where m: "m \<le> 4 * turns (pk s)" "run pstep m s t" "pc t = Polling" "mailbox (pk t) = []"
    using drain [OF assms(3) inv assms(2) order_refl assms(4)] run_lstep unfolding assms(5) by blast
  have "n + m \<le> key_limit" using m(1) assms(4) by simp
  then have "accounted t" using poker.run_inv [OF m(2) inv] by (simp add: pinv_def)
  moreover have "owned t = watch_fds (pk t)" by (simp add: owned_def queue_fds_def queued_def m(3,4))
  ultimately have "{fd. fds t fd \<noteq> None} = clients t \<union> set_mset (watch_fds (pk t))"
    using accounted_owner [of t] by auto
  then show ?thesis using m by blast
qed

theorem looper_drains_witness:
  "mailbox (pk ((serve first_message ^^ 2) demo_asked)) = []"
proof -
  have p: "picks first_message" by (simp add: picks_def first_message_def)
  have "1 + 4 * turns (pk demo_asked) \<le> key_limit" by (simp add: demo_asked_facts key_limit_def)
  from looper_drains [OF demo_reach_asked demo_asked_facts(3) p this refl]
  show ?thesis unfolding demo_asked_facts(2) by blast
qed

end
