(* ===== verification/Poker_Pipes.thy ===== *)
theory Poker_Pipes
  imports Poker_Safety
begin

text \<open>
  The pipes behind handles.  Every pipe has a number of its own; its read end, as long as it is open,
  is with a client, and what the looper watches are write ends.  So the looper sees a hang-up on a
  handle exactly when no client has the other end any more.
\<close>

section \<open>The state of the pipes\<close>

text \<open>Pipes are numbered in the order of their creation.\<close>

definition pipes_fresh :: "'z kernel_scheme \<Rightarrow> bool" where
  "pipes_fresh s \<longleftrightarrow> (\<forall>fd i. fds s fd = Some (PipeR i) \<or> fds s fd = Some (PipeW i) \<longrightarrow> i < next_pipe s)"

definition pipes_ok :: "pproc \<Rightarrow> bool" where
  "pipes_ok s \<longleftrightarrow> pipes_fresh s
     \<and> (\<forall>r i. fds s r = Some (PipeR i) \<longrightarrow> r \<in> clients s \<and> r \<in> set (fd_slots s))
     \<and> (\<forall>(h, fd) \<in> set (watched (pk s)). \<exists>i. fds s h = Some (PipeW i))"

text \<open>The process starts with descriptors below its limit, and with pipes numbered before.\<close>

definition pipes_init :: "pproc \<Rightarrow> bool" where
  "pipes_init s \<longleftrightarrow> pinit s \<and> pipes_fresh s \<and> (\<forall>fd. fds s fd \<noteq> None \<longrightarrow> fd \<in> set (fd_slots s))"

section \<open>What a step does to the pipes\<close>

text \<open>
  What is open after a step was so before or is new: a node, or an end of the next pipe, whose read
  end goes to a client.  A client loses only what is closed; what is newly watched is the new write
  end, and only a handle that has hung up is watched no more.
\<close>

definition pipe_step :: "pproc \<Rightarrow> pproc \<Rightarrow> bool" where
  "pipe_step s t \<longleftrightarrow> fd_max t = fd_max s \<and> next_pipe s \<le> next_pipe t
     \<and> (\<forall>x y. fds t x = Some y \<longrightarrow> fds s x = Some y \<or> fds s x = None \<and> (\<exists>f. y = Node f O_RDWR)
          \<or> fds s x = None \<and> next_pipe t = Suc (next_pipe s)
            \<and> (y = PipeR (next_pipe s) \<and> x \<in> clients t \<and> x \<in> set (fd_slots s) \<or> y = PipeW (next_pipe s)))
     \<and> (\<forall>x \<in> clients s. fds t x \<noteq> None \<longrightarrow> x \<in> clients t)
     \<and> (\<forall>(h, fd) \<in> set (watched (pk t)). (h, fd) \<in> set (watched (pk s)) \<or> (\<exists>i. fds t h = Some (PipeW i)))
     \<and> (\<forall>(h, fd) \<in> set (watched (pk s)). (h, fd) \<in> set (watched (pk t)) \<or> hung_up s h)"

lemma pipe_step_same:
  "fds t = fds s \<Longrightarrow> fd_max t = fd_max s \<Longrightarrow> next_pipe t = next_pipe s \<Longrightarrow> clients t = clients s \<Longrightarrow>
   watched (pk t) = watched (pk s) \<Longrightarrow> pipe_step s t"
  by (auto simp: pipe_step_def)

lemma pipe_step_open:
  "fds t = opened_fds s f \<Longrightarrow> fd_max t = fd_max s \<Longrightarrow> next_pipe t = next_pipe s \<Longrightarrow> clients s \<subseteq> clients t \<Longrightarrow>
   watched (pk t) = watched (pk s) \<Longrightarrow> pipe_step s t"
  by (auto simp: pipe_step_def opened_fds_def dest: opened_Some(1) split: option.splits if_splits)

lemma pipe_step_close:
  "fds t = (fds s)(fd := None) \<Longrightarrow> fd_max t = fd_max s \<Longrightarrow> next_pipe t = next_pipe s \<Longrightarrow> clients s - {fd} \<subseteq> clients t \<Longrightarrow>
   watched (pk t) = watched (pk s) \<Longrightarrow> pipe_step s t"
  by (auto simp: pipe_step_def split: if_splits)

lemma pipe_step_handle:
  fixes s t :: pproc
  assumes t: "t = claim_handle call
      ((exec (run_event (PmQosOpenHandleEvent f v pr mx mn type call b)) s)\<lparr>pc := Polling\<rparr>)"
  shows "pipe_step s t"
proof -
  let ?m = "make_handle f v pr mx mn type"
  have t': "t = claim (result ?m s) ((exec ?m s)\<lparr>outFds := (outFds (exec ?m s))(call \<mapsto> result ?m s),
      dones := (dones (exec ?m s))(b := True), pc := Polling\<rparr>)"
    by (simp add: t make_handle_def claim_handle_def claim_def)
  show ?thesis
  proof (cases rule: make_handle_cases [of f v pr mx mn type s])
    case (refused e l)
    show ?thesis by (rule pipe_step_same) (simp_all add: t' refused claim_def)
  next
    case (granted fd r w e l)
    have f: "fds t = (fds s)(fd \<mapsto> Node f O_RDWR, r \<mapsto> PipeR (next_pipe s), w \<mapsto> PipeW (next_pipe s))"
      "fd_max t = fd_max s" "next_pipe t = Suc (next_pipe s)" "clients t = insert r (clients s)"
      "set (watched (pk t)) \<subseteq> insert (w, fd) (set (watched (pk s)))" "set (watched (pk s)) \<subseteq> set (watched (pk t))"
      using granted(3) by (auto simp: t' granted(2,9) claim_def)
    have "fds s x = Some y \<or> fds s x = None \<and> (\<exists>f. y = Node f O_RDWR) \<or> fds s x = None \<and>
        (y = PipeR (next_pipe s) \<and> x \<in> clients t \<and> x \<in> set (fd_slots s) \<or> y = PipeW (next_pipe s))"
      if "fds t x = Some y" for x y
      using that granted(4-8) by (auto simp: f(1,4) split: if_splits)
    moreover have "fds t w = Some (PipeW (next_pipe s))" using granted(7) by (simp add: f(1))
    ultimately show ?thesis using f(2-) by (auto simp: pipe_step_def)
  qed
qed

lemma pstep_pipe_step:
  assumes inv: "pinv n s" and step: "pstep s t"
  shows "pipe_step s t"
  using step
proof cases
  case (p_client_open f v)
  obtain e l where "exec (requestPmQos f v) s = s\<lparr>fds := opened_fds s f, errno := e, wlog := l\<rparr>"
    using requestPmQos_effect(1) by blast
  then show ?thesis by (intro pipe_step_open) (auto simp: p_client_open claim_def)
next
  case (p_client_open_priority f pr mx mn)
  obtain e l where "exec (requestPmQos_priority f pr mx mn) s = s\<lparr>fds := opened_fds s f, errno := e, wlog := l\<rparr>"
    using requestPmQos_priority_effect(1) by blast
  then show ?thesis by (intro pipe_step_open) (auto simp: p_client_open_priority claim_def)
next
  case (p_client_close fd)
  then show ?thesis by (intro pipe_step_close [of _ _ fd]) (auto simp: fun_upd_idem)
next
  case (p_open f v pr mx mn type timeout)
  obtain e l where "exec (open_for f v pr mx mn type) s = s\<lparr>fds := opened_fds s f, errno := e, wlog := l\<rparr>"
    using open_for_effect by blast
  then show ?thesis by (intro pipe_step_open) (simp_all add: p_open)
next
  case (p_close fd)
  then show ?thesis by (intro pipe_step_close [of _ _ fd]) (auto simp: timeoutRequest_def fun_upd_idem)
next
  case (p_run_handle f v pr mx mn type call b)
  show ?thesis by (rule pipe_step_handle [OF p_run_handle(1)])
next
  case (p_hangup h fd)
  have acc: "accounted s" using inv by (simp add: pinv_def)
  note e = exec_hangup [OF acc p_hangup(3)]
  have "h \<notin> clients s" "fd \<notin> clients s"
    using accountedD(1) [OF acc] watched_owned(1,2) [OF acc p_hangup(3)] by blast+
  then show ?thesis using p_hangup(4) by (auto simp: pipe_step_def p_hangup(1) e split: if_splits)
next
  case (p_deliver d k)
  have "watched (pk (deliver d k s)) = watched (pk s)"
    using watched_take [of d k "pk s"] by (auto simp: deliver_def split: prod.split option.split)
  then show ?thesis
    by (intro pipe_step_same) (simp_all add: p_deliver, simp_all add: deliver_def split: prod.split option.split)
qed (auto intro!: pipe_step_same simp: requestPmQosTimed_def requestPmQosTimed_priority_def pushEvent_def
    createPmQosHandle_def createPmQosHandle_priority_def armTimeout_def)

section \<open>Every reachable state\<close>

lemma watched_open:
  assumes "accounted s" and "(h, fd) \<in> set (watched (pk s))"
  shows "fds s h \<noteq> None" and "fds s fd \<noteq> None"
  using accountedD(1) [OF assms(1)] watched_owned(1,2) [OF assms] by blast+

lemma pipes_ok_step:
  assumes ok: "pipes_ok s" and st: "pipe_step s t" and acc: "accounted t"
  shows "pipes_ok t"
proof -
  have sl: "fd_slots t = fd_slots s" using st by (simp add: pipe_step_def fd_slots_def)
  have new: "fds s x = Some y \<or> fds s x = None \<and> (\<exists>f. y = Node f O_RDWR)
      \<or> fds s x = None \<and> next_pipe t = Suc (next_pipe s)
        \<and> (y = PipeR (next_pipe s) \<and> x \<in> clients t \<and> x \<in> set (fd_slots s) \<or> y = PipeW (next_pipe s))"
    if "fds t x = Some y" for x y
    using st that unfolding pipe_step_def by blast
  have mono: "next_pipe s \<le> next_pipe t" using st by (simp add: pipe_step_def)
  have fresh: "i < next_pipe s" if "fds s x = Some (PipeR i) \<or> fds s x = Some (PipeW i)" for x i
    using ok that unfolding pipes_ok_def pipes_fresh_def by blast
  have "pipes_fresh t"
    unfolding pipes_fresh_def
  proof (intro allI impI)
    fix x i assume "fds t x = Some (PipeR i) \<or> fds t x = Some (PipeW i)"
    then show "i < next_pipe t" using new [of x] fresh [of x i] mono by force
  qed
  moreover have "r \<in> clients t \<and> r \<in> set (fd_slots t)" if r: "fds t r = Some (PipeR i)" for r i
  proof (cases "fds s r = Some (PipeR i)")
    case True
    then have "r \<in> clients s" "r \<in> set (fd_slots s)" using ok by (auto simp: pipes_ok_def)
    then show ?thesis using st r sl by (auto simp: pipe_step_def)
  next
    case False
    then show ?thesis using new [OF r] sl by auto
  qed
  moreover have "\<exists>i. fds t h = Some (PipeW i)" if w: "(h, fd) \<in> set (watched (pk t))" for h fd
  proof (cases "(h, fd) \<in> set (watched (pk s))")
    case True
    then obtain i where i: "fds s h = Some (PipeW i)" using ok by (auto simp: pipes_ok_def)
    obtain y where "fds t h = Some y" using watched_open(1) [OF acc w] by auto
    then show ?thesis using new [of h y] i by auto
  next
    case False
    then show ?thesis using st w by (auto simp: pipe_step_def)
  qed
  ultimately show ?thesis by (auto simp: pipes_ok_def)
qed

interpretation pipes: counted_invariant pipes_init pstep "\<lambda>n s. pinv n s \<and> pipes_ok s" key_limit
proof unfold_locales
  fix s assume i: "pipes_init s"
  then have "pinv 0 s" by (intro poker.inv_init) (simp add: pipes_init_def)
  moreover have "pipes_ok s" using i by (auto simp: pipes_init_def pipes_ok_def pinit_def new_poker_def)
  ultimately show "pinv 0 s \<and> pipes_ok s" ..
next
  fix n s t assume inv: "pinv n s \<and> pipes_ok s" and step: "pstep s t" and n: "n < key_limit"
  have t: "pinv (Suc n) t" by (rule poker.inv_step [OF _ step n]) (use inv in simp)
  moreover have "pipes_ok t"
    by (rule pipes_ok_step [OF _ pstep_pipe_step [OF _ step]]) (use inv t in \<open>auto simp: pinv_def\<close>)
  ultimately show "pinv (Suc n) t \<and> pipes_ok t" ..
qed

text \<open>A watched handle hangs up exactly when its other end is gone.\<close>

lemma hung_up_iff:
  assumes "pipes_ok s" and "(h, fd) \<in> set (watched (pk s))"
  obtains i where "fds s h = Some (PipeW i)" and "hung_up s h \<longleftrightarrow> (\<forall>r. fds s r \<noteq> Some (PipeR i))"
proof -
  obtain i where i: "fds s h = Some (PipeW i)" using assms by (auto simp: pipes_ok_def)
  have "r \<in> set (fd_slots s)" if "fds s r = Some (PipeR i)" for r using assms(1) that by (auto simp: pipes_ok_def)
  then have "hung_up s h \<longleftrightarrow> (\<forall>r. fds s r \<noteq> Some (PipeR i))" by (auto simp: hung_up_def i list_ex_iff)
  then show ?thesis using i that by blast
qed

text \<open>One step in which the client keeps the read end.\<close>

lemma handle_kept:
  assumes s: "pinv n s" "pipes_ok s" and step: "pstep s t" and t: "pinv m t"
    and w: "(h, fd) \<in> set (watched (pk s))" "fds s h = Some (PipeW i)" "fds s r = Some (PipeR i)" "r \<in> clients t"
  shows "(h, fd) \<in> set (watched (pk t))" and "fds t h = fds s h" and "fds t fd = fds s fd" and "fds t r = fds s r"
proof -
  have acc: "accounted s" "accounted t" using s(1) t by (simp_all add: pinv_def)
  have st: "pipe_step s t" by (rule pstep_pipe_step [OF s(1) step])
  have same: "fds t x = fds s x" if x: "fds s x \<noteq> None" "fds t x \<noteq> None" for x
  proof -
    obtain y where y: "fds t x = Some y" using x(2) by auto
    have "fds s x = Some y \<or> fds s x = None" using st y unfolding pipe_step_def by (elim conjE) metis
    then show ?thesis using x(1) y by auto
  qed
  have "\<not> hung_up s h"
  proof (cases rule: hung_up_iff [OF s(2) w(1)])
    case (1 j)
    then show ?thesis using w(2,3) by auto
  qed
  then show wt: "(h, fd) \<in> set (watched (pk t))" using st w(1) unfolding pipe_step_def by auto
  show "fds t r = fds s r" using accountedD(2) [OF acc(2) w(4)] w(3) by (intro same) simp_all
  show "fds t h = fds s h" "fds t fd = fds s fd"
    using watched_open [OF acc(1) w(1)] watched_open [OF acc(2) wt] by (intro same; simp)+
qed

end
