(* ===== verification/Poker_Handles.thy ===== *)
theory Poker_Handles
  imports Poker_Pipes
begin

text \<open>
  Handles: a request that lasts until the client closes the read end of a pipe.  Taking a handle and
  closing it gives everything back; a handle the looper refuses to watch gives nothing back.
\<close>

section \<open>The pipe behind a handle\<close>

lemma pipe_write_end_unique:
  assumes "pipes_fresh s" and "fds t = (fds s)(fd \<mapsto> Node f O_RDWR, r \<mapsto> PipeR (next_pipe s), w \<mapsto> PipeW (next_pipe s))"
    and "fd_max t = fd_max s" and "distinct [fd, r, w]" and "r \<in> set (fd_slots s)"
  shows "\<not> hung_up t w" and "hung_up (t\<lparr>fds := (fds t)(r := None)\<rparr>) w"
proof -
  have no: "fds s x \<noteq> Some (PipeR (next_pipe s))" for x
    using assms(1) unfolding pipes_fresh_def by blast
  have sl: "fd_slots t = fd_slots s" "fd_slots (t\<lparr>fds := g\<rparr>) = fd_slots s" for g
    by (simp_all add: fd_slots_def assms(3))
  have "\<exists>x \<in> set (fd_slots s). fds t x = Some (PipeR (next_pipe s))"
    using assms(4,5) by (auto simp: assms(2))
  then show "\<not> hung_up t w" using assms(4) by (simp add: hung_up_def sl list_ex_iff assms(2))
  have "\<forall>x. ((fds t)(r := None)) x \<noteq> Some (PipeR (next_pipe s))"
    using no by (simp add: assms(2))
  then show "hung_up (t\<lparr>fds := (fds t)(r := None)\<rparr>) w"
    using assms(4) by (simp add: hung_up_def sl list_ex_iff assms(2))
qed

section \<open>Properties\<close>

text \<open>
  C12. A handle gives everything back.  In any state that clients, looper and environment can reach
  together, a handle is the read end of a new pipe: as long as the client keeps it open the looper
  sees no hang-up; once the client closes it the looper does, and the callback then closes the node
  and the pipe, leaving the descriptor table exactly as it was before the request and nothing more to
  watch for it.
\<close>

theorem handle_given_back:
  assumes "reach pipes_init pstep n s" and "n \<le> key_limit"
    and "t = exec (make_handle f v pr mx mn type) s" and "r = result (make_handle f v pr mx mn type) s"
    and "0 \<le> r"
  shows "\<exists>w fd. watched (pk t) = watched (pk s) @ [(w, fd)] \<and> fds t fd = Some (Node f O_RDWR) \<and> \<not> hung_up t w
    \<and> hung_up (exec (k_close r) t) w
    \<and> fds (exec (pipeCloseCb w True fd) (exec (k_close r) t)) = fds s
    \<and> watched (pk (exec (pipeCloseCb w True fd) (exec (k_close r) t))) = watched (pk s)"
proof -
  have inv: "pinv n s" "pipes_ok s" using pipes.reach_inv [OF assms(1,2)] by simp_all
  then have fresh: "pipes_fresh s" and ok: "\<forall>h. addFd_ok s h" and acc: "accounted s"
    by (simp_all add: pipes_ok_def pinv_def)
  show ?thesis
  proof (cases rule: make_handle_cases [of f v pr mx mn type s])
    case (refused e l)
    then show ?thesis using assms(4,5) by simp
  next
    case (granted fd r' w e l)
    have r: "r' = r" using granted(2) assms(4) by simp
    note g = granted [unfolded r]
    have t: "t = s\<lparr>errno := e, wlog := l,
        fds := (fds s)(fd \<mapsto> Node f O_RDWR, r \<mapsto> PipeR (next_pipe s), w \<mapsto> PipeW (next_pipe s)),
        next_pipe := Suc (next_pipe s), pk := (pk s)\<lparr>watched := watched (pk s) @ [(w, fd)]\<rparr>\<rparr>"
      using g(9) ok assms(3) by simp
    have f: "fds t = (fds s)(fd \<mapsto> Node f O_RDWR, r \<mapsto> PipeR (next_pipe s), w \<mapsto> PipeW (next_pipe s))"
      "fd_max t = fd_max s" by (simp_all add: t)
    note h = pipe_write_end_unique [OF fresh f g(7,8)]
    have c: "exec (k_close r) t = t\<lparr>fds := (fds t)(r := None)\<rparr>" using g(7) by (simp add: f)
    have "(w, x) \<notin> set (watched (pk s))" for x using watched_open(1) [OF acc, of w x] g(6) by auto
    then have "filter (\<lambda>(x, _). x \<noteq> w) (watched (pk s)) = watched (pk s)" by (auto simp: filter_id_conv)
    then have "fds (exec (pipeCloseCb w True fd) (exec (k_close r) t)) = fds s
        \<and> watched (pk (exec (pipeCloseCb w True fd) (exec (k_close r) t))) = watched (pk s)"
      unfolding c using g(4-7) by (auto simp: pipeCloseCb_def t fun_eq_iff)
    moreover have "watched (pk t) = watched (pk s) @ [(w, fd)]" by (simp add: t)
    moreover have "fds t fd = Some (Node f O_RDWR)" using g(7) by (simp add: f)
    ultimately show ?thesis using h unfolding c by blast
  qed
qed

text \<open>
  C13. A handle holds its request.  Take a watched handle whose pipe still has its other end open.  For as
  long as the client does not close that end, whatever clients, looper and environment do in the
  meantime, the node behind the handle stays open and untouched, the handle stays watched, and the
  looper sees no hang-up.
\<close>

theorem handle_held:
  assumes "reach pipes_init pstep n s" and "(h, fd) \<in> set (watched (pk s))"
    and "fds s h = Some (PipeW i)" and "fds s r = Some (PipeR i)"
    and "run (\<lambda>s t. pstep s t \<and> r \<in> clients t) m s t" and "n + m \<le> key_limit"
  shows "fds t fd = fds s fd \<and> fds t fd \<noteq> None \<and> (h, fd) \<in> set (watched (pk t)) \<and> \<not> hung_up t h"
proof -
  have inv: "pinv n s" "pipes_ok s" using pipes.reach_inv [OF assms(1)] assms(6) by simp_all
  have "pinv (n + m) t \<and> pipes_ok t \<and> (h, fd) \<in> set (watched (pk t)) \<and> fds t h = Some (PipeW i)
      \<and> fds t r = Some (PipeR i) \<and> fds t fd = fds s fd"
    using assms(5,6,2,3,4) inv
  proof (induction rule: run.induct)
    case (run_refl s)
    then show ?case by simp
  next
    case (run_snoc m s' t u)
    then have t: "pinv (n + m) t" "pipes_ok t" "(h, fd) \<in> set (watched (pk t))" "fds t h = Some (PipeW i)"
      "fds t r = Some (PipeR i)" "fds t fd = fds s' fd" and st: "pstep t u" and r: "r \<in> clients u" by auto
    have u: "pinv (Suc (n + m)) u \<and> pipes_ok u"
      by (rule pipes.inv_step [OF _ st]) (use t(1,2) run_snoc.prems in simp_all)
    have up: "pinv (Suc (n + m)) u" using u by simp
    show ?case using handle_kept [OF t(1,2) st up t(3-5) r] u t(4-6) by simp
  qed
  then have t: "pinv (n + m) t" "pipes_ok t" "(h, fd) \<in> set (watched (pk t))" "fds t h = Some (PipeW i)"
    "fds t r = Some (PipeR i)" "fds t fd = fds s fd" by simp_all
  have "\<not> hung_up t h"
  proof (cases rule: hung_up_iff [OF t(2,3)])
    case (1 j)
    then show ?thesis using t(4,5) by auto
  qed
  moreover have "fds t fd \<noteq> None" using watched_open(2) [OF _ t(3)] t(1) by (simp add: pinv_def)
  ultimately show ?thesis using t by simp
qed

text \<open>
  C38. A handle that the looper refuses to watch is handed out all the same, and closing it gives
  nothing back: the node stays open with the write end of the pipe, and neither is on any list of
  the poker.
\<close>

theorem unwatched_handle_leaks:
  assumes "\<forall>h. \<not> addFd_ok s h" and "t = exec (make_handle f v pr mx mn type) s"
    and "r = result (make_handle f v pr mx mn type) s" and "0 \<le> r"
  shows "pk t = pk s \<and> (\<exists>fd w. fds s fd = None \<and> fds s w = None
    \<and> fds (exec (k_close r) t) = (fds s)(fd \<mapsto> Node f O_RDWR, w \<mapsto> PipeW (next_pipe s)))"
proof (cases rule: make_handle_cases [of f v pr mx mn type s])
  case (refused e l)
  then show ?thesis using assms(3,4) by simp
next
  case (granted fd r' w e l)
  have "r' = r" using granted(2) assms(3) by simp
  note g = granted [unfolded this]
  have "pk t = pk s" and f: "fds t = (fds s)(fd \<mapsto> Node f O_RDWR, r \<mapsto> PipeR (next_pipe s), w \<mapsto> PipeW (next_pipe s))"
    using g(9) assms(1,2) by simp_all
  moreover have "fds (exec (k_close r) t) = (fds s)(fd \<mapsto> Node f O_RDWR, w \<mapsto> PipeW (next_pipe s))"
    using g(4-7) by (auto simp: f fun_eq_iff)
  ultimately show ?thesis using g(4,6) by blast
qed

lemma demo_handle:
  "result (make_handle ''/dev/cpu_freq_min'' 1020000 0 0 0 NODE_TYPE_DEFAULT) (demo_proc\<lparr>addFd_ok := a\<rparr>) = 4"
  by (simp add: make_handle_def createHandleForPmQosRequest_def openPmQosNode_def demo_proc_def opened_def
      open_error_def free_fd_def fd_slots_def plain_node_def std_fds_def upt_rec k_write_def driver_write_def
      createHandleForFd_def k_pipe_def listenForHandleToCloseFd_def looper_addFd_def)

lemma demo_pipes: "reach pipes_init pstep 0 demo_proc"
proof (rule reach_init)
  have "fds demo_proc fd \<noteq> None \<longrightarrow> fd \<in> set (fd_slots demo_proc)" for fd
    by (auto simp: demo_proc_def std_fds_def fd_slots_def upt_rec split: if_splits)
  then show "pipes_init demo_proc"
    using demo_init by (simp add: pipes_init_def) (simp add: pipes_fresh_def demo_proc_def std_fds_def)
qed

theorem handle_given_back_witness:
  "\<exists>w fd. hung_up (exec (k_close 4) (exec (make_handle ''/dev/cpu_freq_min'' 1020000 0 0 0 NODE_TYPE_DEFAULT) demo_proc)) w
    \<and> fds (exec (pipeCloseCb w True fd) (exec (k_close 4)
        (exec (make_handle ''/dev/cpu_freq_min'' 1020000 0 0 0 NODE_TYPE_DEFAULT) demo_proc)))
      = fds demo_proc"
proof -
  have a: "demo_proc\<lparr>addFd_ok := \<lambda>_. True\<rparr> = demo_proc" by (simp add: demo_proc_def)
  have r: "4 = result (make_handle ''/dev/cpu_freq_min'' 1020000 0 0 0 NODE_TYPE_DEFAULT) demo_proc"
    using demo_handle [of "\<lambda>_. True"] unfolding a by simp
  have "(0 :: int) \<le> 4" by simp
  from handle_given_back [OF demo_pipes le0 refl r this] show ?thesis by blast
qed

text \<open>The state after a client has been given a handle.\<close>

definition demo_held :: pproc where
  "demo_held = demo_proc\<lparr>pk := new_poker\<lparr>mKey := 1, watched := [(5, 3)]\<rparr>, next_pipe := 1, clients := {4, 0, 1, 2},
     fds := std_fds(3 \<mapsto> Node ''/dev/cpu_freq_min'' O_RDWR, 4 \<mapsto> PipeR 0, 5 \<mapsto> PipeW 0),
     wlog := [(''/dev/cpu_freq_min'', le_bytes (word_of_int 1020000))],
     outFds := [0 \<mapsto> 4], dones := (\<lambda>_. False)(0 := True)\<rparr>"

lemma demo_reach_held: "reach pipes_init pstep 3 demo_held"
proof -
  let ?f = "''/dev/cpu_freq_min''"
  let ?e = "handle_event ?f 1020000 0 0"
  let ?s1 = "demo_proc\<lparr>pk := pushEvent 0 ?e new_poker\<rparr>"
  let ?s2 = "demo_proc\<lparr>pk := new_poker\<lparr>mKey := 1\<rparr>, pc := Running ?e\<rparr>"
  have "pstep demo_proc (exec (createPmQosHandle ?f 1020000 0) demo_proc)" by (rule p_handle)
  moreover have "exec (createPmQosHandle ?f 1020000 0) demo_proc = ?s1"
    by (simp add: createPmQosHandle_def demo_proc_def fun_upd_idem)
  ultimately have 1: "pstep demo_proc ?s1" by simp
  have "pstep ?s1 (deliver 0 0 ?s1)"
    by (rule p_deliver) (simp_all add: demo_proc_def pushEvent_def sendEventDelayed_def generateNewKey_def new_poker_def)
  moreover have "deliver 0 0 ?s1 = ?s2"
    by (simp add: deliver_def take_message_def removeEventByKey_def pushEvent_def sendEventDelayed_def
        generateNewKey_def new_poker_def)
  ultimately have 2: "pstep ?s1 ?s2" by simp
  have "pstep ?s2 (claim_handle 0 ((exec (run_event ?e) ?s2)\<lparr>pc := Polling\<rparr>))"
    unfolding handle_event_def by (rule p_run_handle) simp
  moreover have "claim_handle 0 ((exec (run_event ?e) ?s2)\<lparr>pc := Polling\<rparr>) = demo_held"
  proof -
    let ?l = "[(?f, le_bytes (word_of_int 1020000))]"
    let ?s3 = "?s2\<lparr>fds := std_fds(3 \<mapsto> Node ?f O_RDWR), wlog := ?l\<rparr>"
    let ?s4 = "?s3\<lparr>fds := std_fds(3 \<mapsto> Node ?f O_RDWR, 4 \<mapsto> PipeR 0, 5 \<mapsto> PipeW 0), next_pipe := 1,
      pk := new_poker\<lparr>mKey := 1, watched := [(5, 3)]\<rparr>\<rparr>"
    have d: "driver_write ?s2 ?f w = Inr (length w)" for w
      by (simp add: driver_write_def demo_proc_def plain_node_def)
    have "wlog ?s2 = []" "fds ?s2 = std_fds" by (simp_all add: demo_proc_def)
    then have o: "exec (openPmQosNode ?f 1020000) ?s2 = ?s3" "result (openPmQosNode ?f 1020000) ?s2 = 3"
      by (simp_all add: openPmQosNode_def opened_demo exec_k_write d)
    have k: "fd_max ?s3 = 8" "next_pipe ?s3 = 0" "fds ?s3 = std_fds(3 \<mapsto> Node ?f O_RDWR)" "addFd_ok ?s3 = (\<lambda>_. True)"
      by (simp_all add: demo_proc_def)
    have f: "free_fd ?s3 = Some 4" "free_fd (?s3\<lparr>fds := (fds ?s3)(4 \<mapsto> PipeR 0)\<rparr>) = Some 5"
      using k by (simp_all add: free_fd_def fd_slots_def std_fds_def upt_rec)
    have p: "exec k_pipe ?s3 = ?s3\<lparr>fds := (fds ?s3)(4 \<mapsto> PipeR 0, 5 \<mapsto> PipeW 0), next_pipe := Suc 0\<rparr>"
      "result k_pipe ?s3 = Some (4, 5)"
      using f k(2) by (simp_all add: k_pipe_def)
    have "exec (createHandleForFd 3) ?s3 = ?s4" "result (createHandleForFd 3) ?s3 = 4"
      using p k(4) by (simp_all add: createHandleForFd_def listenForHandleToCloseFd_def looper_addFd_def new_poker_def)
    then have "exec (createHandleForPmQosRequest ?f 1020000) ?s2 = ?s4" "result (createHandleForPmQosRequest ?f 1020000) ?s2 = 4"
      using o by (simp_all add: createHandleForPmQosRequest_def)
    then have e: "exec (run_event ?e) ?s2 = ?s4\<lparr>outFds := (outFds ?s4)(0 \<mapsto> 4), dones := (dones ?s4)(0 := True)\<rparr>"
      by (simp add: handle_event_def)
    show ?thesis unfolding e claim_handle_def claim_def by (simp add: demo_held_def) (simp add: demo_proc_def)
  qed
  ultimately have 3: "pstep ?s2 demo_held" by simp
  note next_state = reach_step [where init = pipes_init and step = pstep]
  have "reach pipes_init pstep (Suc (Suc (Suc 0))) demo_held"
    by (rule next_state [OF next_state [OF next_state [OF demo_pipes 1] 2] 3])
  then show ?thesis by (simp add: eval_nat_numeral)
qed

theorem handle_held_witness:
  "\<not> hung_up (demo_held\<lparr>nodes := Map.empty, now := 1000000000000\<rparr>) 5"
proof -
  let ?t = "demo_held\<lparr>nodes := Map.empty, now := 1000000000000\<rparr>"
  have "pstep demo_held ?t" by (rule p_environment) (simp add: demo_held_def demo_proc_def)
  moreover have "4 \<in> clients ?t" by (simp add: demo_held_def)
  ultimately have r: "run (\<lambda>s t. pstep s t \<and> 4 \<in> clients t) (Suc 0) demo_held ?t" by (intro run_single) simp
  have h: "(5, 3) \<in> set (watched (pk demo_held))" "fds demo_held 5 = Some (PipeW 0)" "fds demo_held 4 = Some (PipeR 0)"
    by (simp_all add: demo_held_def)
  from handle_held [OF demo_reach_held h r] show ?thesis by (simp add: key_limit_def)
qed

theorem unwatched_handle_leaks_witness:
  "pk (exec (make_handle ''/dev/cpu_freq_min'' 1020000 0 0 0 NODE_TYPE_DEFAULT) (demo_proc\<lparr>addFd_ok := \<lambda>_. False\<rparr>))
   = new_poker"
proof -
  have "pk (demo_proc\<lparr>addFd_ok := \<lambda>_. False\<rparr>) = new_poker" by (simp add: demo_proc_def)
  then show ?thesis
    using unwatched_handle_leaks [OF _ refl refl, of "demo_proc\<lparr>addFd_ok := \<lambda>_. False\<rparr>" "''/dev/cpu_freq_min''"
        1020000 0 0 0 NODE_TYPE_DEFAULT]
    unfolding demo_handle by simp
qed

end
