(* ===== verification/Nv_Power_Hal.thy ===== *)
theory Nv_Power_Hal
  imports Sysfs_Utils Event_Queue
begin

text \<open>
  \<open>power/nvpowerhal.cpp\<close> and \<open>power/powerhal.h\<close>: the state behind \<open>struct powerhal_info\<close>
  and every routine of the common power HAL.

  The numbers of the power hints come from Android's \<open>hardware/power.h\<close>, which is not in the
  repository; they are the argument \<open>H\<close> of the definitions.  The three ways of building the
  file (\<open>POWER_MODE_SET_INTERACTIVE\<close>, \<open>POWER_MODE_LEGACY\<close>, neither) are the argument
  \<open>B\<close>.  The flag \<open>undef\<close> of the state is set where the code would do what C++ gives no
  meaning to: dereference a null pointer, index past an array, read past a buffer, leave the range of
  a signed integer, or convert a number that an \<open>int\<close> cannot hold.
\<close>

section \<open>Data\<close>

record power_hints =
  POWER_HINT_VSYNC :: nat
  POWER_HINT_INTERACTION :: nat
  POWER_HINT_LOW_POWER :: nat
  POWER_HINT_CPU_BOOST :: nat
  POWER_HINT_AUDIO :: nat
  POWER_HINT_SET_PROFILE :: nat

text \<open>What an \<open>enum\<close> whose largest member is \<open>SET_PROFILE\<close> guarantees.\<close>

definition hints_ok :: "power_hints \<Rightarrow> bool" where
  "hints_ok H \<longleftrightarrow> distinct [POWER_HINT_VSYNC H, POWER_HINT_INTERACTION H, POWER_HINT_LOW_POWER H,
       POWER_HINT_CPU_BOOST H, POWER_HINT_AUDIO H]
     \<and> POWER_HINT_VSYNC H < POWER_HINT_SET_PROFILE H
     \<and> POWER_HINT_INTERACTION H < POWER_HINT_SET_PROFILE H
     \<and> POWER_HINT_LOW_POWER H < POWER_HINT_SET_PROFILE H
     \<and> POWER_HINT_CPU_BOOST H < POWER_HINT_SET_PROFILE H
     \<and> POWER_HINT_AUDIO H < POWER_HINT_SET_PROFILE H"

definition MAX_POWER_HINT_COUNT :: "power_hints \<Rightarrow> nat" where
  "MAX_POWER_HINT_COUNT H = POWER_HINT_SET_PROFILE H"

datatype build = T210 | Legacy | K1

definition MAX_CHARS :: nat where "MAX_CHARS = 32"

definition SYS_NODE_CPU0_MAX_FREQ :: string where
  "SYS_NODE_CPU0_MAX_FREQ = ''/sys/devices/system/cpu/cpu0/cpufreq/cpuinfo_max_freq''"

definition PMQOS_MAX_ONLINE_CPUS :: string where
  "PMQOS_MAX_ONLINE_CPUS = ''/dev/max_online_cpus''"
definition PMQOS_MAX_CPU_FREQ :: string where
  "PMQOS_MAX_CPU_FREQ = ''/dev/cpu_freq_max''"
definition PMQOS_CONSTRAINT_CPU_FREQ :: string where
  "PMQOS_CONSTRAINT_CPU_FREQ = ''/dev/constraint_cpu_freq''"
definition PMQOS_CONSTRAINT_GPU_FREQ :: string where
  "PMQOS_CONSTRAINT_GPU_FREQ = ''/dev/constraint_gpu_freq''"
definition PMQOS_CONSTRAINT_ONLINE_CPUS :: string where
  "PMQOS_CONSTRAINT_ONLINE_CPUS = ''/dev/constraint_online_cpus''"

definition PM_QOS_DEFAULT_VALUE :: int where "PM_QOS_DEFAULT_VALUE = - 1"
definition PM_QOS_BOOST_PRIORITY :: int where "PM_QOS_BOOST_PRIORITY = 35"

definition AFFINITY_DAEMON_CONTROL_PROP :: string where
  "AFFINITY_DAEMON_CONTROL_PROP = ''persist.sys.ad.enable''"

definition INT_MAX :: int where "INT_MAX = 2147483647"

definition s2ns :: "int \<Rightarrow> int" where "s2ns s = s * 1000000000"
definition ms2ns :: "int \<Rightarrow> int" where "ms2ns ms = ms * 1000000"

record input_dev_map =
  dev_id :: int
  dev_name :: string

text \<open>
  \<open>input_devs\<close> says whether the pointer of that name points at the array \<open>dev_array\<close> of the
  process or is null; \<open>mTimeoutPoker\<close> is the number of a poker.  \<open>hint_time\<close> and \<open>hint_interval\<close> are
  arrays of \<open>MAX_POWER_HINT_COUNT\<close> elements: each access goes through \<open>require\<close>, which notes an index
  outside them.  The members for hint threads, which nothing uses, are left out.
\<close>

record powerhal_info =
  mTimeoutPoker :: "nat option"
  available_frequencies :: "int list"
  num_available_frequencies :: int
  lp_max_frequency :: int
  interaction_boost_frequency :: int
  animation_boost_frequency :: int
  cpu0_max_frequency :: int
  ftrace_enable :: bool
  input_cnt :: int
  input_devs :: bool
  hint_time :: "nat \<Rightarrow> u64"
  hint_interval :: "nat \<Rightarrow> u64"
  features_fan :: bool

record hal = kernel +
  pInfo :: "powerhal_info option"
  dev_array :: "input_dev_map list"
  uC_input_number :: int
  pokers :: "poker list"
  undef :: bool

definition undefined_behaviour :: "(hal, unit) state" where
  "undefined_behaviour = modify (\<lambda>s. s\<lparr>undef := True\<rparr>)"

text \<open>What the next operation needs to have a meaning.\<close>

definition require :: "bool \<Rightarrow> (hal, unit) state" where
  "require c = modify (\<lambda>s. s\<lparr>undef := undef s \<or> \<not> c\<rparr>)"

text \<open>Access through the pointer \<open>pInfo\<close>.\<close>

definition info :: "hal \<Rightarrow> powerhal_info" where
  "info s = the (pInfo s)"

definition set_info :: "(powerhal_info \<Rightarrow> powerhal_info) \<Rightarrow> (hal, unit) state" where
  "set_info f = modify (\<lambda>s. case pInfo s of
       None \<Rightarrow> s\<lparr>undef := True\<rparr>
     | Some p \<Rightarrow> s\<lparr>pInfo := Some (f p)\<rparr>)"

section \<open>Requests\<close>

text \<open>\<open>pInfo->mTimeoutPoker->requestPmQosTimed (...)\<close> in its two forms.\<close>

definition on_poker :: "(int \<Rightarrow> poker \<Rightarrow> poker) \<Rightarrow> (hal, unit) state" where
  "on_poker f = modify (\<lambda>s. case mTimeoutPoker (info s) of
       None \<Rightarrow> s\<lparr>undef := True\<rparr>
     | Some i \<Rightarrow> s\<lparr>pokers := (pokers s)[i := f (now s) (pokers s ! i)]\<rparr>)"

definition request_timed :: "string \<Rightarrow> int \<Rightarrow> int \<Rightarrow> (hal, unit) state" where
  "request_timed node val timeout = on_poker (requestPmQosTimed node val timeout)"

definition request_timed_priority :: "string \<Rightarrow> int \<Rightarrow> int \<Rightarrow> int \<Rightarrow> int \<Rightarrow> (hal, unit) state" where
  "request_timed_priority node priority mx mn timeout =
     on_poker (requestPmQosTimed_priority node priority mx mn timeout)"

section \<open>Input devices\<close>

definition input_name_path :: "int \<Rightarrow> string" where
  "input_name_path i = snprintf 80 (''/sys/class/input/input'' @ show_int i @ ''/name'')"

definition input_enabled_path :: "int \<Rightarrow> string" where
  "input_enabled_path i = snprintf 80 (''/sys/class/input/input'' @ show_int i @ ''/enabled'')"

definition controller_name :: string where
  "controller_name = ''NVIDIA Corporation NVIDIA Controller v01.01'' @ [NL]"

text \<open>
  The two loops end when a device number has no node.  They are given a bound on their rounds and
  answer \<open>None\<close> when it is used up.
\<close>

fun get_input_count_from :: "nat \<Rightarrow> int \<Rightarrow> (hal, int option) state" where
  "get_input_count_from 0 i = ret None"
| "get_input_count_from (Suc fuel) i = do {
     r \<leftarrow> k_access (input_name_path i) F_OK;
     if r < 0 then ret (Some i)
     else do {
       name \<leftarrow> sysfs_read (input_name_path i) (zeros 50) 50;
       (if strncmp_eq 50 name controller_name
        then modify (\<lambda>s. s\<lparr>uC_input_number := i\<rparr>) else ret ());
       get_input_count_from fuel (i + 1) }
   }"

definition get_input_count :: "nat \<Rightarrow> (hal, int option) state" where
  "get_input_count fuel = get_input_count_from fuel 0"

text \<open>The inner loop over \<open>input_devs\<close>: the new array and how many devices were found.\<close>

fun match_devs :: "string \<Rightarrow> int \<Rightarrow> input_dev_map list \<Rightarrow> input_dev_map list \<times> int" where
  "match_devs name i [] = ([], 0)"
| "match_devs name i (d # ds) =
     (let (ds', n) = match_devs name i ds
      in if dev_id d = - 1 \<and> strncmp_eq MAX_CHARS name (dev_name d)
         then (d\<lparr>dev_id := i\<rparr> # ds', n + 1) else (d # ds', n))"

fun find_input_device_ids_from :: "nat \<Rightarrow> int \<Rightarrow> int \<Rightarrow> (hal, unit option) state" where
  "find_input_device_ids_from 0 i n_found = ret None"
| "find_input_device_ids_from (Suc fuel) i n_found = do {
     r \<leftarrow> k_access (input_name_path i) F_OK;
     if r < 0 then ret (Some ())
     else do {
       name \<leftarrow> sysfs_read (input_name_path i) (zeros MAX_CHARS) MAX_CHARS;
       cnt \<leftarrow> gets (\<lambda>s. input_cnt (info s));
       devs \<leftarrow> gets dev_array;
       (if int (length devs) < cnt then undefined_behaviour else ret ());
       let (devs', n) = match_devs name i (take (nat cnt) devs);
       modify (\<lambda>s. s\<lparr>dev_array := devs' @ drop (nat cnt) devs\<rparr>);
       if n_found + n = cnt then ret (Some ())
       else find_input_device_ids_from fuel (i + 1) (n_found + n) }
   }"

definition find_input_device_ids :: "nat \<Rightarrow> (hal, unit option) state" where
  "find_input_device_ids fuel = find_input_device_ids_from fuel 0 0"

section \<open>Hints and time\<close>

text \<open>
  \<open>struct timespec\<close> of the monotonic clock.  On the 32-bit target \<open>tv_sec\<close> and \<open>tv_nsec\<close>
  are \<open>long\<close>, so the sum is computed in 32 bits and wraps before it is widened.
\<close>

definition long :: "int \<Rightarrow> int" where
  "long x = sint (word_of_int x :: u32)"

definition usec_time :: "int \<Rightarrow> u64" where
  "usec_time t =
     (let tv_sec = long (t div 1000000000); tv_nsec = t mod 1000000000
      in word_of_int (long (long (tv_sec * 1000000) + tv_nsec div 1000)))"

text \<open>
  Both operations of that sum are signed: outside \<open>long\<close> they are undefined, and the wrapped value
  stands for what compilers make of them.
\<close>

definition clock_defined :: "int \<Rightarrow> bool" where
  "clock_defined t =
     (let usec = t div 1000000000 * 1000000
      in int32 usec \<and> int32 (usec + t mod 1000000000 div 1000))"

definition read_clock :: "(hal, u64) state" where
  "read_clock = do {
     t \<leftarrow> gets now;
     require (clock_defined t);
     ret (usec_time t)
   }"

text \<open>The test of the interval, for a clock value that has been read before.\<close>

definition check_interval :: "power_hints \<Rightarrow> nat \<Rightarrow> u64 \<Rightarrow> (hal, u64 option) state" where
  "check_interval H hint time = do {
     require (hint < MAX_POWER_HINT_COUNT H);
     p \<leftarrow> gets info;
     if hint_time p hint \<noteq> 0 \<and> hint_interval p hint \<noteq> 0
        \<and> time - hint_time p hint < hint_interval p hint
     then ret None
     else ret (Some time)
   }"

definition check_hint :: "power_hints \<Rightarrow> nat \<Rightarrow> (hal, u64 option) state" where
  "check_hint H hint =
     (if MAX_POWER_HINT_COUNT H \<le> hint then ret None
      else do {
        time \<leftarrow> read_clock;
        check_interval H hint time })"

definition is_available_frequency :: "powerhal_info \<Rightarrow> int \<Rightarrow> bool" where
  "is_available_frequency p freq =
     list_ex (\<lambda>i. available_frequencies p ! i = freq) [0..<nat (num_available_frequencies p)]"

section \<open>Opening\<close>

definition scaling_available_frequencies :: string where
  "scaling_available_frequencies = ''/sys/devices/system/cpu/cpu0/cpufreq/scaling_available_frequencies''"

definition idle_top_freq :: string where
  "idle_top_freq = ''/sys/devices/system/cpu/cpuquiet/tegra_cpuquiet/idle_top_freq''"

text \<open>\<open>atoi\<close> is undefined for a number that is not an \<open>int\<close>.\<close>

definition atoi_string :: "string \<Rightarrow> (hal, int) state" where
  "atoi_string s = do { require (int32 (atoi s)); ret (atoi s) }"

text \<open>On a buffer it also reads past the end when no other character follows the digits.\<close>

definition number_ends :: "string \<Rightarrow> bool" where
  "number_ends buf = (let s = dropWhile is_space buf;
        s' = (if s \<noteq> [] \<and> (hd s = CHR ''-'' \<or> hd s = CHR ''+'') then tl s else s)
      in dropWhile is_digit s' \<noteq> [])"

definition atoi_buf :: "string \<Rightarrow> (hal, int) state" where
  "atoi_buf buf = do {
     require (number_ends buf);
     atoi_string buf
   }"

text \<open>
  All calls of \<open>strtok (.., '' '')\<close> on a buffer: the tokens and the buffer they leave.
\<close>

definition strtok_buf :: "string \<Rightarrow> (hal, string list \<times> string) state" where
  "strtok_buf buf = (case c_string buf of
       None \<Rightarrow> do { undefined_behaviour; ret ([], buf) }
     | Some s \<Rightarrow> (let (ts, b) = strtok_all s in ret (ts, b @ drop (length s) buf)))"

text \<open>The lookup array: element \<open>i\<close> is read from token \<open>i\<close>, which may be missing.\<close>

definition store_frequencies :: "int \<Rightarrow> string list \<Rightarrow> (hal, int list) state" where
  "store_frequencies num ts = do {
     require (nat num \<le> length ts);
     require (list_all (\<lambda>t. int32 (atoi t)) (take (nat num) ts));
     ret (map atoi (take (nat num) ts))
   }"

definition first_at_least :: "int \<Rightarrow> int list \<Rightarrow> int \<Rightarrow> int" where
  "first_at_least bound fs deflt = (case find (\<lambda>f. bound \<le> f) fs of None \<Rightarrow> deflt | Some f \<Rightarrow> f)"

definition new_timeout_poker :: "(hal, unit) state" where
  "new_timeout_poker = do {
     n \<leftarrow> gets (\<lambda>s. length (pokers s));
     modify (\<lambda>s. s\<lparr>pokers := pokers s @ [new_poker]\<rparr>);
     set_info (\<lambda>p. p\<lparr>mTimeoutPoker := Some n\<rparr>)
   }"

definition read_frequencies :: "(hal, string) state" where
  "read_frequencies = do {
     buf \<leftarrow> sysfs_read scaling_available_frequencies (zeros 256) 256;
     (ts, buf) \<leftarrow> strtok_buf buf;
     let num = int (length ts) - 1;
     set_info (\<lambda>p. p\<lparr>num_available_frequencies := num\<rparr>);
     buf \<leftarrow> sysfs_read scaling_available_frequencies buf 256;
     (ts, buf) \<leftarrow> strtok_buf buf;
     fs \<leftarrow> store_frequencies num ts;
     set_info (\<lambda>p. p\<lparr>available_frequencies := fs\<rparr>);
     ret buf
   }"

definition read_limits :: "string \<Rightarrow> (hal, unit) state" where
  "read_limits buf = do {
     buf \<leftarrow> sysfs_read idle_top_freq buf 256;
     lp \<leftarrow> atoi_buf buf;
     set_info (\<lambda>p. p\<lparr>lp_max_frequency := lp,
       interaction_boost_frequency := first_at_least 1326000 (available_frequencies p) lp,
       animation_boost_frequency := first_at_least 1024000 (available_frequencies p) lp\<rparr>);
     buf \<leftarrow> sysfs_read SYS_NODE_CPU0_MAX_FREQ buf 256;
     mx \<leftarrow> atoi_buf buf;
     set_info (\<lambda>p. p\<lparr>cpu0_max_frequency := mx\<rparr>)
   }"

definition set_intervals :: "power_hints \<Rightarrow> powerhal_info \<Rightarrow> powerhal_info" where
  "set_intervals H p = p\<lparr>hint_interval := (hint_interval p)
       (POWER_HINT_INTERACTION H := 90000, POWER_HINT_CPU_BOOST H := 500000,
        POWER_HINT_AUDIO H := 500000, POWER_HINT_LOW_POWER H := 0)\<rparr>"

definition intervals_fit :: "power_hints \<Rightarrow> bool" where
  "intervals_fit H = list_all (\<lambda>h. h < MAX_POWER_HINT_COUNT H)
     [POWER_HINT_INTERACTION H, POWER_HINT_CPU_BOOST H, POWER_HINT_AUDIO H, POWER_HINT_LOW_POWER H]"

definition init_intervals :: "power_hints \<Rightarrow> (hal, unit) state" where
  "init_intervals H = do {
     require (intervals_fit H);
     set_info (set_intervals H)
   }"

definition common_power_open :: "power_hints \<Rightarrow> nat \<Rightarrow> (hal, unit option) state" where
  "common_power_open H fuel = do {
     p \<leftarrow> gets info;
     done_inputs \<leftarrow>
       (if \<not> input_devs p \<or> input_cnt p = 0
        then do {
          n \<leftarrow> get_input_count fuel;
          case n of
            None \<Rightarrow> ret None
          | Some c \<Rightarrow> do { set_info (\<lambda>p. p\<lparr>input_cnt := c\<rparr>); ret (Some ()) } }
        else find_input_device_ids fuel);
     case done_inputs of
       None \<Rightarrow> ret None
     | Some _ \<Rightarrow> do {
         new_timeout_poker;
         buf \<leftarrow> read_frequencies;
         read_limits buf;
         init_intervals H;
         fan \<leftarrow> sysfs_exists ''/sys/devices/platform/pwm-fan/pwm_cap'';
         set_info (\<lambda>p. p\<lparr>features_fan := fan\<rparr>);
         ret (Some ()) }
   }"

definition set_fan_cap :: "int \<Rightarrow> (hal, unit) state" where
  "set_fan_cap value = do {
     p \<leftarrow> gets info;
     if \<not> features_fan p then ret ()
     else sysfs_write_int ''/sys/devices/platform/pwm-fan/pwm_cap'' (if value < 0 then 70 else value)
   }"

definition set_affinity_daemon_enable :: "int \<Rightarrow> ('z kernel_scheme, unit) state" where
  "set_affinity_daemon_enable value =
     (if value = 1 then set_property_int AFFINITY_DAEMON_CONTROL_PROP 1
      else set_property_int AFFINITY_DAEMON_CONTROL_PROP 0)"

text \<open>Reading the table at an index outside it is undefined.\<close>

definition frequency_at :: "int \<Rightarrow> (hal, int) state" where
  "frequency_at i = do {
     p \<leftarrow> gets info;
     if 0 \<le> i \<and> i < int (length (available_frequencies p))
     then ret (available_frequencies p ! nat i)
     else do { undefined_behaviour; ret 0 }
   }"

definition common_power_init :: "power_hints \<Rightarrow> nat \<Rightarrow> (hal, unit option) state" where
  "common_power_init H fuel = do {
     r \<leftarrow> common_power_open H fuel;
     case r of
       None \<Rightarrow> ret None
     | Some _ \<Rightarrow> do {
         ftrace \<leftarrow> get_property_bool ''nvidia.hwc.ftrace_enable'' False;
         set_info (\<lambda>p. p\<lparr>ftrace_enable := ftrace\<rparr>);
         p \<leftarrow> gets info;
         top \<leftarrow> frequency_at (num_available_frequencies p - 1);
         request_timed_priority PMQOS_CONSTRAINT_CPU_FREQ PM_QOS_BOOST_PRIORITY PM_QOS_DEFAULT_VALUE
           top (s2ns 15);
         ret (Some ()) }
   }"

section \<open>What is undefined\<close>

lemma require_simps [simp]:
  "exec (require c) s = s\<lparr>undef := undef s \<or> \<not> c\<rparr>" "result (require c) s = ()"
  by (simp_all add: require_def)

lemma info_undef [simp]: "info (s\<lparr>undef := u\<rparr>) = info s"
  by (simp add: info_def)

lemma undef_same: "u = undef s \<Longrightarrow> s\<lparr>undef := u\<rparr> = s"
  by simp

lemma intervals_fit: "hints_ok H \<Longrightarrow> intervals_fit H"
  by (simp add: hints_ok_def intervals_fit_def MAX_POWER_HINT_COUNT_def)

text \<open>The clock fits until 2147 seconds, 483 milliseconds and 648 microseconds have passed.\<close>

lemma clock_defined_iff: "clock_defined t \<longleftrightarrow> - 2147000000000 \<le> t \<and> t < 2147483648000"
proof -
  define q r where "q = t div 1000000000" and "r = t mod 1000000000"
  have t: "t = q * 1000000000 + r" using div_mult_mod_eq [of t 1000000000] by (simp add: q_def r_def)
  have r: "0 \<le> r" "r < 1000000000" by (simp_all add: r_def)
  have "int32 (q * 1000000) \<and> int32 (q * 1000000 + r div 1000) \<longleftrightarrow> - 2147000000000 \<le> t \<and> t < 2147483648000"
  proof -
    consider "q \<le> - 2148" | "- 2147 \<le> q" "q \<le> 2147" | "2148 \<le> q" by linarith
    then show ?thesis using r unfolding t int32_def by cases auto
  qed
  then show ?thesis by (simp add: clock_defined_def Let_def q_def r_def)
qed

section \<open>Nodes are independent of the data of the HAL\<close>

lemma free_fd_hal [simp]:
  "free_fd (s\<lparr>pInfo := x\<rparr>) = free_fd s" "free_fd (s\<lparr>dev_array := y\<rparr>) = free_fd s"
  "free_fd (s\<lparr>uC_input_number := z\<rparr>) = free_fd s" "free_fd (s\<lparr>pokers := w\<rparr>) = free_fd s"
  "free_fd (s\<lparr>undef := u\<rparr>) = free_fd s"
  for s :: hal
  by (simp_all add: free_fd_def fd_slots_def)

lemma opened_hal [simp]:
  "opened (s\<lparr>pInfo := x\<rparr>) = opened s" "opened (s\<lparr>dev_array := y\<rparr>) = opened s"
  "opened (s\<lparr>uC_input_number := z\<rparr>) = opened s" "opened (s\<lparr>pokers := w\<rparr>) = opened s"
  "opened (s\<lparr>undef := u\<rparr>) = opened s"
  for s :: hal
  by (auto simp: fun_eq_iff opened_def open_error_def split: option.split)

lemma node_text_hal [simp]:
  "node_text (s\<lparr>errno := e\<rparr>) = node_text s"
  "node_text (s\<lparr>pInfo := x\<rparr>) = node_text s" "node_text (s\<lparr>dev_array := y\<rparr>) = node_text s"
  "node_text (s\<lparr>uC_input_number := z\<rparr>) = node_text s" "node_text (s\<lparr>pokers := w\<rparr>) = node_text s"
  "node_text (s\<lparr>undef := u\<rparr>) = node_text s"
  for s :: hal
  by (auto simp: fun_eq_iff node_text_def split: option.split)

lemma accessible_hal [simp]:
  "accessible (s\<lparr>errno := e\<rparr>) = accessible s"
  "accessible (s\<lparr>pInfo := x\<rparr>) = accessible s" "accessible (s\<lparr>dev_array := y\<rparr>) = accessible s"
  "accessible (s\<lparr>uC_input_number := z\<rparr>) = accessible s" "accessible (s\<lparr>pokers := w\<rparr>) = accessible s"
  "accessible (s\<lparr>undef := u\<rparr>) = accessible s"
  for s :: hal
  by (auto simp: fun_eq_iff accessible_def split: option.split)

lemma accepted_undef [simp]: "accepted (s\<lparr>undef := u\<rparr>) = accepted s" for s :: hal
  by (auto simp: fun_eq_iff accepted_def driver_write_def)

end
