(* ===== verification/Nv_Power_Hint.thy ===== *)
theory Nv_Power_Hint
  imports Nv_Power_Hal
begin

text \<open>
  \<open>power/nvpowerhal.cpp\<close>, continued: switching between the interactive and the idle settings of
  the CPU governor, and the power hints.
\<close>

section \<open>Power modes of the T210 build\<close>

record interactive_data =
  hispeed_freq :: string
  target_loads :: string
  above_hispeed_delay :: string
  timer_rate :: string
  min_sample_time :: string
  go_hispeed_load :: string

definition interactive_data_array :: "interactive_data list" where
  "interactive_data_array = [
     \<lparr>hispeed_freq = ''1122000'', target_loads = ''65 304000:75 1122000:80'',
       above_hispeed_delay = ''19000'', timer_rate = ''20000'', min_sample_time = ''41000'',
       go_hispeed_load = ''90''\<rparr>,
     \<lparr>hispeed_freq = ''1020000'', target_loads = ''65 256000:75 1020000:80'',
       above_hispeed_delay = ''41000'', timer_rate = ''20000'', min_sample_time = ''30000'',
       go_hispeed_load = ''99''\<rparr>,
     \<lparr>hispeed_freq = ''640000'', target_loads = ''65 256000:75 640000:80'',
       above_hispeed_delay = ''80000'', timer_rate = ''20000'', min_sample_time = ''30000'',
       go_hispeed_load = ''99''\<rparr>,
     \<lparr>hispeed_freq = ''1020000'', target_loads = ''65 256000:75 1020000:80'',
       above_hispeed_delay = ''41000'', timer_rate = ''20000'', min_sample_time = ''30000'',
       go_hispeed_load = ''99''\<rparr>,
     \<lparr>hispeed_freq = ''420000'', target_loads = ''80'',
       above_hispeed_delay = ''80000'', timer_rate = ''300000'', min_sample_time = ''30000'',
       go_hispeed_load = ''99''\<rparr>]"

definition mode_count :: int where "mode_count = int (length interactive_data_array)"

definition get_system_power_mode :: "(hal, int) state" where
  "get_system_power_mode = do {
     value \<leftarrow> property_get ''persist.sys.NV_POWER_MODE'' [];
     power_mode \<leftarrow> (if value \<noteq> [] then atoi_string value else ret (- 1));
     eco \<leftarrow> get_property_bool ''persist.sys.NV_ECO.STATE.ISECO'' False;
     ret (if eco then 2 else power_mode)
   }"

definition sysfs_write_data :: "string \<Rightarrow> string option \<Rightarrow> ('z kernel_scheme, unit) state" where
  "sysfs_write_data file data = (case data of None \<Rightarrow> ret () | Some d \<Rightarrow> sysfs_write file d)"

definition governor_writes :: "interactive_data \<Rightarrow> (string \<times> string) list" where
  "governor_writes d = [
     (''/sys/devices/system/cpu/cpufreq/interactive/hispeed_freq'', hispeed_freq d),
     (''/sys/devices/system/cpu/cpufreq/interactive/target_loads'', target_loads d),
     (''/sys/devices/system/cpu/cpufreq/interactive/above_hispeed_delay'', above_hispeed_delay d),
     (''/sys/devices/system/cpu/cpufreq/interactive/timer_rate'', timer_rate d),
     (''/sys/devices/system/cpu/cpufreq/interactive/min_sample_time'', min_sample_time d),
     (''/sys/devices/system/cpu/cpufreq/interactive/go_hispeed_load'', go_hispeed_load d)]"

definition set_interactive_governor :: "int \<Rightarrow> (hal, unit) state" where
  "set_interactive_governor mode =
     (if 0 \<le> mode \<and> mode < mode_count
      then write_seq (\<lambda>f d. sysfs_write_data f (Some d)) (governor_writes (interactive_data_array ! nat mode))
      else undefined_behaviour)"

definition set_power_mode_hint :: "int \<Rightarrow> (hal, unit) state" where
  "set_power_mode_hint mode =
     (if mode < 0 \<or> mode_count < mode then ret ()
      else do {
        value \<leftarrow> sysfs_read ''/sys/class/backlight/pwm-backlight/brightness'' (zeros 4) 4;
        status \<leftarrow> atoi_buf value;
        if status \<noteq> 0 then set_interactive_governor mode else ret () })"

section \<open>Interactive and idle\<close>

definition enable_input :: "string \<Rightarrow> int \<Rightarrow> (hal, unit) state" where
  "enable_input st i = do {
     r \<leftarrow> k_access (input_enabled_path i) W_OK;
     if r = 0 then sysfs_write (input_enabled_path i) st else ret ()
   }"

text \<open>One round of the loop over the input devices.\<close>

definition enable_device :: "string \<Rightarrow> nat \<Rightarrow> (hal, unit) state" where
  "enable_device st i = do {
     p \<leftarrow> gets info;
     devs \<leftarrow> gets dev_array;
     if \<not> input_devs p then enable_input st (int i)
     else if length devs \<le> i then undefined_behaviour
     else if dev_id (devs ! i) = - 1 then ret ()
     else enable_input st (dev_id (devs ! i))
   }"

definition k1_writes :: "int \<Rightarrow> (string \<times> string) list" where
  "k1_writes on = [
     (''/sys/devices/system/cpu/cpu0/cpufreq/scaling_min_freq'', if on = 0 then ''51000'' else ''306000''),
     (''/sys/devices/system/cpu/cpufreq/interactive/above_hispeed_delay'', if on = 0 then ''80000'' else ''15000''),
     (''/sys/devices/system/cpu/cpufreq/interactive/go_hispeed_load'', if on = 0 then ''45'' else ''0''),
     (''/sys/devices/system/cpu/cpufreq/interactive/hispeed_freq'', if on = 0 then ''696000'' else ''306000''),
     (''/sys/devices/system/cpu/cpufreq/interactive/io_is_busy'', if on = 0 then ''0'' else ''1''),
     (''/sys/devices/system/cpu/cpufreq/interactive/min_sample_time'', if on = 0 then ''80000'' else ''60000''),
     (''/sys/devices/system/cpu/cpufreq/interactive/target_loads'', if on = 0 then ''95'' else ''65 1224000:99''),
     (''/sys/devices/system/cpu/cpufreq/interactive/timer_rate'', if on = 0 then ''150000'' else ''15000''),
     (''/sys/devices/system/cpu/cpufreq/interactive/timer_slack'', if on = 0 then ''80000'' else ''60000''),
     (''/sys/kernel/debug/clock/override.c2bus/state'', if on = 0 then ''0'' else ''1''),
     (''/sys/module/autosmp/parameters/enabled'', if on = 0 then ''N'' else ''Y''),
     (''/sys/devices/system/cpu/cpu1/online'', if on = 0 then ''0'' else ''1''),
     (''/sys/devices/system/cpu/cpu2/online'', if on = 0 then ''0'' else ''1''),
     (''/sys/devices/system/cpu/cpu3/online'', if on = 0 then ''0'' else ''1''),
     (''/sys/kernel/cluster/active'', if on = 0 then ''LP'' else [])]"

text \<open>
  The mode of the T210 branch: the source takes 0 for a mode it does not know, and the number of
  modes when the display goes off.
\<close>

definition t210_mode :: "int \<Rightarrow> (hal, int) state" where
  "t210_mode on =
     (if on \<noteq> 0 then do {
        power_mode \<leftarrow> get_system_power_mode;
        ret (if power_mode < 0 \<or> mode_count \<le> power_mode then 0 else power_mode) }
      else ret mode_count)"

definition common_power_set_interactive :: "build \<Rightarrow> int \<Rightarrow> (hal, unit) state" where
  "common_power_set_interactive B on = do {
     let st = (if on = 0 then ''0'' else ''1'');
     sysfs_write ''/sys/devices/platform/host1x/nvavp/boost_sclk'' st;
     p \<leftarrow> gets pInfo;
     (case p of
        None \<Rightarrow> ret ()
      | Some p \<Rightarrow> for_each [0..<nat (input_cnt p)] (enable_device st));
     (case B of
        T210 \<Rightarrow> do { mode \<leftarrow> t210_mode on; set_interactive_governor mode }
      | Legacy \<Rightarrow> sysfs_write ''/sys/devices/system/cpu/cpu0/cpufreq/scaling_governor''
          (if on = 0 then ''conservative'' else ''interactive'')
      | K1 \<Rightarrow> write_seq sysfs_write (k1_writes on))
   }"

section \<open>Hints\<close>

definition hint_interaction :: "(hal, unit) state" where
  "hint_interaction = do {
     p \<leftarrow> gets info;
     (if ftrace_enable p
      then sysfs_write ''/sys/kernel/debug/tracing/trace_marker'' (''Start POWER_HINT_INTERACTION'' @ [NL])
      else ret ());
     request_timed_priority PMQOS_CONSTRAINT_CPU_FREQ PM_QOS_BOOST_PRIORITY PM_QOS_DEFAULT_VALUE
       (interaction_boost_frequency p) (ms2ns 100);
     request_timed_priority PMQOS_CONSTRAINT_ONLINE_CPUS PM_QOS_BOOST_PRIORITY PM_QOS_DEFAULT_VALUE
       2 (s2ns 2);
     request_timed_priority PMQOS_CONSTRAINT_CPU_FREQ PM_QOS_BOOST_PRIORITY PM_QOS_DEFAULT_VALUE
       (animation_boost_frequency p) (s2ns 2);
     request_timed_priority PMQOS_CONSTRAINT_GPU_FREQ PM_QOS_BOOST_PRIORITY PM_QOS_DEFAULT_VALUE
       180000 (s2ns 2);
     request_timed ''/dev/emc_freq_min'' 396000 (s2ns 2)
   }"

definition hint_cpu_boost :: "(hal, unit) state" where
  "hint_cpu_boost = do {
     request_timed_priority PMQOS_CONSTRAINT_CPU_FREQ PM_QOS_BOOST_PRIORITY PM_QOS_DEFAULT_VALUE
       INT_MAX (ms2ns 1500);
     request_timed_priority PMQOS_CONSTRAINT_ONLINE_CPUS PM_QOS_BOOST_PRIORITY PM_QOS_DEFAULT_VALUE
       2 (ms2ns 1500);
     request_timed_priority PMQOS_CONSTRAINT_GPU_FREQ PM_QOS_BOOST_PRIORITY PM_QOS_DEFAULT_VALUE
       180000 (ms2ns 1500);
     request_timed ''/dev/emc_freq_min'' 792000 (ms2ns 1500)
   }"

definition hint_audio :: "(hal, unit) state" where
  "hint_audio =
     request_timed_priority PMQOS_CONSTRAINT_CPU_FREQ PM_QOS_BOOST_PRIORITY PM_QOS_DEFAULT_VALUE
       512000 (s2ns 1)"

definition hint_low_power :: "build \<Rightarrow> bool \<Rightarrow> (hal, unit) state" where
  "hint_low_power B data =
     (if B = T210 then set_power_mode_hint (if data then 2 else 0)
      else do {
        request_timed_priority PMQOS_MAX_CPU_FREQ PM_QOS_BOOST_PRIORITY PM_QOS_DEFAULT_VALUE
          (if data then 1020000 else INT_MAX) (s2ns 1);
        request_timed_priority PMQOS_MAX_ONLINE_CPUS PM_QOS_BOOST_PRIORITY PM_QOS_DEFAULT_VALUE
          (if data then 1 else INT_MAX) (s2ns 1) })"

text \<open>
  The \<open>switch\<close> over the hint, and the note of its time.  \<open>data\<close> says whether the pointer of that name
  is not null; nothing reads through it.
\<close>

definition hint_actions :: "build \<Rightarrow> power_hints \<Rightarrow> nat \<Rightarrow> bool \<Rightarrow> (hal, unit) state" where
  "hint_actions B H hint data =
     (if hint = POWER_HINT_VSYNC H then ret ()
      else if hint = POWER_HINT_INTERACTION H then hint_interaction
      else if hint = POWER_HINT_CPU_BOOST H then hint_cpu_boost
      else if hint = POWER_HINT_AUDIO H then hint_audio
      else if hint = POWER_HINT_LOW_POWER H then hint_low_power B data
      else ret ())"

definition note_hint :: "power_hints \<Rightarrow> nat \<Rightarrow> u64 \<Rightarrow> (hal, unit) state" where
  "note_hint H hint t = do {
     require (hint < MAX_POWER_HINT_COUNT H);
     set_info (\<lambda>p. p\<lparr>hint_time := (hint_time p)(hint := t)\<rparr>)
   }"

definition common_power_hint :: "build \<Rightarrow> power_hints \<Rightarrow> nat \<Rightarrow> bool \<Rightarrow> (hal, unit) state" where
  "common_power_hint B H hint data = do {
     p \<leftarrow> gets pInfo;
     if p = None then ret ()
     else do {
       t \<leftarrow> check_hint H hint;
       case t of
         None \<Rightarrow> ret ()
       | Some t \<Rightarrow> do {
           hint_actions B H hint data;
           note_hint H hint t } }
   }"

end
