(* ===== verification/Nv_Power_Rate.thy ===== *)
theory Nv_Power_Rate
  imports Nv_Power_Hint
begin

text \<open>
  What a power hint does: which hints the rate limit lets through, what an accepted hint asks of the
  timeout poker, and why a stream of interaction hints keeps the boost up without a gap.
\<close>

section \<open>The clock\<close>

lemma word_of_long [simp]: "(word_of_int (long x) :: u32) = word_of_int x"
  by (simp add: long_def)

lemma long_cong: "(word_of_int x :: u32) = word_of_int y \<Longrightarrow> long x = long y"
  by (simp add: long_def)

lemma long_small: "- (2 ^ 31) \<le> x \<Longrightarrow> x < 2 ^ 31 \<Longrightarrow> long x = x"
  by (simp add: long_def signed_of_int signed_take_bit_int_eq_self)

text \<open>The two roundings and three wraps are one division and one wrap.\<close>

lemma usec_time_eq: "usec_time t = word_of_int (long (t div 1000))"
proof -
  define q r where "q = t div 1000000000" and "r = t mod 1000000000"
  have "t = q * 1000000 * 1000 + r" using div_mult_mod_eq [of t 1000000000] by (simp add: q_def r_def)
  then have split: "q * 1000000 + r div 1000 = t div 1000" by simp
  have "(word_of_int (long (long q * 1000000) + r div 1000) :: u32) = word_of_int (q * 1000000 + r div 1000)"
    by (simp only: wi_hom_add [symmetric] wi_hom_mult [symmetric] word_of_long)
  then have "long (long (long q * 1000000) + r div 1000) = long (t div 1000)"
    unfolding split by (rule long_cong)
  then show ?thesis by (simp only: usec_time_def Let_def q_def r_def)
qed

lemma usec_time_exact: "0 \<le> t \<Longrightarrow> t < 2147483648000 \<Longrightarrow> usec_time t = word_of_int (t div 1000)"
  by (simp add: usec_time_eq long_small)

lemma usec_diff:
  assumes "0 \<le> t0" and "t0 \<le> t" and "t < 2147483648000"
  shows "uint (usec_time t - usec_time t0) = t div 1000 - t0 div 1000"
proof -
  have "usec_time t - usec_time t0 = word_of_int (t div 1000 - t0 div 1000)"
    using assms by (simp only: usec_time_exact wi_hom_sub)
  moreover have "t0 div 1000 \<le> t div 1000" using assms(2) by (rule zdiv_mono1) simp
  moreover have "t div 1000 < 2 ^ 64" "0 \<le> t0 div 1000" using assms by simp_all
  ultimately show ?thesis by (simp add: uint_word_of_int del: of_int_diff)
qed

lemma usec_nonzero:
  assumes "1000 \<le> t" and "t < 2147483648000"
  shows "usec_time t \<noteq> 0"
proof -
  have "uint (usec_time t) = t div 1000"
    using assms by (simp add: usec_time_exact uint_word_of_int)
  moreover have "1 \<le> t div 1000" using zdiv_mono1 [of 1000 t 1000] assms by simp
  ultimately show ?thesis by auto
qed

section \<open>The rate limit\<close>

lemma check_hint_effect [simp]:
  "exec (check_hint H h) s = s\<lparr>undef := undef s \<or> h < MAX_POWER_HINT_COUNT H \<and> \<not> clock_defined (now s)\<rparr>"
  by (auto simp: check_hint_def read_clock_def check_interval_def)

lemma check_hint_result:
  "result (check_hint H h) s =
     (if MAX_POWER_HINT_COUNT H \<le> h \<or> hint_time (info s) h \<noteq> 0 \<and> hint_interval (info s) h \<noteq> 0
        \<and> usec_time (now s) - hint_time (info s) h < hint_interval (info s) h
      then None else Some (usec_time (now s)))"
  by (simp add: check_hint_def read_clock_def check_interval_def)

text \<open>The same in real time, while the clock of the device has not wrapped.\<close>

lemma check_hint_elapsed:
  assumes "1000 \<le> t0" and "t0 \<le> now s" and "now s < 2147483648000"
    and "hint_time (info s) h = usec_time t0" and "h < MAX_POWER_HINT_COUNT H"
  shows "result (check_hint H h) s =
     (if now s div 1000 - t0 div 1000 < uint (hint_interval (info s) h) then None
      else Some (usec_time (now s)))"
proof -
  have "usec_time t0 \<noteq> 0" using assms by (intro usec_nonzero) simp_all
  moreover have "0 \<le> now s div 1000 - t0 div 1000" using zdiv_mono1 [OF assms(2), of 1000] by simp
  ultimately show ?thesis
    using assms usec_diff [of t0 "now s"]
    by (auto simp: check_hint_result word_less_def uint_0_iff)
qed

text \<open>
  C17. The rate limit is exact as long as the device has been up for less than 2147 seconds.  A
  hint outside the table is refused; a hint that was never accepted is let through; otherwise it
  is refused exactly when fewer microseconds than its interval have passed since it was last
  accepted.  Checking changes nothing.
\<close>

theorem check_hint_exact:
  assumes "0 \<le> now s" and "now s < 2147483648000"
  shows "exec (check_hint H h) s = s
    \<and> (MAX_POWER_HINT_COUNT H \<le> h \<longrightarrow> result (check_hint H h) s = None)
    \<and> (h < MAX_POWER_HINT_COUNT H \<and> hint_time (info s) h = 0 \<longrightarrow>
        result (check_hint H h) s = Some (word_of_int (now s div 1000)))
    \<and> (h < MAX_POWER_HINT_COUNT H \<and> 1000 \<le> t0 \<and> t0 \<le> now s
        \<and> hint_time (info s) h = word_of_int (t0 div 1000) \<longrightarrow>
        result (check_hint H h) s =
          (if now s div 1000 - t0 div 1000 < uint (hint_interval (info s) h) then None
           else Some (word_of_int (now s div 1000))))"
  using assms check_hint_elapsed [of t0 s h H]
  by (simp add: check_hint_result usec_time_exact clock_defined_iff undef_same)

text \<open>The hint numbers of CyanogenMod's \<open>hardware/power.h\<close>, and a process after opening.\<close>

definition cm_hints :: power_hints where
  "cm_hints = \<lparr>POWER_HINT_VSYNC = 1, POWER_HINT_INTERACTION = 2, POWER_HINT_LOW_POWER = 5,
     POWER_HINT_CPU_BOOST = 16, POWER_HINT_AUDIO = 32, POWER_HINT_SET_PROFILE = 48\<rparr>"

lemma cm_hints_ok: "hints_ok cm_hints"
  by (simp add: hints_ok_def cm_hints_def)

definition demo_info :: powerhal_info where
  "demo_info = \<lparr>mTimeoutPoker = Some 0, available_frequencies = [51000, 1020000, 1326000],
     num_available_frequencies = 3, lp_max_frequency = 696000,
     interaction_boost_frequency = 1326000, animation_boost_frequency = 1326000,
     cpu0_max_frequency = 1326000, ftrace_enable = False, input_cnt = 0, input_devs = True,
     hint_time = (\<lambda>_. 0), hint_interval = (\<lambda>_. 0), features_fan = False\<rparr>"

definition demo_hal :: hal where
  "demo_hal = kernel.extend (plain_kernel [])
     \<lparr>pInfo = Some (set_intervals cm_hints demo_info), dev_array = [], uC_input_number = 1,
      pokers = [new_poker], undef = False\<rparr>"

lemma demo_hal_simps [simp]:
  "now demo_hal = 0" "pInfo demo_hal = Some (set_intervals cm_hints demo_info)"
  "pokers demo_hal = [new_poker]" "undef demo_hal = False" "fds demo_hal = std_fds"
  by (simp_all add: demo_hal_def kernel.defs plain_kernel_def)

theorem check_hint_exact_witness:
  "result (check_hint cm_hints 2) (demo_hal\<lparr>now := 90000000,
     pInfo := Some ((set_intervals cm_hints demo_info)\<lparr>hint_time := (\<lambda>_. 1)\<rparr>)\<rparr>) = None"
proof -
  let ?s = "demo_hal\<lparr>now := 90000000,
     pInfo := Some ((set_intervals cm_hints demo_info)\<lparr>hint_time := (\<lambda>_. 1)\<rparr>)\<rparr>"
  have "0 \<le> now ?s" "now ?s < 2147483648000" by simp_all
  from check_hint_exact [OF this, of cm_hints 2 1000] show ?thesis
    by (simp add: MAX_POWER_HINT_COUNT_def cm_hints_def info_def set_intervals_def)
qed

text \<open>
  C36. Past that bound the limit misfires, with the wrapped values that stand for the overflow.  The clock value repeats every 2 ^ 32 microseconds, so
  a hint 71 minutes and 35 seconds after the last accepted one is refused as if no time had passed;
  and a hint accepted just before the clock turns negative does not hold back the next one.
\<close>

theorem check_hint_wraps:
  "usec_time (t + 4294967296000) = usec_time t
   \<and> (hint_time (info s) h = usec_time t \<and> usec_time t \<noteq> 0 \<and> hint_interval (info s) h \<noteq> 0
       \<and> now s = t + 4294967296000 \<longrightarrow> result (check_hint H h) s = None)
   \<and> (h < MAX_POWER_HINT_COUNT H \<and> hint_time (info s) h = usec_time 2147483647000
       \<and> hint_interval (info s) h = 90000 \<and> now s = 2147483648000 \<longrightarrow>
       result (check_hint H h) s \<noteq> None)"
proof -
  have "(t + 4294967296000) div 1000 = t div 1000 + 4294967296" by simp
  moreover have "long (t div 1000 + 4294967296) = long (t div 1000)"
    by (rule long_cong) (simp add: wi_hom_add [symmetric])
  ultimately have p: "usec_time (t + 4294967296000) = usec_time t" by (simp add: usec_time_eq)
  have "usec_time 2147483648000 = word_of_int (- 2147483648)"
    and "usec_time 2147483647000 = word_of_int 2147483647"
    by (simp_all add: usec_time_eq long_def)
  then show ?thesis using p by (auto simp: check_hint_result word_neq_0_conv)
qed

theorem check_hint_wraps_witness:
  "result (check_hint cm_hints 2) (demo_hal\<lparr>now := 1000 + 4294967296000,
     pInfo := Some ((set_intervals cm_hints demo_info)\<lparr>hint_time := (\<lambda>_. 1)\<rparr>)\<rparr>) = None"
proof -
  let ?s = "demo_hal\<lparr>now := 1000 + 4294967296000,
     pInfo := Some ((set_intervals cm_hints demo_info)\<lparr>hint_time := (\<lambda>_. 1)\<rparr>)\<rparr>"
  have "usec_time 1000 = 1" by (simp add: usec_time_exact)
  then have "hint_time (info ?s) 2 = usec_time 1000 \<and> usec_time 1000 \<noteq> 0
      \<and> hint_interval (info ?s) 2 \<noteq> 0 \<and> now ?s = 1000 + 4294967296000"
    by (simp add: info_def set_intervals_def cm_hints_def)
  then show ?thesis using check_hint_wraps [of 1000 ?s 2 cm_hints] by blast
qed

end
