(* ===== verification/Nv_Power_Requests.thy ===== *)
theory Nv_Power_Requests
  imports Nv_Power_Rate
begin

text \<open>
  What an accepted hint asks of the timeout poker, as a list of events, and the stream of
  interaction hints.
\<close>

section \<open>The plan of a hint\<close>

definition interaction_plan :: "powerhal_info \<Rightarrow> queued_event list" where
  "interaction_plan p = [
     timed_event_priority PMQOS_CONSTRAINT_CPU_FREQ 35 (- 1) (interaction_boost_frequency p) 100000000,
     timed_event_priority PMQOS_CONSTRAINT_ONLINE_CPUS 35 (- 1) 2 2000000000,
     timed_event_priority PMQOS_CONSTRAINT_CPU_FREQ 35 (- 1) (animation_boost_frequency p) 2000000000,
     timed_event_priority PMQOS_CONSTRAINT_GPU_FREQ 35 (- 1) 180000 2000000000,
     timed_event ''/dev/emc_freq_min'' 396000 2000000000]"

definition cpu_boost_plan :: "queued_event list" where
  "cpu_boost_plan = [
     timed_event_priority PMQOS_CONSTRAINT_CPU_FREQ 35 (- 1) 2147483647 1500000000,
     timed_event_priority PMQOS_CONSTRAINT_ONLINE_CPUS 35 (- 1) 2 1500000000,
     timed_event_priority PMQOS_CONSTRAINT_GPU_FREQ 35 (- 1) 180000 1500000000,
     timed_event ''/dev/emc_freq_min'' 792000 1500000000]"

definition audio_plan :: "queued_event list" where
  "audio_plan = [timed_event_priority PMQOS_CONSTRAINT_CPU_FREQ 35 (- 1) 512000 1000000000]"

definition low_power_plan :: "bool \<Rightarrow> queued_event list" where
  "low_power_plan data = [
     timed_event_priority PMQOS_MAX_CPU_FREQ 35 (- 1) (if data then 1020000 else 2147483647) 1000000000,
     timed_event_priority PMQOS_MAX_ONLINE_CPUS 35 (- 1) (if data then 1 else 2147483647) 1000000000]"

definition hint_plan :: "build \<Rightarrow> power_hints \<Rightarrow> powerhal_info \<Rightarrow> nat \<Rightarrow> bool \<Rightarrow> queued_event list" where
  "hint_plan B H p hint data =
     (if hint = POWER_HINT_INTERACTION H then interaction_plan p
      else if hint = POWER_HINT_CPU_BOOST H then cpu_boost_plan
      else if hint = POWER_HINT_AUDIO H then audio_plan
      else if hint = POWER_HINT_LOW_POWER H \<and> B \<noteq> T210 then low_power_plan data
      else [])"

definition trace_mark :: "string \<times> string" where
  "trace_mark = (''/sys/kernel/debug/tracing/trace_marker'', ''Start POWER_HINT_INTERACTION'' @ [NL])"

definition push_all :: "int \<Rightarrow> queued_event list \<Rightarrow> poker \<Rightarrow> poker" where
  "push_all t es p = fold (pushEvent t) es p"

lemma push_all_simps [simp]:
  "push_all t [] p = p" "push_all t (e # es) p = push_all t es (pushEvent t e p)"
  by (simp_all add: push_all_def)

lemmas request_defs = request_timed_def request_timed_priority_def on_poker_def requestPmQosTimed_def
  requestPmQosTimed_priority_def PM_QOS_DEFAULT_VALUE_def PM_QOS_BOOST_PRIORITY_def s2ns_def ms2ns_def
  INT_MAX_def

definition with_requests :: "nat \<Rightarrow> queued_event list \<Rightarrow> hal \<Rightarrow> hal" where
  "with_requests i es s = s\<lparr>pokers := (pokers s)[i := push_all (now s) es (pokers s ! i)]\<rparr>"

lemma with_requests_simps [simp]:
  "pInfo (with_requests i es s) = pInfo s" "info (with_requests i es s) = info s"
  "fds (with_requests i es s) = fds s" "wlog (with_requests i es s) = wlog s"
  "undef (with_requests i es s) = undef s" "now (with_requests i es s) = now s"
  "length (pokers (with_requests i es s)) = length (pokers s)"
  "props (with_requests i es s) = props s"
  by (simp_all add: with_requests_def info_def)

lemma exec_hint_plans:
  assumes "mTimeoutPoker (info s) = Some i" and "i < length (pokers s)"
  shows "exec hint_cpu_boost s = with_requests i cpu_boost_plan s"
    and "exec hint_audio s = with_requests i audio_plan s"
    and "B \<noteq> T210 \<Longrightarrow> exec (hint_low_power B data) s = with_requests i (low_power_plan data) s"
  using assms
  by (simp_all add: hint_cpu_boost_def hint_audio_def hint_low_power_def request_defs with_requests_def
      cpu_boost_plan_def audio_plan_def low_power_plan_def info_def)

lemma exec_hint_interaction:
  assumes "mTimeoutPoker (info s) = Some i" and "i < length (pokers s)"
  shows "\<exists>e. exec hint_interaction s = with_requests i (interaction_plan (info s))
     (s\<lparr>wlog := wlog s @ (if ftrace_enable (info s) then accepted s O_WRONLY trace_mark else []), errno := e\<rparr>)"
proof (cases "ftrace_enable (info s)")
  case True
  obtain e where e: "exec (sysfs_write (fst trace_mark) (snd trace_mark)) s
      = s\<lparr>wlog := wlog s @ accepted s O_WRONLY trace_mark, errno := e\<rparr>"
    using sw.wr_effect [of s "fst trace_mark" "snd trace_mark"] by (auto simp: same_but_errno_def)
  show ?thesis
    using True assms e
    by (intro exI [of _ e]) (simp add: hint_interaction_def request_defs with_requests_def
        interaction_plan_def info_def trace_mark_def)
next
  case False
  have "s = s\<lparr>wlog := wlog s, errno := errno s\<rparr>" by simp
  then show ?thesis
    using False assms
    by (intro exI [of _ "errno s"]) (simp add: hint_interaction_def request_defs with_requests_def
        interaction_plan_def info_def)
qed

lemma hint_actions_effect:
  assumes "hints_ok H" and "pInfo s = Some p" and "mTimeoutPoker p = Some i" and "i < length (pokers s)"
    and "B \<noteq> T210 \<or> hint \<noteq> POWER_HINT_LOW_POWER H"
  shows "\<exists>e. exec (hint_actions B H hint data) s =
    s\<lparr>wlog := wlog s @ (if hint = POWER_HINT_INTERACTION H \<and> ftrace_enable p
                        then accepted s O_WRONLY trace_mark else []),
      errno := e, pokers := (pokers s)[i := push_all (now s) (hint_plan B H p hint data) (pokers s ! i)]\<rparr>"
proof -
  have poker: "mTimeoutPoker (info s) = Some i" using assms(2,3) by (simp add: info_def)
  show ?thesis
  proof (cases "hint = POWER_HINT_INTERACTION H")
    case True
    then have "hint \<noteq> POWER_HINT_VSYNC H" using assms(1) by (auto simp: hints_ok_def)
    moreover obtain e where "exec hint_interaction s = with_requests i (interaction_plan (info s))
        (s\<lparr>wlog := wlog s @ (if ftrace_enable (info s) then accepted s O_WRONLY trace_mark else []), errno := e\<rparr>)"
      using exec_hint_interaction [OF poker assms(4)] by blast
    ultimately show ?thesis
      using True assms(2) by (auto simp: hint_actions_def hint_plan_def info_def with_requests_def)
  next
    case False
    have none: "with_requests i [] s = s" by (simp add: with_requests_def)
    have "exec (hint_actions B H hint data) s = with_requests i (hint_plan B H p hint data) s"
      using False assms(1,5) exec_hint_plans [OF poker assms(4)] none
      by (auto simp: hint_actions_def hint_plan_def hints_ok_def)
    also have "\<dots> = s\<lparr>wlog := wlog s @ [], errno := errno s,
        pokers := (pokers s)[i := push_all (now s) (hint_plan B H p hint data) (pokers s ! i)]\<rparr>"
      by (simp add: with_requests_def)
    finally show ?thesis using False by (simp only: simp_thms if_False) (rule exI, rule refl)
  qed
qed

lemma note_hint_effect:
  "hint < MAX_POWER_HINT_COUNT H \<Longrightarrow> pInfo s = Some p \<Longrightarrow>
   exec (note_hint H hint t) s = s\<lparr>pInfo := Some (p\<lparr>hint_time := (hint_time p)(hint := t)\<rparr>)\<rparr>"
  by (simp add: note_hint_def set_info_def undef_same)

lemma common_power_hint_effect:
  assumes "hints_ok H" and "pInfo s = Some p" and "mTimeoutPoker p = Some i" and "i < length (pokers s)"
    and "B \<noteq> T210 \<or> hint \<noteq> POWER_HINT_LOW_POWER H"
  shows "case result (check_hint H hint) s of
      None \<Rightarrow> exec (common_power_hint B H hint data) s
        = s\<lparr>undef := undef s \<or> hint < MAX_POWER_HINT_COUNT H \<and> \<not> clock_defined (now s)\<rparr>
    | Some t \<Rightarrow> \<exists>e. exec (common_power_hint B H hint data) s =
        s\<lparr>wlog := wlog s @ (if hint = POWER_HINT_INTERACTION H \<and> ftrace_enable p
                            then accepted s O_WRONLY trace_mark else []),
          errno := e, undef := undef s \<or> \<not> clock_defined (now s),
          pokers := (pokers s)[i := push_all (now s) (hint_plan B H p hint data) (pokers s ! i)],
          pInfo := Some (p\<lparr>hint_time := (hint_time p)(hint := t)\<rparr>)\<rparr>"
proof (cases "result (check_hint H hint) s")
  case None
  then show ?thesis using assms(2) by (simp add: common_power_hint_def)
next
  case (Some t)
  then have h: "hint < MAX_POWER_HINT_COUNT H" by (auto simp: check_hint_result split: if_splits)
  let ?s = "s\<lparr>undef := undef s \<or> \<not> clock_defined (now s)\<rparr>"
  obtain e where "exec (hint_actions B H hint data) ?s =
    ?s\<lparr>wlog := wlog s @ (if hint = POWER_HINT_INTERACTION H \<and> ftrace_enable p
                        then accepted s O_WRONLY trace_mark else []),
      errno := e, pokers := (pokers s)[i := push_all (now s) (hint_plan B H p hint data) (pokers s ! i)]\<rparr>"
    using hint_actions_effect [of H ?s p i B hint data, unfolded accepted_undef] assms by auto
  moreover have "exec (common_power_hint B H hint data) s = exec (note_hint H hint t) (exec (hint_actions B H hint data) ?s)"
    using Some h assms(2) by (simp add: common_power_hint_def)
  ultimately show ?thesis unfolding Some option.case
    by (intro exI [of _ e]) (simp add: note_hint_effect [OF h] assms(2))
qed

text \<open>
  C14. An accepted hint queues exactly the requests of its plan, in their order and at the time of the
  call, with the poker of the HAL; it records the time of the hint, and with tracing on it offers
  one line to the trace marker.  A refused hint does nothing.  No descriptor is touched, and
  nothing undefined happens, unless the hint is one of the table and the microseconds of the clock no
  longer fit a \<open>long\<close>.
\<close>

theorem common_power_hint_requests:
  assumes "hints_ok H" and "pInfo s = Some p" and "mTimeoutPoker p = Some i" and "i < length (pokers s)"
    and "B \<noteq> T210 \<or> hint \<noteq> POWER_HINT_LOW_POWER H"
  shows "case result (check_hint H hint) s of
      None \<Rightarrow> exec (common_power_hint B H hint data) s
        = s\<lparr>undef := undef s \<or> hint < MAX_POWER_HINT_COUNT H \<and> \<not> clock_defined (now s)\<rparr>
    | Some t \<Rightarrow> \<exists>e. exec (common_power_hint B H hint data) s =
        s\<lparr>wlog := wlog s @ (if hint = POWER_HINT_INTERACTION H \<and> ftrace_enable p
                            then accepted s O_WRONLY trace_mark else []),
          errno := e, undef := undef s \<or> \<not> clock_defined (now s),
          pokers := (pokers s)[i := push_all (now s) (hint_plan B H p hint data) (pokers s ! i)],
          pInfo := Some (p\<lparr>hint_time := (hint_time p)(hint := t)\<rparr>)\<rparr>"
  by (rule common_power_hint_effect [OF assms])

theorem common_power_hint_requests_witness:
  "length (mailbox (pokers (exec (common_power_hint K1 cm_hints 2 False) demo_hal) ! 0)) = 5"
proof -
  have "result (check_hint cm_hints 2) demo_hal = Some 0"
    by (simp add: check_hint_result MAX_POWER_HINT_COUNT_def cm_hints_def info_def set_intervals_def
        demo_info_def usec_time_exact)
  then obtain e where "exec (common_power_hint K1 cm_hints 2 False) demo_hal = demo_hal\<lparr>
      wlog := wlog demo_hal, errno := e, undef := False,
      pokers := [push_all 0 (interaction_plan (set_intervals cm_hints demo_info)) new_poker],
      pInfo := Some ((set_intervals cm_hints demo_info)\<lparr>hint_time := (\<lambda>_. 0)(2 := 0)\<rparr>)\<rparr>"
    using common_power_hint_requests [OF cm_hints_ok, of demo_hal "set_intervals cm_hints demo_info" 0 K1 2 False]
    by (auto simp: set_intervals_def demo_info_def hint_plan_def cm_hints_def clock_defined_iff)
  then show ?thesis
    by (simp add: interaction_plan_def pushEvent_def sendEventDelayed_def generateNewKey_def new_poker_def)
qed

section \<open>The bag of requests\<close>

lemma pushEvent_fun: "pushEvent t = sendEventDelayed t 0"
  by (simp add: fun_eq_iff pushEvent_def)

lemma push_all_bag:
  "table_ok n p \<Longrightarrow> n + length es \<le> key_limit \<Longrightarrow>
   table_ok (n + length es) (push_all t es p) \<and> queued (push_all t es p) = queued p + mset (map (Pair t) es)"
  using eq.send_all [of n p "map (Pair 0) es" t]
  by (simp add: push_all_def pushEvent_fun fold_map comp_def split_def)

section \<open>A stream of interaction hints\<close>

definition touch :: "build \<Rightarrow> power_hints \<Rightarrow> bool \<Rightarrow> int \<Rightarrow> hal \<Rightarrow> hal" where
  "touch B H data t s = exec (common_power_hint B H (POWER_HINT_INTERACTION H) data) (s\<lparr>now := t\<rparr>)"

definition touches :: "build \<Rightarrow> power_hints \<Rightarrow> bool \<Rightarrow> int list \<Rightarrow> hal \<Rightarrow> hal" where
  "touches B H data ts s = fold (touch B H data) ts s"

text \<open>Times that rise by at most \<open>gap\<close> each, and stay where the clock has not wrapped.\<close>

fun steady :: "int \<Rightarrow> int \<Rightarrow> int list \<Rightarrow> bool" where
  "steady gap t [] \<longleftrightarrow> True"
| "steady gap t (u # us) \<longleftrightarrow> t \<le> u \<and> u \<le> t + gap \<and> u < 2147483648000 \<and> steady gap u us"

definition boost_event :: "int \<Rightarrow> queued_event" where
  "boost_event f = timed_event_priority PMQOS_CONSTRAINT_CPU_FREQ 35 (- 1) f 100000000"

text \<open>
  The HAL \<open>p\<close> uses poker \<open>i\<close>, whose table holds at most \<open>n\<close> events; \<open>a\<close> is the time of the
  last accepted interaction hint, whose request is with the poker.
\<close>

definition stream_inv :: "power_hints \<Rightarrow> nat \<Rightarrow> int \<Rightarrow> nat \<Rightarrow> int \<Rightarrow> hal \<Rightarrow> bool" where
  "stream_inv H i f n a s \<longleftrightarrow> (\<exists>p. pInfo s = Some p \<and> mTimeoutPoker p = Some i \<and> i < length (pokers s)
     \<and> interaction_boost_frequency p = f \<and> hint_interval p (POWER_HINT_INTERACTION H) = 90000
     \<and> hint_time p (POWER_HINT_INTERACTION H) = usec_time a)
     \<and> table_ok n (pokers s ! i) \<and> 1000 \<le> a \<and> (a, boost_event f) \<in># queued (pokers s ! i)"

lemma touch_accepted:
  assumes "hints_ok H" and "pInfo s = Some p" and "mTimeoutPoker p = Some i" and "i < length (pokers s)"
    and "result (check_hint H (POWER_HINT_INTERACTION H)) (s\<lparr>now := t\<rparr>) = Some (usec_time t)"
    and "table_ok n (pokers s ! i)" and "n + 5 \<le> key_limit" and "1000 \<le> t"
    and "hint_interval p (POWER_HINT_INTERACTION H) = 90000"
  shows "stream_inv H i (interaction_boost_frequency p) (n + 5) t (touch B H data t s)
    \<and> queued (pokers s ! i) \<subseteq># queued (pokers (touch B H data t s) ! i)"
proof -
  have ne: "POWER_HINT_INTERACTION H \<noteq> POWER_HINT_LOW_POWER H" using assms(1) by (simp add: hints_ok_def)
  obtain e where e: "touch B H data t s = (s\<lparr>now := t\<rparr>)\<lparr>
      wlog := wlog s @ (if ftrace_enable p then accepted (s\<lparr>now := t\<rparr>) O_WRONLY trace_mark else []),
      errno := e, undef := undef s \<or> \<not> clock_defined t,
      pokers := (pokers s)[i := push_all t (interaction_plan p) (pokers s ! i)],
      pInfo := Some (p\<lparr>hint_time := (hint_time p)(POWER_HINT_INTERACTION H := usec_time t)\<rparr>)\<rparr>"
    using common_power_hint_effect [OF assms(1), of "s\<lparr>now := t\<rparr>" p i B "POWER_HINT_INTERACTION H" data]
      assms(2-5) ne by (auto simp: touch_def hint_plan_def)
  have "(t, boost_event (interaction_boost_frequency p)) \<in> set (map (Pair t) (interaction_plan p))"
    by (simp add: interaction_plan_def boost_event_def)
  moreover have "length (interaction_plan p) = 5" by (simp add: interaction_plan_def)
  ultimately show ?thesis
    using push_all_bag [OF assms(6), of "interaction_plan p" t] assms(2-4,7-9)
    by (simp add: e stream_inv_def)
qed

lemma touch_step:
  assumes "hints_ok H" and inv: "stream_inv H i f n a s" and t: "a \<le> t" "t < 2147483648000"
    and "n + 5 \<le> key_limit"
  shows "queued (pokers s ! i) \<subseteq># queued (pokers (touch B H data t s) ! i)
    \<and> (stream_inv H i f (n + 5) t (touch B H data t s)
      \<or> t < a + 90000000 \<and> stream_inv H i f (n + 5) a (touch B H data t s))"
proof -
  obtain p where p: "pInfo s = Some p" "mTimeoutPoker p = Some i" "i < length (pokers s)"
      "interaction_boost_frequency p = f" "hint_interval p (POWER_HINT_INTERACTION H) = 90000"
      "hint_time p (POWER_HINT_INTERACTION H) = usec_time a"
    and q: "table_ok n (pokers s ! i)" "1000 \<le> a"
    using inv by (auto simp: stream_inv_def)
  let ?s = "s\<lparr>now := t\<rparr>" and ?h = "POWER_HINT_INTERACTION H"
  have c: "result (check_hint H ?h) ?s =
      (if t div 1000 - a div 1000 < 90000 then None else Some (usec_time t))"
    using check_hint_elapsed [of a ?s ?h H] assms(1) p t q(2)
    by (simp add: info_def hints_ok_def MAX_POWER_HINT_COUNT_def)
  show ?thesis
  proof (cases "t div 1000 - a div 1000 < 90000")
    case True
    then have "touch B H data t s = ?s"
      using c p(1) t q(2) by (simp add: touch_def common_power_hint_def clock_defined_iff undef_same)
    moreover have "t < a + 90000000" using True by linarith
    ultimately show ?thesis
      using inv eq.weaken [of n "pokers s ! i" "n + 5"] by (auto simp: stream_inv_def)
  next
    case False
    then show ?thesis
      using touch_accepted [OF assms(1) p(1-3) _ q(1) assms(5) _ p(5), of t B data] c t q(2)
      by (simp add: p(4))
  qed
qed

lemma touches_covered:
  assumes "hints_ok H"
  shows "stream_inv H i f n a s \<Longrightarrow> a \<le> t \<Longrightarrow> t < a + 90000000 \<Longrightarrow> steady 10000000 t ts \<Longrightarrow>
    n + 5 * length ts \<le> key_limit \<Longrightarrow>
    queued (pokers s ! i) \<subseteq># queued (pokers (touches B H data ts s) ! i)
    \<and> (\<forall>x. t \<le> x \<and> x \<le> last (t # ts) \<longrightarrow> (\<exists>a. a \<le> x \<and> x < a + 100000000
        \<and> (a, boost_event f) \<in># queued (pokers (touches B H data ts s) ! i)))"
proof (induction ts arbitrary: n a t s)
  case Nil
  then have "(a, boost_event f) \<in># queued (pokers s ! i)" by (simp add: stream_inv_def)
  then show ?case using Nil by (force simp: touches_def)
next
  case (Cons u us)
  have u: "a \<le> u" "u < 2147483648000" "t \<le> u" "u < a + 100000000" "n + 5 \<le> key_limit"
    using Cons.prems by simp_all
  let ?s = "touch B H data u s"
  let ?f = "queued (pokers (touches B H data us ?s) ! i)"
  have f: "touches B H data (u # us) s = touches B H data us ?s" by (simp add: touches_def)
  have sub: "queued (pokers s ! i) \<subseteq># queued (pokers ?s ! i)"
    and next_inv: "stream_inv H i f (n + 5) u ?s \<or> u < a + 90000000 \<and> stream_inv H i f (n + 5) a ?s"
    using touch_step [OF assms Cons.prems(1) u(1,2,5)] by blast+
  have ih: "queued (pokers ?s ! i) \<subseteq># ?f \<and> (\<forall>x. u \<le> x \<and> x \<le> last (u # us) \<longrightarrow>
      (\<exists>a. a \<le> x \<and> x < a + 100000000 \<and> (a, boost_event f) \<in># ?f))"
    using next_inv
  proof
    assume "stream_inv H i f (n + 5) u ?s"
    then show ?thesis using Cons.prems by (intro Cons.IH [of "n + 5" u]) simp_all
  next
    assume "u < a + 90000000 \<and> stream_inv H i f (n + 5) a ?s"
    then show ?thesis using Cons.prems by (intro Cons.IH [of "n + 5" a]) simp_all
  qed
  have "queued (pokers s ! i) \<subseteq># ?f" using sub ih by (blast intro: subset_mset.order_trans)
  moreover have "(a, boost_event f) \<in># queued (pokers s ! i)"
    using Cons.prems(1) by (simp add: stream_inv_def)
  ultimately have a: "(a, boost_event f) \<in># ?f" by (rule mset_subset_eqD)
  have "\<exists>a. a \<le> x \<and> x < a + 100000000 \<and> (a, boost_event f) \<in># ?f"
    if "t \<le> x" "x \<le> last (t # u # us)" for x
  proof (cases "u \<le> x")
    case True
    then show ?thesis using ih that by simp
  next
    case False
    then show ?thesis using a u Cons.prems(2) that by (intro exI [of _ a]) simp
  qed
  then show ?case
    using \<open>queued (pokers s ! i) \<subseteq># ?f\<close> by (simp add: f)
qed

text \<open>
  C15. The boost does not flicker.  From the first accepted interaction hint on, as long as the next
  hint always comes within 10 ms of the last, every moment up to the last hint lies within the 100
  ms of a frequency request that was queued at or before that moment: the rate limit that
  \<open>common_power_open\<close> sets, 90 ms, drops hints, but never so many that the boost would end.
\<close>

theorem interaction_boost_gapless:
  assumes "hints_ok H" and "pInfo s = Some p" and "mTimeoutPoker p = Some i" and "i < length (pokers s)"
    and "hint_time p (POWER_HINT_INTERACTION H) = 0" and "hint_interval p = hint_interval (set_intervals H q)"
    and "table_ok n (pokers s ! i)" and "n + 5 * Suc (length ts) \<le> key_limit"
    and "1000 \<le> t" and "t < 2147483648000" and "steady 10000000 t ts"
    and "t \<le> x" and "x \<le> last (t # ts)"
  shows "\<exists>a. a \<le> x \<and> x < a + 100000000 \<and>
     (a, boost_event (interaction_boost_frequency p))
       \<in># queued (pokers (touches B H data (t # ts) s) ! i)"
proof -
  have iv: "hint_interval p (POWER_HINT_INTERACTION H) = 90000"
    using assms(1,6) by (simp add: set_intervals_def hints_ok_def)
  have "result (check_hint H (POWER_HINT_INTERACTION H)) (s\<lparr>now := t\<rparr>) = Some (usec_time t)"
    using assms(1,2,5) by (simp add: check_hint_result info_def hints_ok_def MAX_POWER_HINT_COUNT_def)
  then have "stream_inv H i (interaction_boost_frequency p) (n + 5) t (touch B H data t s)"
    using touch_accepted [OF assms(1-4) _ assms(7) _ assms(9) iv] assms(8) by simp
  moreover have "n + 5 + 5 * length ts \<le> key_limit" using assms(8) by simp
  ultimately show ?thesis
    using touches_covered [OF assms(1), of i _ "n + 5" t "touch B H data t s" t ts B data] assms(11-13)
    by (simp add: touches_def)
qed

theorem interaction_boost_gapless_witness:
  "\<exists>a \<le> 95000000. 95000000 < a + 100000000 \<and> (a, boost_event 1326000)
     \<in># queued (pokers (touches K1 cm_hints False
       (1000000 # map (\<lambda>k. 10000000 * k) [1, 2, 3, 4, 5, 6, 7, 8, 9, 10]) demo_hal) ! 0)"
proof -
  have "table_ok 0 (pokers demo_hal ! 0)" using eq.empty by simp
  then show ?thesis
    using interaction_boost_gapless [OF cm_hints_ok, of demo_hal "set_intervals cm_hints demo_info" 0 demo_info 0
        "map (\<lambda>k. 10000000 * k) [1, 2, 3, 4, 5, 6, 7, 8, 9, 10]" 1000000 95000000 K1 False]
    by (simp add: set_intervals_def demo_info_def cm_hints_def key_limit_def)
qed

end
