(* ===== verification/Poker_Commands.thy ===== *)
theory Poker_Commands
  imports Nv_Power_Requests Poker_Safety
begin

text \<open>
  What the driver of a PM QoS node is given: the command text of a prioritised request and the four
  bytes of a plain one, read back as the driver reads them, and, for every request that a hint
  queues, that its numbers reach the driver unharmed.
\<close>

section \<open>The command text\<close>

definition command_words :: "int \<Rightarrow> int \<Rightarrow> int \<Rightarrow> string list" where
  "command_words priority mx mn = [show_int mx, show_int mn, show_int priority, ''0'']"

definition command_text :: "int \<Rightarrow> int \<Rightarrow> int \<Rightarrow> string" where
  "command_text priority mx mn = show_int mx @ '' '' @ show_int mn @ '' '' @ show_int priority @ '' 0''"

lemma tokens_command: "tokens (command_text priority mx mn) = command_words priority mx mn"
proof -
  have z: "tokens ''0'' = [''0'']" by (rule tokens_word(2)) (simp_all add: blank_def)
  show ?thesis
    using show_int_word by (simp add: command_text_def command_words_def tokens_word(1) z)
qed

lemma atoi_command: "map atoi (command_words priority mx mn) = [mx, mn, priority, 0]"
proof -
  have "show_int 0 = ''0''" by (simp add: show_int_def show_nat.simps)
  then have "atoi ''0'' = 0" using atoi_show_int [of 0] by simp
  then show ?thesis by (simp add: command_words_def atoi_show_int)
qed

lemma command_fits:
  assumes "int32 mn" and "0 \<le> priority" and "priority < 100"
  shows "length (command_text priority (- 1) mn) < COMMAND_SIZE"
proof -
  have "length (show_int mn) \<le> 11" by (rule length_show_int [OF assms(1)])
  moreover have "length (show_int priority) \<le> 2"
    using length_show_nat [of "nat priority" 2] assms(2,3) by (simp add: show_int_def)
  moreover have "show_int (- 1) = ''-1''" by (simp add: show_int_def show_nat.simps)
  ultimately show ?thesis by (simp add: command_text_def COMMAND_SIZE_def)
qed

lemma command_whole:
  "length (command_text priority mx mn) < sz \<Longrightarrow> createConstraintCommand sz priority mx mn = command_text priority mx mn"
  by (simp add: createConstraintCommand_def command_text_def)

lemma cut_command: "map atoi (tokens (show_int a @ '' '' @ show_int b @ '' '' @ show_int c)) = [a, b, c]"
  using show_int_word by (simp add: tokens_word atoi_show_int)

text \<open>
  C28. The command text of a request that has no upper limit reads back as the request.  Every 32-bit
  minimum with a priority of at most two digits fits the buffer of 20 bytes; a request with both
  limits need not fit, and what is cut off first is the priority.
\<close>

theorem createConstraintCommand_roundtrip:
  assumes "int32 mn" and "0 \<le> priority" and "priority < 100"
  shows "map atoi (tokens (createConstraintCommand COMMAND_SIZE priority (- 1) mn)) = [- 1, mn, priority, 0]
    \<and> NUL \<notin> set (createConstraintCommand COMMAND_SIZE priority (- 1) mn)
    \<and> map atoi (tokens (createConstraintCommand COMMAND_SIZE 35 2147483647 204000)) = [2147483647, 204000, 3]"
proof -
  note w = command_whole [OF command_fits [OF assms]]
  have "createConstraintCommand COMMAND_SIZE 35 2147483647 204000
      = show_int 2147483647 @ '' '' @ show_int 204000 @ '' '' @ show_int 3"
    by (simp add: createConstraintCommand_def COMMAND_SIZE_def snprintf_def show_int_def show_nat.simps)
  then have t: "map atoi (tokens (createConstraintCommand COMMAND_SIZE 35 2147483647 204000)) = [2147483647, 204000, 3]"
    by (simp only: cut_command)
  show ?thesis
    using show_int_no_NUL
    by (simp add: w tokens_command atoi_command t) (simp add: command_text_def)
qed

theorem createConstraintCommand_roundtrip_witness:
  "map atoi (tokens (createConstraintCommand COMMAND_SIZE 35 (- 1) 2147483647)) = [- 1, 2147483647, 35, 0]"
  using createConstraintCommand_roundtrip [of 2147483647 35] by (simp add: int32_def)

section \<open>The requests of the hints\<close>

lemma plan_events:
  assumes "e \<in> set (hint_plan B H p hint data)"
    and "int32 (interaction_boost_frequency p)" and "int32 (animation_boost_frequency p)"
  shows "(\<exists>f mn timeout. e = timed_event_priority f 35 (- 1) mn timeout \<and> int32 mn \<and> 0 < timeout)
    \<or> (\<exists>f v timeout. e = timed_event f v timeout \<and> int32 v \<and> 0 < timeout)"
proof -
  have n: "int32 2" "int32 1" "int32 180000" "int32 396000" "int32 792000" "int32 512000" "int32 1020000"
    "int32 2147483647" by (simp_all add: int32_def)
  consider "e \<in> set (interaction_plan p)" | "e \<in> set cpu_boost_plan" | "e \<in> set audio_plan"
    | "e \<in> set (low_power_plan data)"
    using assms(1) by (auto simp: hint_plan_def split: if_splits)
  then show ?thesis
  proof cases
    case 1
    then show ?thesis using n assms(2,3) by (simp add: interaction_plan_def) fastforce
  next
    case 2
    then show ?thesis using n by (simp add: cpu_boost_plan_def) fastforce
  next
    case 3
    then show ?thesis using n by (simp add: audio_plan_def) fastforce
  next
    case 4
    then show ?thesis using n by (simp add: low_power_plan_def split: if_splits) fastforce+
  qed
qed

lemma sint_le_value: "int32 v \<Longrightarrow> sint (le_value (le_bytes (word_of_int v))) = v"
  by (simp add: le_value_le_bytes int32_def sint_sbintrunc' signed_take_bit_int_eq_self)

lemma run_timed_written:
  fixes s :: pproc
  assumes "opened s f O_RDWR = Some fd" and "\<forall>d. driver_write s f d = Inr (length d)"
    and "e = PmQosOpenTimedEvent f v pr mx mn type timeout"
    and "cmd = (if type = NODE_TYPE_PRIORITY then createConstraintCommand COMMAND_SIZE pr mx mn
                else le_bytes (word_of_int v))"
  shows "exec (run_event e) s = s\<lparr>fds := (fds s)(fd \<mapsto> Node f O_RDWR), wlog := wlog s @ [(f, cmd)],
     pk := sendEventDelayed (now s) timeout (TimeoutEvent fd) (pk s)\<rparr>"
  using opened_Some [OF assms(1)] assms(2)
  by (simp add: assms(1,3,4) openPmQosTimed_def openPmQosTimed_priority_def openPmQosNode_def
      openPmQosNode_priority_def exec_k_write armTimeout_def)

text \<open>
  What a hint asks for reaches the driver.  When the looper runs any event that a hint queued, and
  its node opens and takes the write, the driver is given a text or four bytes that read back as the
  numbers of the request, and the end of the request is set for its own timeout.
\<close>

theorem hint_requests_reach_driver:
  fixes s :: pproc
  assumes "e \<in> set (hint_plan B H p hint data)"
    and "int32 (interaction_boost_frequency p)" and "int32 (animation_boost_frequency p)"
    and "e = PmQosOpenTimedEvent f v pr mx mn type timeout"
    and "opened s f O_RDWR = Some fd" and "\<forall>d. driver_write s f d = Inr (length d)"
  shows "\<exists>cmd. exec (run_event e) s = s\<lparr>fds := (fds s)(fd \<mapsto> Node f O_RDWR), wlog := wlog s @ [(f, cmd)],
      pk := sendEventDelayed (now s) timeout (TimeoutEvent fd) (pk s)\<rparr>
    \<and> (type = NODE_TYPE_PRIORITY \<longrightarrow> map atoi (tokens cmd) = [mx, mn, pr, 0])
    \<and> (type = NODE_TYPE_DEFAULT \<longrightarrow> sint (le_value cmd) = v) \<and> 0 < timeout"
proof -
  define cmd where "cmd = (if type = NODE_TYPE_PRIORITY then createConstraintCommand COMMAND_SIZE pr mx mn
    else le_bytes (word_of_int v))"
  note r = run_timed_written [OF assms(5,6,4) cmd_def]
  from plan_events [OF assms(1-3)] show ?thesis
  proof (elim disjE exE conjE)
    fix f' mn' t assume e: "e = timed_event_priority f' 35 (- 1) mn' t" and m: "int32 mn'" "0 < t"
    have "map atoi (tokens cmd) = [mx, mn, pr, 0]"
      using e m assms(4) command_whole [OF command_fits [OF m(1), of 35]]
      by (simp add: cmd_def timed_event_priority_def tokens_command atoi_command)
    then show ?thesis using r e m assms(4) by (auto simp: timed_event_priority_def)
  next
    fix f' v' t assume e: "e = timed_event f' v' t" and m: "int32 v'" "0 < t"
    have "sint (le_value cmd) = v" using e m assms(4) sint_le_value [OF m(1)] by (simp add: cmd_def timed_event_def)
    then show ?thesis using r e m assms(4) by (auto simp: timed_event_def)
  qed
qed

theorem hint_requests_reach_driver_witness:
  "\<exists>cmd. wlog (exec (run_event (timed_event ''/dev/emc_freq_min'' 792000 1500000000))
        (demo_proc\<lparr>nodes := [''/dev/emc_freq_min'' \<mapsto> plain_node []]\<rparr>)) = [(''/dev/emc_freq_min'', cmd)]
     \<and> sint (le_value cmd) = 792000"
proof -
  let ?s = "demo_proc\<lparr>nodes := [''/dev/emc_freq_min'' \<mapsto> plain_node []]\<rparr>"
  let ?e = "timed_event ''/dev/emc_freq_min'' 792000 1500000000"
  have e: "?e \<in> set (hint_plan K1 cm_hints demo_info 16 False)"
    by (simp add: hint_plan_def cm_hints_def cpu_boost_plan_def)
  have f: "int32 (interaction_boost_frequency demo_info)" "int32 (animation_boost_frequency demo_info)"
    by (simp_all add: demo_info_def int32_def)
  have o: "opened ?s ''/dev/emc_freq_min'' O_RDWR = Some 3" "\<forall>d. driver_write ?s ''/dev/emc_freq_min'' d = Inr (length d)"
    by (simp_all add: opened_def open_error_def free_fd_def fd_slots_def demo_proc_def plain_node_def
        std_fds_def upt_rec driver_write_def)
  have "wlog ?s = []" by (simp add: demo_proc_def)
  then show ?thesis using hint_requests_reach_driver [OF e f timed_event_def o] by auto
qed

end
