(* ===== verification/Poker_Start.thy ===== *)
theory Poker_Start
  imports Barrier
begin

text \<open>
  Starting the timeout poker.  The thread that constructs it creates the looper thread and waits at a
  barrier, once in the constructor of \<open>PokeHandler\<close> and once more in \<open>common_power_open\<close>; the looper
  thread prepares its looper in \<open>readyToRun\<close> and then opens the barrier.  \<open>Looper::prepare\<close> is
  Android's and may give no looper; \<open>Thread::run\<close> then lets the thread end.
\<close>

section \<open>The two threads\<close>

datatype worker_pc = Not_created | In_prepare | In_open | In_loop | Ended

datatype main_pc = Constructing | Handler_wait | Open_wait | Started

text \<open>Each of the two threads only moves forward; the order of the constructors is that of its stages.\<close>

fun worker_stage :: "worker_pc \<Rightarrow> nat" where
  "worker_stage Not_created = 0"
| "worker_stage In_prepare = 1"
| "worker_stage In_open = 2"
| "worker_stage In_loop = 3"
| "worker_stage Ended = 4"

fun main_stage :: "main_pc \<Rightarrow> nat" where
  "main_stage Constructing = 0"
| "main_stage Handler_wait = 1"
| "main_stage Open_wait = 2"
| "main_stage Started = 3"

lemma stage_inj: "worker_stage v = worker_stage w \<longleftrightarrow> v = w" "main_stage m = main_stage n \<longleftrightarrow> m = n"
  by (cases v; cases w; simp) (cases m; cases n; simp)

instantiation worker_pc :: linorder
begin

definition less_eq_worker_pc :: "worker_pc \<Rightarrow> worker_pc \<Rightarrow> bool" where
  "v \<le> w \<longleftrightarrow> worker_stage v \<le> worker_stage w"

definition less_worker_pc :: "worker_pc \<Rightarrow> worker_pc \<Rightarrow> bool" where
  "v < w \<longleftrightarrow> worker_stage v < worker_stage w"

instance
  by intro_classes (auto simp: less_eq_worker_pc_def less_worker_pc_def stage_inj)

end

instantiation main_pc :: linorder
begin

definition less_eq_main_pc :: "main_pc \<Rightarrow> main_pc \<Rightarrow> bool" where
  "m \<le> n \<longleftrightarrow> main_stage m \<le> main_stage n"

definition less_main_pc :: "main_pc \<Rightarrow> main_pc \<Rightarrow> bool" where
  "m < n \<longleftrightarrow> main_stage m < main_stage n"

instance
  by intro_classes (auto simp: less_eq_main_pc_def less_main_pc_def stage_inj)

end

record starting =
  ready :: barrier
  mLooper :: bool
  worker :: worker_pc
  main :: main_pc

definition start_init :: "starting \<Rightarrow> bool" where
  "start_init s \<longleftrightarrow> s = \<lparr>ready = new_barrier, mLooper = False, worker = Not_created, main = Constructing\<rparr>"

text \<open>\<open>new LooperThread\<close> and \<open>mWorker->run\<close> in the constructor of \<open>PokeHandler\<close>.\<close>

definition start_worker :: "starting \<Rightarrow> starting" where
  "start_worker s = s\<lparr>worker := In_prepare, main := Handler_wait\<rparr>"

text \<open>\<open>readyToRun\<close> up to its test of \<open>mLooper\<close>, and from there on.\<close>

definition prepare_looper :: "bool \<Rightarrow> starting \<Rightarrow> starting" where
  "prepare_looper looper s = s\<lparr>mLooper := looper, worker := (if looper then In_open else Ended)\<rparr>"

definition open_ready :: "starting \<Rightarrow> starting" where
  "open_ready s = s\<lparr>ready := barrier_open (ready s), worker := In_loop\<rparr>"

text \<open>\<open>threadLoop\<close> always asks to be called again, whatever \<open>pollAll\<close> returned.\<close>

definition threadLoop :: "int \<Rightarrow> bool" where
  "threadLoop res = True"

text \<open>One test of the barrier by the constructing thread, which is thread 0.\<close>

fun after_wait :: "main_pc \<Rightarrow> main_pc" where
  "after_wait Handler_wait = Open_wait"
| "after_wait Open_wait = Started"
| "after_wait m = m"

definition main_test :: "starting \<Rightarrow> starting" where
  "main_test s =
     (let b = barrier_test 0 (ready s)
      in if 0 \<in> returned b
         then s\<lparr>ready := b\<lparr>returned := returned b - {0}\<rparr>, main := after_wait (main s)\<rparr>
         else s\<lparr>ready := b\<rparr>)"

inductive start_step :: "starting \<Rightarrow> starting \<Rightarrow> bool" where
  st_create: "main s = Constructing \<Longrightarrow> start_step s (start_worker s)"
| st_prepare: "worker s = In_prepare \<Longrightarrow> start_step s (prepare_looper looper s)"
| st_open: "worker s = In_open \<Longrightarrow> start_step s (open_ready s)"
| st_loop: "worker s = In_loop \<Longrightarrow>
    start_step s (s\<lparr>worker := (if threadLoop res then In_loop else Ended)\<rparr>)"
| st_test: "main s = Handler_wait \<or> main s = Open_wait \<Longrightarrow> 0 \<notin> sleeping (ready s) \<Longrightarrow>
    start_step s (main_test s)"
| st_wake: "0 \<in> sleeping (ready s) \<Longrightarrow>
    start_step s (s\<lparr>ready := (ready s)\<lparr>sleeping := sleeping (ready s) - {0}, woken := insert 0 (woken (ready s))\<rparr>\<rparr>)"

section \<open>The invariant\<close>

definition start_inv :: "starting \<Rightarrow> bool" where
  "start_inv s \<longleftrightarrow>
     (gate (ready s) = OPENED \<longleftrightarrow> worker s = In_loop)
   \<and> (mLooper s \<longleftrightarrow> worker s = In_open \<or> worker s = In_loop)
   \<and> (main s = Constructing \<longleftrightarrow> worker s = Not_created)
   \<and> (main s = Open_wait \<or> main s = Started \<longrightarrow> worker s = In_loop)
   \<and> (sleeping (ready s) \<noteq> {} \<longrightarrow> gate (ready s) = CLOSED \<and> main s = Handler_wait)
   \<and> returned (ready s) = {}"

lemma gate_not: "g \<noteq> CLOSED \<longleftrightarrow> g = OPENED"
  by (cases g) simp_all

lemma start_inv_step:
  assumes "start_inv s" and "start_step s t"
  shows "start_inv t"
  using assms(2,1)
proof cases
  case st_test
  show ?thesis
  proof (cases "gate (ready s)")
    case OPENED
    then show ?thesis using assms(1) st_test by (auto simp: start_inv_def main_test_def barrier_test_def)
  next
    case CLOSED
    then have "main s = Handler_wait" using assms(1) st_test by (auto simp: start_inv_def)
    then show ?thesis using assms(1) st_test CLOSED by (auto simp: start_inv_def main_test_def barrier_test_def)
  qed
qed (auto simp: start_inv_def start_worker_def prepare_looper_def open_ready_def barrier_open_def threadLoop_def
    gate_not split: if_splits)

lemma start_inv_init: "start_init s \<Longrightarrow> start_inv s"
  by (auto simp: start_init_def start_inv_def new_barrier_def)

interpretation start: plain_invariant start_init start_step start_inv
  by unfold_locales (auto intro: start_inv_init start_inv_step)

lemma after_wait_le: "m \<le> after_wait m"
  by (cases m) (simp_all add: less_eq_main_pc_def)

lemma forward_step:
  assumes "start_inv s" and "start_step s t"
  shows "worker s \<le> worker t" and "main s \<le> main t"
proof -
  have "worker s \<le> worker t \<and> main s \<le> main t"
    using assms(2,1)
  proof cases
    case st_test
    then show ?thesis by (auto simp: main_test_def Let_def after_wait_le)
  qed (auto simp: start_inv_def start_worker_def prepare_looper_def open_ready_def threadLoop_def
      less_eq_worker_pc_def less_eq_main_pc_def)
  then show "worker s \<le> worker t" "main s \<le> main t" by simp_all
qed

lemma forward_run:
  "run start_step m s t \<Longrightarrow> start_inv s \<Longrightarrow> worker s \<le> worker t \<and> main s \<le> main t"
proof (induction rule: run.induct)
  case (run_snoc n s t u)
  have "start_inv t" by (rule start.throughout [OF run_snoc.hyps(1) run_snoc.prems])
  then show ?case using run_snoc forward_step [of t u] by (auto intro: order_trans)
qed simp

lemma ended_run:
  assumes "run start_step m s t" and "worker s = Ended" and "start_inv s"
  shows "worker t = Ended" and "start_inv t"
proof -
  have "Ended \<le> worker t" using forward_run [OF assms(1,3)] assms(2) by simp
  then show "worker t = Ended" by (cases "worker t") (simp_all add: less_eq_worker_pc_def)
  show "start_inv t" by (rule start.throughout [OF assms(1,3)])
qed

text \<open>With the barrier open, each of the two waits takes one test.\<close>

lemma main_test_open:
  "gate (ready s) = OPENED \<Longrightarrow>
   main (main_test s) = after_wait (main s) \<and> gate (ready (main_test s)) = OPENED
   \<and> sleeping (ready (main_test s)) = sleeping (ready s)"
  by (simp add: main_test_def barrier_test_def)

lemma waits_pass:
  assumes "gate (ready s) = OPENED" and "sleeping (ready s) = {}" and "main s \<noteq> Constructing"
  shows "\<exists>m \<le> 2. \<exists>t. run start_step m s t \<and> main t = Started"
proof -
  have two: "\<exists>t. start_step s t \<and> main t = Started"
    if "gate (ready s) = OPENED" "sleeping (ready s) = {}" "main s = Open_wait" for s
    using that main_test_open [OF that(1)] by (intro exI [of _ "main_test s"]) (simp add: st_test)
  show ?thesis
  proof (cases "main s")
    case Constructing
    then show ?thesis using assms by simp
  next
    case Handler_wait
    let ?t = "main_test s"
    have 1: "start_step s ?t" using Handler_wait assms(2) by (intro st_test) simp_all
    obtain u where "start_step ?t u" "main u = Started"
      using two [of ?t] main_test_open [OF assms(1)] Handler_wait assms(2) by auto
    then have "run start_step (Suc (Suc 0)) s u" using run_single 1 run_snoc by metis
    then show ?thesis using \<open>main u = Started\<close> by (intro exI [of _ 2]) (auto simp: eval_nat_numeral)
  next
    case Open_wait
    then obtain u where "start_step s u" "main u = Started" using two assms by blast
    then show ?thesis by (intro exI [of _ 1]) (auto dest: run_single [of start_step])
  next
    case Started
    then show ?thesis by (intro exI [of _ 0]) (auto intro: run_refl)
  qed
qed

text \<open>
  C24. The constructor of the poker returns only when the looper is there, so no event is ever posted to
  a missing looper; once the looper loops, the constructing thread is two tests away from having
  started, whatever has happened before.  But when \<open>Looper::prepare\<close> gives no looper the barrier is
  never opened, and the constructing thread, and with it the power service, waits for ever.  Neither
  thread ever goes back to an earlier stage.
\<close>

theorem poker_start:
  assumes "reach start_init start_step n s"
  shows "(main s = Started \<longrightarrow> mLooper s \<and> worker s = In_loop)
    \<and> (worker s = In_loop \<longrightarrow> (\<exists>m \<le> 2. \<exists>t. run start_step m s t \<and> main t = Started))
    \<and> (worker s = Ended \<longrightarrow> \<not> mLooper s \<and> (\<forall>m t. run start_step m s t \<longrightarrow> main t \<noteq> Started))
    \<and> (\<forall>m t. run start_step m s t \<longrightarrow> worker s \<le> worker t \<and> main s \<le> main t)"
proof (intro conjI impI allI)
  have inv: "start_inv s" using start.always [OF assms] .
  show "mLooper s" "worker s = In_loop" if "main s = Started" using inv that by (auto simp: start_inv_def)
  show "\<exists>m \<le> 2. \<exists>t. run start_step m s t \<and> main t = Started" if "worker s = In_loop"
    using inv that by (intro waits_pass) (auto simp: start_inv_def)
  show "\<not> mLooper s" if "worker s = Ended" using inv that by (auto simp: start_inv_def)
  show "main t \<noteq> Started" if "worker s = Ended" "run start_step m s t" for m t
    using ended_run [OF that(2,1) inv] by (auto simp: start_inv_def)
  show "worker s \<le> worker t" "main s \<le> main t" if "run start_step m s t" for m t
    using forward_run [OF that inv] by simp_all
qed

text \<open>A start without a looper.\<close>

definition no_looper :: starting where
  "no_looper = \<lparr>ready = new_barrier, mLooper = False, worker = Ended, main = Handler_wait\<rparr>"

theorem poker_start_witness:
  "reach start_init start_step 2 no_looper \<and> \<not> (\<exists>m t. run start_step m no_looper t \<and> main t = Started)"
proof -
  let ?i = "\<lparr>ready = new_barrier, mLooper = False, worker = Not_created, main = Constructing\<rparr>"
  have "reach start_init start_step 0 ?i" by (rule reach_init) (simp add: start_init_def)
  moreover have "start_step ?i (start_worker ?i)" by (rule st_create) simp
  ultimately have "reach start_init start_step (Suc 0) (start_worker ?i)" by (rule reach_step)
  moreover have "start_step (start_worker ?i) (prepare_looper False (start_worker ?i))"
    by (rule st_prepare) (simp add: start_worker_def)
  ultimately have "reach start_init start_step (Suc (Suc 0)) (prepare_looper False (start_worker ?i))"
    by (rule reach_step)
  then have r: "reach start_init start_step 2 no_looper"
    by (simp add: no_looper_def prepare_looper_def start_worker_def eval_nat_numeral)
  have "worker no_looper = Ended" by (simp add: no_looper_def)
  with poker_start [OF r] show ?thesis using r by blast
qed

end
