(* ===== verification/Poker_Calls.thy ===== *)
theory Poker_Calls
  imports Barrier Poker_Drain
begin

text \<open>
  \<open>createPmQosHandle\<close> from its call to its return.  The caller has a \<open>Barrier\<close> and a variable for the
  result on its stack, pushes an event that points to both, and waits; the looper makes the
  handle, stores it and opens the barrier.  Here the barrier of \<open>barrier.h\<close> and the poker run together:
  a caller tests, sleeps, is woken and returns, in any interleaving with other callers and with
  everything else the poker does.
\<close>

section \<open>States and steps\<close>

text \<open>Calls are numbered; each number is used for one call.  A caller's thread has the number of its call.\<close>

datatype caller = Not_called | Waiting | Answered "int option"

record callers =
  proc :: pproc
  gates :: "nat \<Rightarrow> barrier"
  caller_of :: "nat \<Rightarrow> caller"

text \<open>The calls whose events are in the table or running: the variables and barriers they point to.\<close>

fun event_calls :: "queued_event \<Rightarrow> (nat \<times> nat) multiset" where
  "event_calls (PmQosOpenHandleEvent f v pr mx mn type call b) = {#(call, b)#}"
| "event_calls e = {#}"

fun pc_calls :: "looper_pc \<Rightarrow> (nat \<times> nat) multiset" where
  "pc_calls (Running e) = event_calls e"
| "pc_calls c = {#}"

definition asked :: "pproc \<Rightarrow> (nat \<times> nat) multiset" where
  "asked s = (\<Sum>x \<in># queued (pk s). event_calls (snd x)) + pc_calls (pc s)"

text \<open>The call up to its wait.\<close>

definition start_call :: "nat \<Rightarrow> (pproc, unit) state \<Rightarrow> callers \<Rightarrow> callers" where
  "start_call i m s = s\<lparr>proc := exec m (proc s), gates := (gates s)(i := new_barrier),
     caller_of := (caller_of s)(i := Waiting)\<rparr>"

text \<open>One test of \<open>done.wait()\<close>, and the return of the call when it passes.\<close>

definition test_done :: "nat \<Rightarrow> callers \<Rightarrow> callers" where
  "test_done i s =
     (let g = barrier_test i (gates s i)
      in s\<lparr>gates := (gates s)(i := g),
           caller_of := (if i \<in> returned g then (caller_of s)(i := Answered (outFds (proc s) i)) else caller_of s)\<rparr>)"

text \<open>The looper's side: after the event has run, the barrier it points to is open if it was opened.\<close>

definition answered :: "nat \<Rightarrow> pproc \<Rightarrow> callers \<Rightarrow> callers" where
  "answered b p s = s\<lparr>proc := p, gates := (if dones p b then (gates s)(b := barrier_open (gates s b)) else gates s)\<rparr>"

inductive call_step :: "callers \<Rightarrow> callers \<Rightarrow> bool" where
  c_call: "caller_of s i = Not_called \<Longrightarrow> call_step s (start_call i (createPmQosHandle f v i) s)"
| c_call_priority: "caller_of s i = Not_called \<Longrightarrow>
    call_step s (start_call i (createPmQosHandle_priority f pr mx mn i) s)"
| c_test: "caller_of s i = Waiting \<Longrightarrow> i \<notin> sleeping (gates s i) \<Longrightarrow> call_step s (test_done i s)"
| c_wake: "caller_of s i = Waiting \<Longrightarrow> i \<in> sleeping (gates s i) \<Longrightarrow>
    call_step s (s\<lparr>gates := (gates s)(i := (gates s i)\<lparr>sleeping := sleeping (gates s i) - {i},
      woken := insert i (woken (gates s i))\<rparr>)\<rparr>)"
| c_answer: "pc (proc s) = Running (PmQosOpenHandleEvent f v pr mx mn type call b) \<Longrightarrow>
    p = claim_handle call ((exec (run_event (PmQosOpenHandleEvent f v pr mx mn type call b)) (proc s))\<lparr>pc := Polling\<rparr>) \<Longrightarrow>
    call_step s (answered b p s)"
| c_poker: "pstep (proc s) p \<Longrightarrow> asked p = asked (proc s) \<Longrightarrow> outFds p = outFds (proc s) \<Longrightarrow>
    dones p = dones (proc s) \<Longrightarrow> call_step s (s\<lparr>proc := p\<rparr>)"

definition call_init :: "callers \<Rightarrow> bool" where
  "call_init s \<longleftrightarrow> pinit (proc s) \<and> caller_of s = (\<lambda>_. Not_called)"

section \<open>Callers and events\<close>

text \<open>
  A waiting caller either has its event with the poker, and a closed barrier, or its result and an
  open barrier; nobody else has an event there.
\<close>

definition barrier_waits :: "nat \<Rightarrow> barrier \<Rightarrow> bool" where
  "barrier_waits i g \<longleftrightarrow> barrier_inv g \<and> sleeping g \<subseteq> {i} \<and> returned g = {}"

fun caller_ok :: "pproc \<Rightarrow> barrier \<Rightarrow> nat \<Rightarrow> caller \<Rightarrow> bool" where
  "caller_ok p g i Not_called \<longleftrightarrow> count (asked p) (i, i) = 0"
| "caller_ok p g i Waiting \<longleftrightarrow> barrier_waits i g \<and>
     (if gate g = CLOSED then count (asked p) (i, i) = 1
      else count (asked p) (i, i) = 0 \<and> outFds p i \<noteq> None)"
| "caller_ok p g i (Answered r) \<longleftrightarrow> count (asked p) (i, i) = 0 \<and> r = outFds p i \<and> r \<noteq> None"

definition callers_ok :: "callers \<Rightarrow> bool" where
  "callers_ok s \<longleftrightarrow> (\<forall>(c, b) \<in># asked (proc s). c = b)
     \<and> (\<forall>i. caller_ok (proc s) (gates s i) i (caller_of s i))"

lemma caller_ok_other:
  assumes "caller_ok p g i c" and "count (asked q) (i, i) = count (asked p) (i, i)" and "outFds q i = outFds p i"
  shows "caller_ok q g i c"
  using assms by (cases c) auto

text \<open>What a call, and an answer, do to the events.\<close>

lemma asked_call:
  assumes "table_ok n (pk p)" and "n < key_limit"
  shows "asked (exec (createPmQosHandle f v i) p) = add_mset (i, i) (asked p)"
    and "asked (exec (createPmQosHandle_priority f pr mx mn i) p) = add_mset (i, i) (asked p)"
  using eq.send(2) [OF assms]
  by (simp_all add: asked_def createPmQosHandle_def createPmQosHandle_priority_def pushEvent_def
      handle_event_def handle_event_priority_def)

lemma asked_answer:
  assumes "pc p = Running (PmQosOpenHandleEvent f v pr mx mn type call b)"
    and q: "q = claim_handle call ((exec (run_event (PmQosOpenHandleEvent f v pr mx mn type call b)) p)\<lparr>pc := Polling\<rparr>)"
  shows "asked p = add_mset (call, b) (asked q)" and "outFds q = (outFds p)(call \<mapsto> result (make_handle f v pr mx mn type) p)"
    and "dones q b"
proof -
  have "pc_calls (pc p) = {#(call, b)#} \<and> pc_calls (pc q) = {#} \<and> queued (pk q) = queued (pk p)"
    by (cases rule: run_handle_cases [OF q]) (simp_all add: assms(1))
  then show "asked p = add_mset (call, b) (asked q)" by (simp add: asked_def)
  let ?m = "make_handle f v pr mx mn type"
  have c: "outFds (claim fd s) = outFds s" "dones (claim fd s) = dones s" for fd and s :: pproc
    by (simp_all add: claim_def)
  have h: "outFds (claim_handle call s) = outFds s" "dones (claim_handle call s) = dones s" for s :: pproc
    by (simp_all add: claim_handle_def c split: option.split)
  have o: "outFds (exec ?m p) = outFds p"
  proof (cases rule: make_handle_cases [of f v pr mx mn type p])
    case (refused e l)
    show ?thesis unfolding refused(2) by simp
  next
    case (granted fd r w e l)
    show ?thesis unfolding granted(9) by simp
  qed
  show "outFds q = (outFds p)(call \<mapsto> result ?m p)" "dones q b"
    unfolding q h using o by (simp_all add: make_handle_def split: if_splits)
qed

lemma test_done_ok:
  assumes "caller_ok p g i Waiting" and "i \<notin> sleeping g"
  shows "if gate g = OPENED then i \<in> returned (barrier_test i g) \<and> caller_ok p h i (Answered (outFds p i))
    else i \<notin> returned (barrier_test i g) \<and> caller_ok p (barrier_test i g) i Waiting"
  using assms by (cases "gate g") (auto simp: barrier_waits_def barrier_inv_def barrier_test_def)

lemma call_started:
  assumes ok: "callers_ok s" and "caller_of s i = Not_called"
    and a: "asked (exec m (proc s)) = add_mset (i, i) (asked (proc s))"
    and o: "\<forall>j. j \<noteq> i \<longrightarrow> outFds (exec m (proc s)) j = outFds (proc s) j"
  shows "callers_ok (start_call i m s)"
proof -
  have "caller_ok (proc s) (gates s i) i Not_called" using ok assms(2) unfolding callers_ok_def by metis
  then have "caller_ok (exec m (proc s)) new_barrier i Waiting"
    by (simp add: a barrier_waits_def barrier_inv_def new_barrier_def)
  moreover have "caller_ok (exec m (proc s)) (gates s j) j (caller_of s j)" if "j \<noteq> i" for j
  proof (rule caller_ok_other [of "proc s"])
    show "caller_ok (proc s) (gates s j) j (caller_of s j)" using ok unfolding callers_ok_def by blast
    show "count (asked (exec m (proc s))) (j, j) = count (asked (proc s)) (j, j)" using that by (simp add: a)
    show "outFds (exec m (proc s)) j = outFds (proc s) j" using o that by blast
  qed
  moreover have "\<forall>(c, b) \<in># asked (exec m (proc s)). c = b" using ok by (simp add: a callers_ok_def)
  ultimately show ?thesis by (simp add: callers_ok_def start_call_def)
qed

section \<open>Every step keeps the callers in order\<close>

lemma callers_frame:
  assumes "callers_ok s" and "asked p = asked (proc s)" and "outFds p = outFds (proc s)"
  shows "callers_ok (s\<lparr>proc := p\<rparr>)"
  using assms caller_ok_other [of "proc s" _ _ _ p] by (simp add: callers_ok_def)

lemma callers_test:
  assumes ok: "callers_ok s" and w: "caller_of s i = Waiting" and ns: "i \<notin> sleeping (gates s i)"
  shows "callers_ok (test_done i s)"
proof -
  have "caller_ok (proc s) (gates s i) i Waiting" using ok w unfolding callers_ok_def by metis
  from test_done_ok [OF this ns, of "barrier_test i (gates s i)"] ok w show ?thesis
    by (simp add: callers_ok_def test_done_def Let_def split: if_splits)
qed

lemma callers_wake:
  assumes ok: "callers_ok s" and w: "caller_of s i = Waiting"
  shows "callers_ok (s\<lparr>gates := (gates s)(i := (gates s i)\<lparr>sleeping := sleeping (gates s i) - {i},
      woken := insert i (woken (gates s i))\<rparr>)\<rparr>)"
proof -
  have "caller_ok (proc s) (gates s i) i Waiting" using ok w unfolding callers_ok_def by metis
  then have "caller_ok (proc s) ((gates s i)\<lparr>sleeping := sleeping (gates s i) - {i},
      woken := insert i (woken (gates s i))\<rparr>) i Waiting"
    by (auto simp: barrier_waits_def barrier_inv_def)
  then show ?thesis using ok w by (simp add: callers_ok_def)
qed

lemma callers_answered:
  assumes ok: "callers_ok s" and a: "asked (proc s) = add_mset (call, b) (asked p)"
    and o: "outFds p = (outFds (proc s))(call \<mapsto> fd)" and d: "dones p b"
  shows "callers_ok (answered b p s)"
proof -
  have cb: "call = b" using ok by (simp add: a callers_ok_def)
  have c: "caller_ok (proc s) (gates s i) i (caller_of s i)" for i using ok by (simp add: callers_ok_def)
  have "caller_ok p (barrier_open (gates s b)) b (caller_of s b)"
    using c [of b] by (cases "caller_of s b")
      (simp_all add: a cb o barrier_waits_def barrier_inv_def barrier_open_def split: if_splits)
  moreover have "caller_ok p (gates s i) i (caller_of s i)" if "i \<noteq> b" for i
    by (rule caller_ok_other [OF c]) (use that in \<open>simp_all add: a o cb\<close>)
  ultimately show ?thesis using ok by (simp add: callers_ok_def answered_def a d)
qed

definition cinv :: "nat \<Rightarrow> callers \<Rightarrow> bool" where
  "cinv n s \<longleftrightarrow> pinv n (proc s) \<and> callers_ok s"

lemma cinv_init: "call_init s \<Longrightarrow> cinv 0 s"
  using pinv_init by (simp add: call_init_def cinv_def callers_ok_def pinit_def asked_def queued_def new_poker_def)

text \<open>To the poker, a step of the callers is one of its own or none.\<close>

lemma proc_updates [simp]:
  "proc (start_call i m s) = exec m (proc s)" "proc (test_done i s) = proc s" "proc (answered b p s) = p"
  by (simp_all add: start_call_def test_done_def answered_def Let_def)

lemma call_step_proc:
  assumes "call_step s t"
  shows "proc t = proc s \<or> pstep (proc s) (proc t)"
  using assms
proof cases
  case (c_answer f v pr mx mn type call b p)
  have "pstep (proc s) p" unfolding c_answer(3) by (rule p_run_handle [OF c_answer(2)])
  then show ?thesis by (simp add: c_answer(1))
qed (auto intro: p_handle p_handle_priority)

lemma cinv_step:
  assumes inv: "cinv n s" and step: "call_step s t" and n: "n < key_limit"
  shows "cinv (Suc n) t"
proof -
  have ok: "table_ok n (pk (proc s))" "callers_ok s" and p: "pinv n (proc s)"
    using inv by (simp_all add: cinv_def pinv_def)
  have "pinv (Suc n) (proc t)"
    using call_step_proc [OF step] pinv_step [OF p _ n] pinv_mono [OF p] by (metis le_add2 plus_1_eq_Suc)
  moreover have "callers_ok t"
    using step
  proof cases
    case (c_call i f v)
    show ?thesis unfolding c_call(1)
      by (rule call_started [OF ok(2) c_call(2) asked_call(1) [OF ok(1) n]]) (simp add: createPmQosHandle_def)
  next
    case (c_call_priority i f pr mx mn)
    show ?thesis unfolding c_call_priority(1)
      by (rule call_started [OF ok(2) c_call_priority(2) asked_call(2) [OF ok(1) n]])
        (simp add: createPmQosHandle_priority_def)
  next
    case (c_test i)
    then show ?thesis using callers_test [OF ok(2)] by simp
  next
    case (c_wake i)
    then show ?thesis using callers_wake [OF ok(2)] by simp
  next
    case (c_answer f v pr mx mn type call b p)
    note a = asked_answer [OF c_answer(2,3)]
    show ?thesis unfolding c_answer(1) by (rule callers_answered [OF ok(2) a])
  next
    case (c_poker p)
    then show ?thesis using callers_frame [OF ok(2)] by simp
  qed
  ultimately show ?thesis by (simp add: cinv_def)
qed

interpretation cc: functional_simulation call_init call_step cinv key_limit proc pstep
  by unfold_locales (fact cinv_init, fact cinv_step, rule call_step_proc)

section \<open>What the looper does alone\<close>

text \<open>The callers follow every step of the looper; none of them moves.\<close>

lemma lstep_followed:
  assumes l: "lstep (proc s) p" and inv: "cinv n s" and n: "n < key_limit"
  shows "\<exists>t. call_step s t \<and> proc t = p \<and> caller_of t = caller_of s"
proof -
  have ok: "table_ok n (pk (proc s))" using inv by (simp add: cinv_def pinv_def)
  have poker: "\<exists>t. call_step s t \<and> proc t = p \<and> caller_of t = caller_of s"
    if "asked p = asked (proc s)" and "outFds p = outFds (proc s)" and "dones p = dones (proc s)"
    using c_poker [OF lstep_pstep [OF l] that] by (intro exI [of _ "s\<lparr>proc := p\<rparr>"]) simp
  show ?thesis
    using l
  proof cases
    case (l_wait t)
    then show ?thesis by (intro poker) (simp_all add: asked_def)
  next
    case (l_deliver d k)
    obtain e p' where "take_message d k (pk (proc s)) = (Some e, p')"
      "queued (pk (proc s)) = add_mset (d, e) (queued p')"
      by (rule eq.take_someE [OF ok l_deliver(3)])
    then show ?thesis using l_deliver by (intro poker) (simp_all add: asked_def deliver_def)
  next
    case (l_open f v pr mx mn type timeout)
    obtain e l where "exec (open_for f v pr mx mn type) (proc s)
        = (proc s)\<lparr>fds := opened_fds (proc s) f, errno := e, wlog := l\<rparr>"
      using open_for_effect by blast
    then show ?thesis using l_open by (intro poker) (simp_all add: asked_def after_open_def)
  next
    case (l_arm fd timeout)
    then show ?thesis using eq.send(2) [OF ok n] by (intro poker) (simp_all add: asked_def armTimeout_def)
  next
    case (l_close fd)
    then show ?thesis by (intro poker) (simp_all add: asked_def timeoutRequest_def)
  next
    case (l_run_handle f v pr mx mn type call b)
    show ?thesis
      by (rule exI [of _ "answered b p s"], intro conjI, rule c_answer [OF l_run_handle(2,1)])
        (simp_all add: answered_def)
  qed
qed

lemma lrun_followed:
  "run lstep m p q \<Longrightarrow> p = proc s \<Longrightarrow> cinv n s \<Longrightarrow> n + m \<le> key_limit \<Longrightarrow>
   \<exists>t. run call_step m s t \<and> proc t = q \<and> caller_of t = caller_of s"
proof (induction rule: run.induct)
  case (run_refl p)
  then show ?case using run.run_refl [of call_step s] by blast
next
  case (run_snoc m p q r)
  then obtain t where t: "run call_step m s t" "proc t = q" "caller_of t = caller_of s" by auto
  have "cinv (n + m) t" using cc.run_inv [OF t(1)] run_snoc.prems by simp
  then obtain u where "call_step t u" "proc u = r" "caller_of u = caller_of t"
    using lstep_followed [of t r "n + m"] run_snoc t(2) by auto
  then show ?case using run.run_snoc [OF t(1)] t(3) by metis
qed

section \<open>Properties\<close>

definition demo_callers :: callers where
  "demo_callers = \<lparr>proc = demo_proc, gates = (\<lambda>_. new_barrier), caller_of = (\<lambda>_. Not_called)\<rparr>"

definition demo_calling :: callers where
  "demo_calling = start_call 5 (createPmQosHandle ''/dev/cpu_freq_min'' 1020000 5) demo_callers"

lemma demo_calling_reach: "reach call_init call_step 1 demo_calling"
proof -
  have "call_init demo_callers" by (simp add: call_init_def demo_callers_def demo_init)
  moreover have "call_step demo_callers demo_calling"
    unfolding demo_calling_def by (rule c_call) (simp add: demo_callers_def)
  ultimately have "reach call_init call_step (Suc 0) demo_calling" by (intro reach_step reach_init)
  then show ?thesis by simp
qed

lemma demo_calling_facts:
  "caller_of demo_calling 5 = Waiting" "pc (proc demo_calling) = Polling" "turns (pk (proc demo_calling)) = 1"
  "asked (proc demo_calling) = {#(5, 5)#}"
  by (simp_all add: demo_calling_def start_call_def demo_callers_def createPmQosHandle_def pushEvent_def
      sendEventDelayed_def generateNewKey_def new_poker_def turns_def queued_def event_of_def handle_event_def
      demo_proc_def asked_def)

text \<open>
  C11. The poker only writes to variables that still exist.  An event that points to a caller's result and
  barrier belongs to that call, which is still waiting, on a closed barrier; there is one such event.
  A call returns only after its result has been stored, and returns it.
\<close>

theorem handle_call_locals:
  assumes "reach call_init call_step n s" and "n \<le> key_limit"
  shows "((c, b) \<in># asked (proc s) \<longrightarrow>
      c = b \<and> caller_of s b = Waiting \<and> gate (gates s b) = CLOSED \<and> count (asked (proc s)) (c, b) = 1)
    \<and> (caller_of s b = Answered r \<longrightarrow> r = outFds (proc s) b \<and> r \<noteq> None)"
proof -
  have ok: "callers_ok s" using cc.reach_inv [OF assms] by (simp add: cinv_def)
  then have c: "caller_ok (proc s) (gates s b) b (caller_of s b)" by (simp add: callers_ok_def)
  have "c = b" if "(c, b) \<in># asked (proc s)" using ok that by (auto simp: callers_ok_def)
  moreover have "caller_of s b = Waiting \<and> gate (gates s b) = CLOSED \<and> count (asked (proc s)) (b, b) = 1"
    if "(b, b) \<in># asked (proc s)"
    using c that [unfolded count_greater_zero_iff [symmetric]]
    by (cases "caller_of s b") (simp_all del: count_greater_zero_iff split: if_splits)
  moreover have "r = outFds (proc s) b \<and> r \<noteq> None" if "caller_of s b = Answered r" using c that by auto
  ultimately show ?thesis by blast
qed

theorem handle_call_locals_witness:
  "gate (gates demo_calling 5) = CLOSED \<and> count (asked (proc demo_calling)) (5, 5) = 1"
  using handle_call_locals [OF demo_calling_reach, of 5 5] by (simp add: demo_calling_facts key_limit_def)

text \<open>
  C10. Every call of \<open>createPmQosHandle\<close> returns.  From any state that callers, other clients, looper and
  environment can reach together, a caller that waits, asleep or not, comes back with a result if the
  looper is left to work, in whatever order it picks the messages: it empties its mailbox in
  \<open>turns\<close> turns, the barrier is open by then, and the caller's next test passes.
\<close>

theorem handle_call_answered:
  assumes "reach call_init call_step n s" and "caller_of s i = Waiting" and "pc (proc s) = Polling"
    and "picks pick" and "n + 4 * turns (pk (proc s)) \<le> key_limit"
  shows "\<exists>m \<le> 4 * turns (pk (proc s)). \<exists>t fd. run call_step m s t
    \<and> proc t = (serve pick ^^ turns (pk (proc s))) (proc s) \<and> call_step t (test_done i t)
    \<and> caller_of (test_done i t) i = Answered (Some fd)"
proof -
  have inv: "cinv n s" using assms(5) by (intro cc.reach_inv [OF assms(1)]) simp
  let ?q = "(serve pick ^^ turns (pk (proc s))) (proc s)"
  obtain m where m: "m \<le> 4 * turns (pk (proc s))" "run lstep m (proc s) ?q" "pc ?q = Polling" "mailbox (pk ?q) = []"
    using drain [OF assms(4) _ assms(3) order_refl assms(5)] inv by (auto simp: cinv_def)
  have lim: "n + m \<le> key_limit" using m(1) assms(5) by simp
  obtain t where t: "run call_step m s t" "proc t = ?q" "caller_of t = caller_of s"
    using lrun_followed [OF m(2) refl inv lim] by blast
  have ok: "callers_ok t" using cc.run_inv [OF t(1) inv lim] by (simp add: cinv_def)
  have w: "caller_of t i = Waiting" using t(3) assms(2) by simp
  have c: "caller_ok (proc t) (gates t i) i Waiting" using ok w unfolding callers_ok_def by metis
  have none: "asked (proc t) = {#}" using m(3,4) by (simp add: t(2) asked_def queued_def)
  then obtain fd where o: "gate (gates t i) = OPENED" "outFds (proc t) i = Some fd" "i \<notin> sleeping (gates t i)"
    using c by (cases "gate (gates t i)") (auto simp: barrier_waits_def barrier_inv_def)
  have "i \<in> returned (barrier_test i (gates t i))" by (simp add: barrier_test_def o(1))
  then have "caller_of (test_done i t) i = Answered (Some fd)" by (simp add: test_done_def o(2))
  moreover have "call_step t (test_done i t)" by (rule c_test [OF w o(3)])
  ultimately show ?thesis using m(1) t(1,2) by blast
qed

theorem handle_call_answered_witness:
  "\<exists>t fd. call_step t (test_done 5 t) \<and> caller_of (test_done 5 t) 5 = Answered (Some fd)"
proof -
  have p: "picks first_message" by (simp add: picks_def first_message_def)
  have "1 + 4 * turns (pk (proc demo_calling)) \<le> key_limit" by (simp add: demo_calling_facts key_limit_def)
  from handle_call_answered [OF demo_calling_reach demo_calling_facts(1,2) p this] show ?thesis by blast
qed

end
