(* ===== verification/Nv_Power_Open.thy ===== *)
theory Nv_Power_Open
  imports Nv_Power_Hal
begin

text \<open>
  What opening the common power HAL finds out: the input devices, the table of CPU frequencies and
  the frequencies derived from it, on a device whose nodes read as the kernel prints them and on
  one where a node is missing.
\<close>

section \<open>Reading is independent of the other fields\<close>

text \<open>The text a read gives, whether from the node or from the error, in any of these states.\<close>

lemma sysfs_read_cong:
  assumes "nodes t = nodes s" and "opened t = opened s" and "strerr t = strerr s"
    and "open_error t p O_RDONLY = open_error s p O_RDONLY"
  shows "result (sysfs_read p buf n) t = result (sysfs_read p buf n) s"
proof (cases "opened s p O_RDONLY")
  case None
  then show ?thesis using assms by (simp add: sysfs_read_def strerror_r_def)
next
  case (Some fd)
  then show ?thesis
    using assms opened_Some [OF Some] opened_Some [of t p O_RDONLY fd]
    by (auto simp: sysfs_read_def strerror_r_def k_read_def split: option.split sum.split)
qed

lemma sysfs_read_absent:
  assumes "nodes s p = None"
  shows "result (sysfs_read p buf n) s = store (take (n - 1) (strerr s ENOENT) @ [NUL]) buf"
  using assms by (simp add: sysfs_read_def strerror_r_def opened_def open_error_def)

lemma exec_sysfs_read:
  obtains e where "exec (sysfs_read p buf n) s = s\<lparr>errno := e\<rparr>"
  using sysfs_read_effect [of s p buf n] by (auto simp: same_but_errno_def)

section \<open>The frequency table\<close>

text \<open>
  \<open>reads_as s p T\<close>: reading \<open>p\<close> leaves \<open>T\<close> in a 256 byte buffer, because the node holds it or
  because the node is missing and \<open>T\<close> is the text of that error.
\<close>

definition reads_as :: "hal \<Rightarrow> string \<Rightarrow> string \<Rightarrow> bool" where
  "reads_as s p T \<longleftrightarrow> NUL \<notin> set T \<and> length T < 256 \<and>
     (node_text s p 256 = Some T \<or> nodes s p = None \<and> strerr s ENOENT = T)"

definition buffer_ends :: "string \<Rightarrow> string \<Rightarrow> bool" where
  "buffer_ends T buf \<longleftrightarrow> length buf = 256 \<and> (\<exists>r. drop (length T) buf = NUL # r)"

lemma reads_as_errno [simp]:
  "reads_as (s\<lparr>errno := e\<rparr>) = reads_as s" "reads_as (s\<lparr>pInfo := x\<rparr>) = reads_as s"
  "reads_as (s\<lparr>pokers := w\<rparr>) = reads_as s" "reads_as (s\<lparr>dev_array := y\<rparr>) = reads_as s"
  "reads_as (s\<lparr>uC_input_number := z\<rparr>) = reads_as s" "reads_as (s\<lparr>undef := u\<rparr>) = reads_as s"
  by (simp_all add: fun_eq_iff reads_as_def)

lemma reads_as_result:
  assumes "reads_as s p T" and "buffer_ends T buf"
  shows "\<exists>r. result (sysfs_read p buf 256) s = T @ NUL # r \<and> length (T @ NUL # r) = 256"
proof -
  obtain r where r: "drop (length T) buf = NUL # r" and len: "length buf = 256"
    using assms(2) by (auto simp: buffer_ends_def)
  have r': "drop (Suc (length T)) buf = r"
    using r by (metis drop_Suc drop_tl list.sel(3))
  have "length (drop (length T) buf) = Suc (length r)" by (simp add: r)
  then have l: "length (T @ NUL # r) = 256" using len by simp
  consider "node_text s p 256 = Some T" | "nodes s p = None" "strerr s ENOENT = T"
    using assms(1) by (auto simp: reads_as_def)
  then have "result (sysfs_read p buf 256) s = T @ NUL # r"
  proof cases
    case 1
    then show ?thesis using sysfs_read_result [OF 1, of buf] r by (simp add: store_def)
  next
    case 2
    have "take 255 T = T" using assms(1) by (simp add: reads_as_def)
    then show ?thesis using sysfs_read_absent [OF 2(1), of buf 256] r' 2(2) by (simp add: store_def)
  qed
  then show ?thesis using l by blast
qed

lemma strtok_buf_text:
  assumes "NUL \<notin> set T" and "length (T @ NUL # r) = 256"
  shows "exec (strtok_buf (T @ NUL # r)) s = s"
    and "fst (result (strtok_buf (T @ NUL # r)) s) = tokens T"
    and "buffer_ends T (snd (result (strtok_buf (T @ NUL # r)) s))"
proof -
  obtain ts b where tb: "strtok_all T = (ts, b)" by (cases "strtok_all T")
  then have "length b = length T" using length_strtok_all [of T] by simp
  then show "exec (strtok_buf (T @ NUL # r)) s = s"
    and "fst (result (strtok_buf (T @ NUL # r)) s) = tokens T"
    and "buffer_ends T (snd (result (strtok_buf (T @ NUL # r)) s))"
    using assms tb by (simp_all add: strtok_buf_def tokens_def buffer_ends_def)
qed

lemma buffer_ends_zeros: "length T < 256 \<Longrightarrow> buffer_ends T (zeros 256)"
  by (cases "256 - length T") (auto simp: buffer_ends_def zeros_def)

text \<open>Both passes see the same tokens; the table is read from all of them but the last.\<close>

lemma read_frequencies_effect:
  assumes T: "reads_as s scaling_available_frequencies T" and p: "pInfo s = Some p" and "tokens T \<noteq> []"
  shows "\<exists>e. exec read_frequencies s = s\<lparr>errno := e,
      undef := undef s \<or> \<not> list_all int32 (map atoi (butlast (tokens T))), pInfo := Some (p\<lparr>
      num_available_frequencies := int (length (tokens T)) - 1,
      available_frequencies := map atoi (butlast (tokens T))\<rparr>)\<rparr>"
    and "length (result read_frequencies s) = 256"
proof -
  let ?path = scaling_available_frequencies
  have T': "NUL \<notin> set T" "length T < 256" using T by (auto simp: reads_as_def)
  obtain r1 where r1: "result (sysfs_read ?path (zeros 256) 256) s = T @ NUL # r1"
      "length (T @ NUL # r1) = 256"
    using reads_as_result [OF T buffer_ends_zeros [OF T'(2)]] by blast
  obtain e1 where e1: "exec (sysfs_read ?path (zeros 256) 256) s = s\<lparr>errno := e1\<rparr>"
    by (rule exec_sysfs_read)
  note k1 = strtok_buf_text [OF T'(1) r1(2)]
  let ?b1 = "snd (result (strtok_buf (T @ NUL # r1)) (s\<lparr>errno := e1\<rparr>))"
  let ?s1 = "s\<lparr>errno := e1, pInfo := Some (p\<lparr>num_available_frequencies := int (length (tokens T)) - 1\<rparr>)\<rparr>"
  have "reads_as ?s1 ?path T" using T by simp
  then obtain r2 where r2: "result (sysfs_read ?path ?b1 256) ?s1 = T @ NUL # r2"
      "length (T @ NUL # r2) = 256"
    using reads_as_result [OF _ k1(3)] by blast
  obtain e2 where e2: "exec (sysfs_read ?path ?b1 256) ?s1 = ?s1\<lparr>errno := e2\<rparr>"
    by (rule exec_sysfs_read)
  note k2 = strtok_buf_text [OF T'(1) r2(2)]
  have n: "nat (int (length (tokens T)) - 1) = length (tokens T) - 1" by simp
  have "exec read_frequencies s = ?s1\<lparr>errno := e2,
      undef := undef s \<or> \<not> list_all int32 (map atoi (butlast (tokens T))), pInfo := Some (p\<lparr>
      num_available_frequencies := int (length (tokens T)) - 1,
      available_frequencies := map atoi (butlast (tokens T))\<rparr>)\<rparr>"
    and len: "length (result read_frequencies s) = 256"
    using p k2(3)
    by (simp_all add: read_frequencies_def r1(1) e1 k1(1,2) r2(1) e2 k2(1,2) set_info_def
        store_frequencies_def n Let_def butlast_conv_take case_prod_unfold buffer_ends_def list.pred_map comp_def)
  then show "\<exists>e. exec read_frequencies s = s\<lparr>errno := e,
      undef := undef s \<or> \<not> list_all int32 (map atoi (butlast (tokens T))), pInfo := Some (p\<lparr>
      num_available_frequencies := int (length (tokens T)) - 1,
      available_frequencies := map atoi (butlast (tokens T))\<rparr>)\<rparr>"
    by (intro exI [of _ e2]) simp
  show "length (result read_frequencies s) = 256" by (rule len)
qed

section \<open>The derived frequencies\<close>

lemma number_ends_show_int: "number_ends (show_int i @ NL # r)"
proof -
  have sp: "\<not> is_space (CHR ''-'')" and nd: "\<not> is_digit NL" by (simp_all add: is_space_def is_digit_def char_code_def)
  have dig: "dropWhile is_digit (show_nat n @ NL # r) = NL # r" for n
    using nd by (subst dropWhile_all) (simp_all add: show_nat_digits)
  show ?thesis
  proof (cases "i < 0")
    case True
    then show ?thesis using dig [of "nat (- i)"] nd by (auto simp: number_ends_def show_int_def sp Let_def)
  next
    case False
    obtain c cs where c: "show_nat (nat i) = c # cs" by (cases "show_nat (nat i)") auto
    then have d: "is_digit c" by (metis show_nat_digits list.set_intros(1))
    show ?thesis
      using False dig [of "nat i"] nd is_digit_not_space [OF d] is_digit_not_sign [OF d]
      by (simp add: number_ends_def show_int_def c)
  qed
qed

lemma atoi_buf_number:
  "exec (atoi_buf (show_int i @ NL # r)) s = s\<lparr>undef := undef s \<or> \<not> int32 i\<rparr>"
  "result (atoi_buf (show_int i @ NL # r)) s = i"
proof -
  have "\<not> is_digit NL" by (simp add: is_digit_def char_code_def)
  then show "exec (atoi_buf (show_int i @ NL # r)) s = s\<lparr>undef := undef s \<or> \<not> int32 i\<rparr>"
    "result (atoi_buf (show_int i @ NL # r)) s = i"
    by (simp_all add: atoi_buf_def atoi_string_def number_ends_show_int atoi_show_int_append)
qed

definition frequencies_from :: "int \<Rightarrow> int \<Rightarrow> powerhal_info \<Rightarrow> powerhal_info" where
  "frequencies_from lp mx p = p\<lparr>lp_max_frequency := lp,
     interaction_boost_frequency := first_at_least 1326000 (available_frequencies p) lp,
     animation_boost_frequency := first_at_least 1024000 (available_frequencies p) lp,
     cpu0_max_frequency := mx\<rparr>"

lemma read_limits_effect:
  assumes "node_text s idle_top_freq 256 = Some (show_int lp @ [NL])"
    and "node_text s SYS_NODE_CPU0_MAX_FREQ 256 = Some (show_int mx @ [NL])"
    and p: "pInfo s = Some p"
  shows "\<exists>e. exec (read_limits buf) s = s\<lparr>errno := e, undef := undef s \<or> \<not> list_all int32 [lp, mx],
      pInfo := Some (frequencies_from lp mx p)\<rparr>"
proof -
  obtain e1 where e1: "exec (sysfs_read idle_top_freq buf 256) s = s\<lparr>errno := e1\<rparr>"
    by (rule exec_sysfs_read)
  have r1: "result (sysfs_read idle_top_freq buf 256) s
      = show_int lp @ NL # drop (Suc (length (show_int lp))) buf"
    using sysfs_read_result [OF assms(1)] by (simp add: store_def)
  let ?p = "p\<lparr>lp_max_frequency := lp,
     interaction_boost_frequency := first_at_least 1326000 (available_frequencies p) lp,
     animation_boost_frequency := first_at_least 1024000 (available_frequencies p) lp\<rparr>"
  let ?s = "s\<lparr>errno := e1, undef := undef s \<or> \<not> int32 lp, pInfo := Some ?p\<rparr>"
  let ?b = "show_int lp @ NL # drop (Suc (length (show_int lp))) buf"
  obtain e2 where e2: "exec (sysfs_read SYS_NODE_CPU0_MAX_FREQ ?b 256) ?s = ?s\<lparr>errno := e2\<rparr>"
    by (rule exec_sysfs_read)
  have "node_text ?s SYS_NODE_CPU0_MAX_FREQ 256 = Some (show_int mx @ [NL])" using assms(2) by simp
  from sysfs_read_result [OF this, of ?b]
  have r2: "result (sysfs_read SYS_NODE_CPU0_MAX_FREQ ?b 256) ?s
      = show_int mx @ NL # drop (Suc (length (show_int mx))) ?b"
    by (simp add: store_def)
  have "exec (read_limits buf) s = s\<lparr>errno := e2, undef := undef s \<or> \<not> list_all int32 [lp, mx],
      pInfo := Some (frequencies_from lp mx p)\<rparr>"
    using p by (simp add: read_limits_def r1 e1 atoi_buf_number set_info_def r2 e2
        frequencies_from_def del: append_assoc)
  then show ?thesis by blast
qed

section \<open>The loops over the input devices\<close>

lemma get_input_count_from_result:
  assumes "\<And>j. j < k \<Longrightarrow> accessible s (input_name_path (i + int j)) F_OK"
    and "\<not> accessible s (input_name_path (i + int k)) F_OK" and "k < fuel"
  shows "result (get_input_count_from fuel i) s = Some (i + int k)
    \<and> (\<exists>e u. exec (get_input_count_from fuel i) s = s\<lparr>errno := e, uC_input_number := u\<rparr>)"
  using assms
proof (induction fuel arbitrary: i k s)
  case (Suc fuel)
  obtain e0 where e0: "exec (k_access (input_name_path i) F_OK) s = s\<lparr>errno := e0\<rparr>"
    using exec_k_access [of s "input_name_path i" F_OK] by (auto simp: same_but_errno_def)
  show ?case
  proof (cases k)
    case 0
    then have "\<not> accessible s (input_name_path i) F_OK" using Suc.prems(2) by simp
    moreover have "\<exists>e u. s\<lparr>errno := e0\<rparr> = s\<lparr>errno := e, uC_input_number := u\<rparr>"
      by (rule exI [of _ e0], rule exI [of _ "uC_input_number s"]) simp
    ultimately show ?thesis using 0 by (simp add: e0)
  next
    case (Suc k')
    have acc: "accessible s (input_name_path i) F_OK" using Suc.prems(1) [of 0] Suc by simp
    obtain e1 where e1: "exec (sysfs_read (input_name_path i) (zeros 50) 50) (s\<lparr>errno := e0\<rparr>)
        = s\<lparr>errno := e0\<rparr>\<lparr>errno := e1\<rparr>"
      by (rule exec_sysfs_read)
    let ?name = "result (sysfs_read (input_name_path i) (zeros 50) 50) (s\<lparr>errno := e0\<rparr>)"
    define t where "t = s\<lparr>errno := e1, uC_input_number :=
        if strncmp_eq 50 ?name controller_name then i else uC_input_number s\<rparr>"
    have step: "exec (get_input_count_from (Suc fuel) i) s = exec (get_input_count_from fuel (i + 1)) t"
      "result (get_input_count_from (Suc fuel) i) s = result (get_input_count_from fuel (i + 1)) t"
      using acc by (simp_all add: e0 e1 t_def)
    have "accessible t (input_name_path (i + 1 + int j)) F_OK" if "j < k'" for j
      using Suc.prems(1) [of "Suc j"] that Suc by (simp add: t_def algebra_simps)
    moreover have "\<not> accessible t (input_name_path (i + 1 + int k')) F_OK"
      using Suc.prems(2) Suc by (simp add: t_def algebra_simps)
    moreover have "k' < fuel" using Suc.prems(3) Suc by simp
    ultimately have "result (get_input_count_from fuel (i + 1)) t = Some (i + 1 + int k')
        \<and> (\<exists>e u. exec (get_input_count_from fuel (i + 1)) t = t\<lparr>errno := e, uC_input_number := u\<rparr>)"
      by (rule Suc.IH)
    then show ?thesis using Suc step by (auto simp: t_def)
  qed
qed simp

text \<open>
  What the search is to find: for each device still without a number the first input node, below
  the first missing one, whose name begins like the device's.
\<close>

definition name_at :: "hal \<Rightarrow> nat \<Rightarrow> string" where
  "name_at s i = result (sysfs_read (input_name_path (int i)) (zeros MAX_CHARS) MAX_CHARS) s"

definition fits :: "hal \<Rightarrow> input_dev_map \<Rightarrow> nat \<Rightarrow> bool" where
  "fits s d i \<longleftrightarrow> strncmp_eq MAX_CHARS (name_at s i) (dev_name d)"

definition located :: "hal \<Rightarrow> nat \<Rightarrow> input_dev_map \<Rightarrow> input_dev_map" where
  "located s n d = (if dev_id d = - 1
     then (case find (fits s d) [0..<n] of None \<Rightarrow> d | Some i \<Rightarrow> d\<lparr>dev_id := int i\<rparr>) else d)"

definition hits :: "hal \<Rightarrow> nat \<Rightarrow> input_dev_map list \<Rightarrow> int" where
  "hits s n ds = int (length (filter (\<lambda>d. dev_id d = - 1 \<and> find (fits s d) [0..<n] \<noteq> None) ds))"

lemma name_at_cong [simp]: "name_at (s\<lparr>errno := e\<rparr>) = name_at s" "name_at (s\<lparr>dev_array := a\<rparr>) = name_at s"
  by (auto simp: fun_eq_iff name_at_def open_error_def intro!: sysfs_read_cong split: option.split)

lemma match_devs_eq:
  "match_devs name i ds =
     (map (\<lambda>d. if dev_id d = - 1 \<and> strncmp_eq MAX_CHARS name (dev_name d) then d\<lparr>dev_id := i\<rparr> else d) ds,
      int (length (filter (\<lambda>d. dev_id d = - 1 \<and> strncmp_eq MAX_CHARS name (dev_name d)) ds)))"
  by (induction ds) (simp_all add: Let_def)

lemma find_append: "find P (xs @ ys) = (case find P xs of None \<Rightarrow> find P ys | Some x \<Rightarrow> Some x)"
  by (induction xs) simp_all

lemma dev_name_located [simp]: "dev_name (located s n d) = dev_name d"
  by (simp add: located_def split: option.split)

lemma fits_located [simp]: "fits s (located s n d) i = fits s d i"
  by (simp add: fits_def)

lemma located_0 [simp]: "located s 0 d = d"
  by (simp add: located_def)

lemma located_unset:
  "dev_id (located s n d) = - 1 \<longleftrightarrow> dev_id d = - 1 \<and> find (fits s d) [0..<n] = None"
  by (simp add: located_def split: option.split)

lemma located_Suc:
  "located s (Suc n) d =
     (if dev_id (located s n d) = - 1 \<and> fits s d n then (located s n d)\<lparr>dev_id := int n\<rparr> else located s n d)"
  by (auto simp: located_unset) (auto simp: located_def find_append split: option.split)

lemma hits_Suc:
  "hits s (Suc n) ds = hits s n ds
     + int (length (filter (\<lambda>d. dev_id (located s n d) = - 1 \<and> fits s d n) ds))"
  by (induction ds) (auto simp: hits_def located_unset find_append split: option.splits)

lemma hits_all:
  assumes "hits s n ds = int (length ds)" and "n \<le> m" and "d \<in> set ds"
  shows "located s m d = located s n d"
proof -
  let ?P = "\<lambda>d. dev_id d = - 1 \<and> find (fits s d) [0..<n] \<noteq> None"
  have "length (filter ?P ds) = length ds" using assms(1) by (simp add: hits_def)
  then have "?P d" using length_filter_less [of d ds ?P] assms(3) by force
  then have "find (fits s d) [0..<n] \<noteq> None" ..
  moreover have "[0..<m] = [0..<n] @ [n..<m]" using assms(2) upt_add_eq_append [of 0 n "m - n"] by simp
  ultimately show ?thesis by (auto simp: located_def find_append)
qed

lemma find_input_device_ids_round:
  assumes "t = s\<lparr>errno := e, dev_array := map (located s i) ds @ rest\<rparr>"
    and "input_cnt (info s) = int (length ds)" and "accessible s (input_name_path (int i)) F_OK"
  shows "\<exists>e'. let t' = s\<lparr>errno := e', dev_array := map (located s (Suc i)) ds @ rest\<rparr>;
       n' = hits s (Suc i) ds in
     (exec (find_input_device_ids_from (Suc fuel) (int i) (hits s i ds)) t
       = (if n' = int (length ds) then t' else exec (find_input_device_ids_from fuel (int (Suc i)) n') t'))
     \<and> (result (find_input_device_ids_from (Suc fuel) (int i) (hits s i ds)) t
       = (if n' = int (length ds) then Some () else result (find_input_device_ids_from fuel (int (Suc i)) n') t'))"
proof -
  let ?p = "input_name_path (int i)"
  obtain e0 where e0: "exec (k_access ?p F_OK) t = t\<lparr>errno := e0\<rparr>"
    using exec_k_access [of t ?p F_OK] by (auto simp: same_but_errno_def)
  obtain e1 where e1: "exec (sysfs_read ?p (zeros MAX_CHARS) MAX_CHARS) (t\<lparr>errno := e0\<rparr>) = t\<lparr>errno := e0\<rparr>\<lparr>errno := e1\<rparr>"
    by (rule exec_sysfs_read)
  have "result (sysfs_read ?p (zeros MAX_CHARS) MAX_CHARS) (t\<lparr>errno := e0\<rparr>) = name_at (t\<lparr>errno := e0\<rparr>) i"
    by (simp only: name_at_def)
  also have "\<dots> = name_at s i" by (simp add: assms(1))
  finally have name: "result (sysfs_read ?p (zeros MAX_CHARS) MAX_CHARS) (t\<lparr>errno := e0\<rparr>) = name_at s i" .
  have acc: "accessible t ?p F_OK" using assms(3) by (simp add: assms(1))
  have m: "match_devs (name_at s i) (int i) (map (located s i) ds)
      = (map (located s (Suc i)) ds, hits s (Suc i) ds - hits s i ds)"
    by (simp add: match_devs_eq fits_def [symmetric] located_Suc hits_Suc filter_map comp_def)
  have c: "input_cnt (info t) = int (length ds)" using assms(2) by (simp add: assms(1) info_def)
  have d: "dev_array t = map (located s i) ds @ rest" by (simp add: assms(1))
  have t': "t\<lparr>errno := e1, dev_array := a\<rparr> = s\<lparr>errno := e1, dev_array := a\<rparr>" for a
    by (simp add: assms(1))
  show ?thesis
    by (rule exI [of _ e1])
      (use acc c d in \<open>simp add: e0 e1 name info_def m Let_def case_prod_unfold t' add.commute [of 1]\<close>)
qed

lemma find_input_device_ids_from_effect:
  assumes cnt: "input_cnt (info s) = int (length ds)"
    and all: "\<forall>j<n. accessible s (input_name_path (int j)) F_OK"
    and gap: "\<not> accessible s (input_name_path (int n)) F_OK"
  shows "i \<le> n \<Longrightarrow> n - i < fuel \<Longrightarrow>
    t = s\<lparr>errno := e, dev_array := map (located s i) ds @ rest\<rparr> \<Longrightarrow>
    result (find_input_device_ids_from fuel (int i) (hits s i ds)) t = Some ()
    \<and> (\<exists>e'. exec (find_input_device_ids_from fuel (int i) (hits s i ds)) t
         = s\<lparr>errno := e', dev_array := map (located s n) ds @ rest\<rparr>)"
proof (induction fuel arbitrary: i t e)
  case (Suc fuel)
  show ?case
  proof (cases "i = n")
    case True
    obtain e0 where "exec (k_access (input_name_path (int i)) F_OK) t = t\<lparr>errno := e0\<rparr>"
      using exec_k_access [of t "input_name_path (int i)" F_OK] by (auto simp: same_but_errno_def)
    then have "exec (find_input_device_ids_from (Suc fuel) (int i) (hits s i ds)) t
        = s\<lparr>errno := e0, dev_array := map (located s n) ds @ rest\<rparr>"
      using gap True by (simp add: Suc.prems(3))
    moreover have "result (find_input_device_ids_from (Suc fuel) (int i) (hits s i ds)) t = Some ()"
      using gap True by (simp add: Suc.prems(3))
    ultimately show ?thesis by blast
  next
    case False
    then have i: "i < n" using Suc.prems(1) by simp
    obtain e1 where e1: "let t' = s\<lparr>errno := e1, dev_array := map (located s (Suc i)) ds @ rest\<rparr>;
         n' = hits s (Suc i) ds in
       (exec (find_input_device_ids_from (Suc fuel) (int i) (hits s i ds)) t
         = (if n' = int (length ds) then t' else exec (find_input_device_ids_from fuel (int (Suc i)) n') t'))
       \<and> (result (find_input_device_ids_from (Suc fuel) (int i) (hits s i ds)) t
         = (if n' = int (length ds) then Some () else result (find_input_device_ids_from fuel (int (Suc i)) n') t'))"
      using find_input_device_ids_round [OF Suc.prems(3) cnt all [rule_format, OF i], of fuel] ..
    let ?t = "s\<lparr>errno := e1, dev_array := map (located s (Suc i)) ds @ rest\<rparr>"
    show ?thesis
    proof (cases "hits s (Suc i) ds = int (length ds)")
      case True
      have m: "map (located s n) ds = map (located s (Suc i)) ds"
        by (rule map_cong [OF refl], rule hits_all [OF True]) (use i in simp_all)
      have "exec (find_input_device_ids_from (Suc fuel) (int i) (hits s i ds)) t = ?t"
        and "result (find_input_device_ids_from (Suc fuel) (int i) (hits s i ds)) t = Some ()"
        using e1 [unfolded Let_def if_P [OF True]] by blast+
      then show ?thesis unfolding m by blast
    next
      case False
      have "Suc i \<le> n" "n - Suc i < fuel" using i Suc.prems(2) by simp_all
      note ih = Suc.IH [OF this refl, of e1]
      have "exec (find_input_device_ids_from (Suc fuel) (int i) (hits s i ds)) t
          = exec (find_input_device_ids_from fuel (int (Suc i)) (hits s (Suc i) ds)) ?t"
        and "result (find_input_device_ids_from (Suc fuel) (int i) (hits s i ds)) t
          = result (find_input_device_ids_from fuel (int (Suc i)) (hits s (Suc i) ds)) ?t"
        using e1 [unfolded Let_def if_not_P [OF False]] by blast+
      then show ?thesis using ih by (simp only: simp_thms)
    qed
  qed
qed simp

lemma find_input_device_ids_effect:
  assumes "input_cnt (info s) = int (length ds)" and "dev_array s = ds @ rest"
    and "\<forall>j<n. accessible s (input_name_path (int j)) F_OK"
    and "\<not> accessible s (input_name_path (int n)) F_OK" and "n < fuel"
  shows "result (find_input_device_ids fuel) s = Some ()
    \<and> (\<exists>e. exec (find_input_device_ids fuel) s = s\<lparr>errno := e, dev_array := map (located s n) ds @ rest\<rparr>)"
proof -
  have "map (located s 0) ds = ds" by (simp add: map_idI)
  then have eq: "s = s\<lparr>errno := errno s, dev_array := map (located s 0) ds @ rest\<rparr>"
    by (simp flip: assms(2))
  have h: "hits s 0 ds = 0" by (simp add: hits_def)
  have "n - 0 < fuel" using assms(5) by simp
  from find_input_device_ids_from_effect [OF assms(1,3,4) le0 this eq] show ?thesis
    by (simp only: find_input_device_ids_def h of_nat_0 int_ops)
qed

section \<open>Opening as a whole\<close>

definition fan_path :: string where
  "fan_path = ''/sys/devices/platform/pwm-fan/pwm_cap''"

text \<open>The members of \<open>pInfo\<close> after opening, from what the nodes hold.\<close>

definition opened_info ::
    "power_hints \<Rightarrow> nat \<Rightarrow> int list \<Rightarrow> int \<Rightarrow> int \<Rightarrow> bool \<Rightarrow> powerhal_info \<Rightarrow> powerhal_info" where
  "opened_info H k fs lp mx fan p =
     (set_intervals H (frequencies_from lp mx (p\<lparr>mTimeoutPoker := Some k,
        num_available_frequencies := int (length fs), available_frequencies := fs\<rparr>)))
     \<lparr>features_fan := fan\<rparr>"

text \<open>Everything after the input devices.\<close>

definition start_defined :: "power_hints \<Rightarrow> int list \<Rightarrow> bool" where
  "start_defined H ns \<longleftrightarrow> intervals_fit H \<and> list_all int32 ns"

definition open_rest :: "power_hints \<Rightarrow> (hal, unit option) state" where
  "open_rest H = do {
     new_timeout_poker;
     buf \<leftarrow> read_frequencies;
     read_limits buf;
     init_intervals H;
     fan \<leftarrow> sysfs_exists fan_path;
     set_info (\<lambda>p. p\<lparr>features_fan := fan\<rparr>);
     ret (Some ())
   }"

lemma open_rest_effect:
  assumes "pInfo s = Some p" and "reads_as s scaling_available_frequencies T" and "tokens T \<noteq> []"
    and "node_text s idle_top_freq 256 = Some (show_int lp @ [NL])"
    and "node_text s SYS_NODE_CPU0_MAX_FREQ 256 = Some (show_int mx @ [NL])"
    and "fds s (- 1) = None"
  shows "result (open_rest H) s = Some () \<and> (\<exists>e. exec (open_rest H) s = s\<lparr>errno := e,
      undef := undef s \<or> \<not> start_defined H (lp # mx # map atoi (butlast (tokens T))), pokers := pokers s @ [new_poker],
      pInfo := Some (opened_info H (length (pokers s)) (map atoi (butlast (tokens T))) lp mx
        (opened s fan_path O_RDONLY \<noteq> None) p)\<rparr>)"
proof -
  let ?p1 = "p\<lparr>mTimeoutPoker := Some (length (pokers s))\<rparr>"
  let ?s1 = "s\<lparr>pokers := pokers s @ [new_poker], pInfo := Some ?p1\<rparr>"
  let ?p2 = "?p1\<lparr>num_available_frequencies := int (length (tokens T)) - 1,
      available_frequencies := map atoi (butlast (tokens T))\<rparr>"
  have len: "int (length (tokens T)) - 1 = int (length (map atoi (butlast (tokens T))))"
    using assms(3) by (cases "tokens T") auto
  have e1: "exec new_timeout_poker s = ?s1"
    using assms(1) by (simp add: new_timeout_poker_def set_info_def)
  let ?fs = "map atoi (butlast (tokens T))"
  let ?st = "\<lambda>e u q. s\<lparr>pokers := pokers s @ [new_poker], errno := e, undef := undef s \<or> u, pInfo := Some q\<rparr>"
  obtain e2 where e2: "exec read_frequencies ?s1 = ?st e2 (\<not> list_all int32 ?fs) ?p2"
    using read_frequencies_effect(1) [of ?s1 T ?p1] assms(2,3) by auto
  let ?s2 = "?st e2 (\<not> list_all int32 ?fs) ?p2"
  obtain e3 where e3: "exec (read_limits (result read_frequencies ?s1)) ?s2
      = ?st e3 (\<not> list_all int32 (lp # mx # ?fs)) (frequencies_from lp mx ?p2)"
  proof -
    have "node_text ?s2 idle_top_freq 256 = Some (show_int lp @ [NL])"
      "node_text ?s2 SYS_NODE_CPU0_MAX_FREQ 256 = Some (show_int mx @ [NL])" "pInfo ?s2 = Some ?p2"
      using assms(4,5) by simp_all
    from read_limits_effect [OF this] obtain e where "exec (read_limits (result read_frequencies ?s1)) ?s2
      = ?s2\<lparr>errno := e, undef := undef ?s2 \<or> \<not> list_all int32 [lp, mx], pInfo := Some (frequencies_from lp mx ?p2)\<rparr>"
      by blast
    also have "\<dots> = ?st e (\<not> list_all int32 (lp # mx # ?fs)) (frequencies_from lp mx ?p2)"
      by (cases "list_all int32 ?fs"; cases "undef s") simp_all
    finally show ?thesis by (rule that)
  qed
  let ?p3 = "set_intervals H (frequencies_from lp mx ?p2)"
  let ?s3 = "?st e3 (\<not> start_defined H (lp # mx # ?fs)) ?p3"
  obtain e4 where e4: "exec (sysfs_exists fan_path) ?s3 = ?s3\<lparr>errno := e4\<rparr>"
    using sysfs_exists_effect(1) [of ?s3 fan_path] assms(6) by (auto simp: same_but_errno_def)
  have fan: "result (sysfs_exists fan_path) ?s3 \<longleftrightarrow> opened s fan_path O_RDONLY \<noteq> None"
    using sysfs_exists_effect(2) [of ?s3 fan_path] assms(6) by simp
  have "exec (init_intervals H) (?st e3 (\<not> list_all int32 (lp # mx # ?fs)) (frequencies_from lp mx ?p2)) = ?s3"
    by (cases "intervals_fit H"; cases "undef s") (simp_all add: init_intervals_def set_info_def start_defined_def)
  then have "exec (open_rest H) s = s\<lparr>errno := e4, undef := undef s \<or> \<not> start_defined H (lp # mx # ?fs),
      pokers := pokers s @ [new_poker],
      pInfo := Some (?p3\<lparr>features_fan := opened s fan_path O_RDONLY \<noteq> None\<rparr>)\<rparr>"
    using e4 fan by (simp add: open_rest_def e1 e2 e3 set_info_def)
  then show ?thesis
    unfolding opened_info_def len [symmetric] by (auto simp: open_rest_def)
qed

text \<open>The two ways of settling the input devices.\<close>

lemma common_power_open_find:
  assumes p: "pInfo s = Some p" "input_devs p" "input_cnt p = int (length ds)" "ds \<noteq> []"
      "dev_array s = ds @ rest"
    and dev: "\<forall>j<n. accessible s (input_name_path (int j)) F_OK"
      "\<not> accessible s (input_name_path (int n)) F_OK" "n < fuel"
    and rd: "reads_as s scaling_available_frequencies T" "tokens T \<noteq> []"
      "node_text s idle_top_freq 256 = Some (show_int lp @ [NL])"
      "node_text s SYS_NODE_CPU0_MAX_FREQ 256 = Some (show_int mx @ [NL])"
    and "fds s (- 1) = None"
  shows "result (common_power_open H fuel) s = Some () \<and> (\<exists>e. exec (common_power_open H fuel) s
    = s\<lparr>dev_array := map (located s n) ds @ rest, errno := e,
      undef := undef s \<or> \<not> start_defined H (lp # mx # map atoi (butlast (tokens T))), pokers := pokers s @ [new_poker],
      pInfo := Some (opened_info H (length (pokers s)) (map atoi (butlast (tokens T))) lp mx
        (opened s fan_path O_RDONLY \<noteq> None) p)\<rparr>)"
proof -
  have c: "input_cnt (info s) = int (length ds)" using p by (simp add: info_def)
  obtain e1 where f: "result (find_input_device_ids fuel) s = Some ()"
      "exec (find_input_device_ids fuel) s = s\<lparr>errno := e1, dev_array := map (located s n) ds @ rest\<rparr>"
    using find_input_device_ids_effect [OF c p(5) dev] by blast
  let ?s1 = "s\<lparr>errno := e1, dev_array := map (located s n) ds @ rest\<rparr>"
  have split: "exec (common_power_open H fuel) s = exec (open_rest H) ?s1"
    "result (common_power_open H fuel) s = result (open_rest H) ?s1"
    using p f by (simp_all add: common_power_open_def open_rest_def fan_path_def info_def)
  have "pInfo ?s1 = Some p" "fds ?s1 (- 1) = None" "reads_as ?s1 scaling_available_frequencies T"
    "node_text ?s1 idle_top_freq 256 = Some (show_int lp @ [NL])"
    "node_text ?s1 SYS_NODE_CPU0_MAX_FREQ 256 = Some (show_int mx @ [NL])"
    using assms by simp_all
  from open_rest_effect [OF this(1,3) rd(2) this(4,5,2), of H] show ?thesis
    by (auto simp: split)
qed

lemma common_power_open_count:
  assumes p: "pInfo s = Some p" "\<not> input_devs p \<or> input_cnt p = 0"
    and dev: "\<forall>j<n. accessible s (input_name_path (int j)) F_OK"
      "\<not> accessible s (input_name_path (int n)) F_OK" "n < fuel"
    and rd: "reads_as s scaling_available_frequencies T" "tokens T \<noteq> []"
      "node_text s idle_top_freq 256 = Some (show_int lp @ [NL])"
      "node_text s SYS_NODE_CPU0_MAX_FREQ 256 = Some (show_int mx @ [NL])"
    and "fds s (- 1) = None"
  shows "result (common_power_open H fuel) s = Some () \<and> (\<exists>e u. exec (common_power_open H fuel) s
    = s\<lparr>uC_input_number := u, errno := e,
      undef := undef s \<or> \<not> start_defined H (lp # mx # map atoi (butlast (tokens T))), pokers := pokers s @ [new_poker],
      pInfo := Some (opened_info H (length (pokers s)) (map atoi (butlast (tokens T))) lp mx
        (opened s fan_path O_RDONLY \<noteq> None) (p\<lparr>input_cnt := int n\<rparr>))\<rparr>)"
proof -
  obtain e1 u where f: "result (get_input_count fuel) s = Some (int n)"
      "exec (get_input_count fuel) s = s\<lparr>errno := e1, uC_input_number := u\<rparr>"
    using get_input_count_from_result [of n s 0 fuel] dev by (auto simp: get_input_count_def)
  let ?p1 = "p\<lparr>input_cnt := int n\<rparr>"
  let ?s1 = "s\<lparr>errno := e1, uC_input_number := u, pInfo := Some ?p1\<rparr>"
  have split: "exec (common_power_open H fuel) s = exec (open_rest H) ?s1"
    "result (common_power_open H fuel) s = result (open_rest H) ?s1"
    using p f by (simp_all add: common_power_open_def open_rest_def fan_path_def info_def set_info_def)
  have "pInfo ?s1 = Some ?p1" "fds ?s1 (- 1) = None" "reads_as ?s1 scaling_available_frequencies T"
    "node_text ?s1 idle_top_freq 256 = Some (show_int lp @ [NL])"
    "node_text ?s1 SYS_NODE_CPU0_MAX_FREQ 256 = Some (show_int mx @ [NL])"
    using assms by simp_all
  from open_rest_effect [OF this(1,3) rd(2) this(4,5,2), of H] show ?thesis
    by (auto simp: split)
qed

end
