(* ===== verification/Nv_Power_Boot.thy ===== *)
theory Nv_Power_Boot
  imports Nv_Power_Open Nv_Power_Requests
begin

text \<open>
  Opening and initialising the common power HAL: the statements about a whole boot, with the
  frequency table as the kernel prints it, and with that node missing or empty.
\<close>

section \<open>The kernel's listing\<close>

definition freq_listing :: "int list \<Rightarrow> string" where
  "freq_listing fs = concat (map (\<lambda>f. show_int f @ '' '') fs) @ [NL]"

lemma tokens_freq_listing: "tokens (freq_listing fs) = map show_int fs @ [[NL]]"
proof -
  have "tokens (concat (map (\<lambda>t. t @ '' '') (map show_int fs)) @ [NL]) = map show_int fs @ tokens [NL]"
    by (rule tokens_blank_separated) (use show_int_word in auto)
  moreover have "tokens [NL] = [[NL]]" by (rule tokens_word(2)) (simp_all add: blank_def)
  ultimately show ?thesis by (simp add: freq_listing_def comp_def)
qed

lemma freq_listing_no_NUL: "NUL \<notin> set (freq_listing fs)"
  using show_int_no_NUL by (auto simp: freq_listing_def)

lemma butlast_tokens_freq_listing:
  "map atoi (butlast (tokens (freq_listing fs))) = fs" "tokens (freq_listing fs) \<noteq> []"
  by (simp_all add: tokens_freq_listing comp_def atoi_show_int)

lemma reads_as_listing:
  "node_text s p 256 = Some (freq_listing fs) \<Longrightarrow> length (freq_listing fs) < 256 \<Longrightarrow>
   reads_as s p (freq_listing fs)"
  by (simp add: reads_as_def freq_listing_no_NUL)

lemma first_at_least_sorted:
  assumes "sorted fs"
  shows "(\<exists>f \<in> set fs. b \<le> f) \<Longrightarrow> first_at_least b fs d = Min {f \<in> set fs. b \<le> f}"
    and "\<not> (\<exists>f \<in> set fs. b \<le> f) \<Longrightarrow> first_at_least b fs d = d"
proof -
  show "first_at_least b fs d = Min {f \<in> set fs. b \<le> f}" if "\<exists>f \<in> set fs. b \<le> f"
    using that assms
  proof (induction fs)
    case (Cons f fs)
    show ?case
    proof (cases "b \<le> f")
      case True
      then have "Min {x \<in> set (f # fs). b \<le> x} = f" using Cons.prems(2) by (intro Min_eqI) auto
      then show ?thesis using True by (simp add: first_at_least_def)
    next
      case False
      then have "{x \<in> set (f # fs). b \<le> x} = {x \<in> set fs. b \<le> x}" by auto
      then show ?thesis using False Cons by (simp add: first_at_least_def)
    qed
  qed simp
  show "first_at_least b fs d = d" if "\<not> (\<exists>f \<in> set fs. b \<le> f)"
    using that by (auto simp: first_at_least_def find_None_iff split: option.split dest: find_Some_props)
qed

section \<open>Opening\<close>

text \<open>
  C16. On a device whose nodes read as the kernel prints them, opening succeeds.  The table holds
  exactly the frequencies printed, in their order, although they are counted and read in two
  passes over one buffer that \<open>strtok\<close> cuts up; with the table rising as the kernel sorts it, the
  interaction and the animation boost are the least frequencies of at least 1326 and 1024 MHz, or
  the low-power maximum where there is none; a fresh poker is started for the requests; no
  descriptor is left open, nothing is written, and nothing undefined happens if and only if every
  number read is an \<open>int\<close> and the hints that get an interval lie within the array.
\<close>

theorem common_power_open_correct:
  assumes "pInfo s = Some p" "input_devs p" "input_cnt p = int (length ds)" "ds \<noteq> []"
      "dev_array s = ds @ rest"
    and "\<forall>j<n. accessible s (input_name_path (int j)) F_OK"
      "\<not> accessible s (input_name_path (int n)) F_OK" "n < fuel"
    and "node_text s scaling_available_frequencies 256 = Some (freq_listing fs)"
      "length (freq_listing fs) < 256" "sorted fs"
      "node_text s idle_top_freq 256 = Some (show_int lp @ [NL])"
      "node_text s SYS_NODE_CPU0_MAX_FREQ 256 = Some (show_int mx @ [NL])"
    and "fds s (- 1) = None"
  shows "result (common_power_open H fuel) s = Some () \<and>
    (let t = exec (common_power_open H fuel) s; q = info t;
         boost = (\<lambda>b. if \<exists>f \<in> set fs. b \<le> f then Min {f \<in> set fs. b \<le> f} else lp)
     in available_frequencies q = fs \<and> num_available_frequencies q = int (length fs)
      \<and> lp_max_frequency q = lp \<and> cpu0_max_frequency q = mx
      \<and> interaction_boost_frequency q = boost 1326000 \<and> animation_boost_frequency q = boost 1024000
      \<and> mTimeoutPoker q = Some (length (pokers s)) \<and> pokers t = pokers s @ [new_poker]
      \<and> dev_array t = map (located s n) ds @ rest
      \<and> undef t = (undef s \<or> \<not> (intervals_fit H \<and> (\<forall>i \<in> set (lp # mx # fs). int32 i)))
      \<and> fds t = fds s \<and> wlog t = wlog s)"
proof -
  note l = reads_as_listing [OF assms(9,10)]
  obtain e where e: "result (common_power_open H fuel) s = Some ()"
    "exec (common_power_open H fuel) s = s\<lparr>dev_array := map (located s n) ds @ rest, errno := e,
       undef := undef s \<or> \<not> start_defined H (lp # mx # fs), pokers := pokers s @ [new_poker], pInfo := Some (opened_info H (length (pokers s)) fs lp mx
        (opened s fan_path O_RDONLY \<noteq> None) p)\<rparr>"
    using common_power_open_find [OF assms(1-8) l butlast_tokens_freq_listing(2) assms(12-14), of H]
    by (auto simp: butlast_tokens_freq_listing(1))
  show ?thesis
    using first_at_least_sorted [OF assms(11)]
    by (simp add: e Let_def info_def opened_info_def set_intervals_def frequencies_from_def start_defined_def list_all_iff)
qed

text \<open>A device with one input node and three frequencies.\<close>

definition boot_info :: powerhal_info where
  "boot_info = demo_info\<lparr>input_cnt := 1\<rparr>"

definition boot_hal :: "(string \<times> node) list \<Rightarrow> hal" where
  "boot_hal ns = kernel.extend (plain_kernel ns)
     \<lparr>pInfo = Some boot_info, dev_array = [\<lparr>dev_id = - 1, dev_name = ''touch'' @ [NL]\<rparr>],
      uC_input_number = 1, pokers = [], undef = False\<rparr>"

definition other_nodes :: "(string \<times> node) list" where
  "other_nodes = [(''/sys/class/input/input0/name'', plain_node (''touch'' @ [NL])),
     (idle_top_freq, plain_node (show_int 696000 @ [NL])),
     (SYS_NODE_CPU0_MAX_FREQ, plain_node (show_int 1326000 @ [NL]))]"

definition table_node :: "string \<times> node" where
  "table_node = (scaling_available_frequencies, plain_node (freq_listing [51000, 1020000, 1326000]))"

lemma boot_hal_simps [simp]:
  "pInfo (boot_hal ns) = Some boot_info" "dev_array (boot_hal ns) = [\<lparr>dev_id = - 1, dev_name = ''touch'' @ [NL]\<rparr>]"
  "pokers (boot_hal ns) = []" "undef (boot_hal ns) = False" "nodes (boot_hal ns) = map_of ns"
  "fds (boot_hal ns) = std_fds" "now (boot_hal ns) = 0" "strerr (boot_hal ns) e = ''No such file or directory''"
  "props (boot_hal ns) = Map.empty"
  by (simp_all add: boot_hal_def kernel.defs plain_kernel_def)

lemma free_fd_boot: "free_fd (boot_hal ns) = Some 3"
  by (simp add: free_fd_def fd_slots_def boot_hal_def kernel.defs plain_kernel_def std_fds_def upt_rec)

lemma node_text_boot:
  "map_of ns p = Some (plain_node d) \<Longrightarrow> node_text (boot_hal ns) p n = Some (take n d)"
  by (simp add: node_text_def opened_def open_error_def free_fd_boot plain_node_def)

lemma input_paths:
  "input_name_path 0 = ''/sys/class/input/input0/name''" "input_name_path 1 = ''/sys/class/input/input1/name''"
  by (simp_all add: input_name_path_def snprintf_def show_int_def show_nat.simps)

lemma other_nodes_texts:
  assumes "map_of ns idle_top_freq = map_of other_nodes idle_top_freq"
    and "map_of ns SYS_NODE_CPU0_MAX_FREQ = map_of other_nodes SYS_NODE_CPU0_MAX_FREQ"
  shows "node_text (boot_hal ns) idle_top_freq 256 = Some (show_int 696000 @ [NL])"
    and "node_text (boot_hal ns) SYS_NODE_CPU0_MAX_FREQ 256 = Some (show_int 1326000 @ [NL])"
proof -
  have "take 256 (show_int i @ [NL]) = show_int i @ [NL]" if "int32 i" for i
    using length_show_int [OF that] by simp
  then have t: "take 256 (show_int 696000 @ [NL]) = show_int 696000 @ [NL]"
    "take 256 (show_int 1326000 @ [NL]) = show_int 1326000 @ [NL]" by (simp_all add: int32_def)
  show "node_text (boot_hal ns) idle_top_freq 256 = Some (show_int 696000 @ [NL])"
    using node_text_boot [of ns idle_top_freq "show_int 696000 @ [NL]" 256] assms(1) t
    by (simp add: other_nodes_def idle_top_freq_def)
  show "node_text (boot_hal ns) SYS_NODE_CPU0_MAX_FREQ 256 = Some (show_int 1326000 @ [NL])"
    using node_text_boot [of ns SYS_NODE_CPU0_MAX_FREQ "show_int 1326000 @ [NL]" 256] assms(2) t
    by (simp add: other_nodes_def idle_top_freq_def SYS_NODE_CPU0_MAX_FREQ_def)
qed

lemma boot_table:
  "node_text (boot_hal (table_node # other_nodes)) scaling_available_frequencies 256
     = Some (freq_listing [51000, 1020000, 1326000])"
  "length (freq_listing [51000, 1020000, 1326000]) < 256"
proof -
  have l: "length (freq_listing [51000, 1020000, 1326000]) = 23"
    by (simp add: freq_listing_def show_int_def show_nat.simps)
  then show "length (freq_listing [51000, 1020000, 1326000]) < 256" by simp
  show "node_text (boot_hal (table_node # other_nodes)) scaling_available_frequencies 256
     = Some (freq_listing [51000, 1020000, 1326000])"
    using node_text_boot [of "table_node # other_nodes" scaling_available_frequencies
        "freq_listing [51000, 1020000, 1326000]" 256] l
    by (simp add: table_node_def)
qed

lemma boot_inputs:
  assumes "ns = other_nodes \<or> ns = table_node # other_nodes"
  shows "\<forall>j<1. accessible (boot_hal ns) (input_name_path (int j)) F_OK"
    and "\<not> accessible (boot_hal ns) (input_name_path (int 1)) F_OK"
  using assms
  by (auto simp: accessible_def input_paths other_nodes_def table_node_def idle_top_freq_def
      SYS_NODE_CPU0_MAX_FREQ_def scaling_available_frequencies_def plain_node_def)

theorem common_power_open_correct_witness:
  "interaction_boost_frequency (info (exec (common_power_open cm_hints 2) (boot_hal (table_node # other_nodes)))) = 1326000
   \<and> animation_boost_frequency (info (exec (common_power_open cm_hints 2) (boot_hal (table_node # other_nodes)))) = 1326000"
proof -
  let ?s = "boot_hal (table_node # other_nodes)"
  have "map_of (table_node # other_nodes) idle_top_freq = map_of other_nodes idle_top_freq"
    "map_of (table_node # other_nodes) SYS_NODE_CPU0_MAX_FREQ = map_of other_nodes SYS_NODE_CPU0_MAX_FREQ"
    by (simp_all add: table_node_def idle_top_freq_def SYS_NODE_CPU0_MAX_FREQ_def scaling_available_frequencies_def)
  note t = other_nodes_texts [OF this]
  have p: "pInfo ?s = Some boot_info" "input_devs boot_info" "input_cnt boot_info = int (length (dev_array ?s))"
    "dev_array ?s \<noteq> []" "dev_array ?s = dev_array ?s @ []" "sorted [51000, 1020000, 1326000 :: int]"
    "fds ?s (- 1) = None" "(1 :: nat) < 2"
    by (simp_all add: boot_info_def demo_info_def std_fds_def)
  have m: "Min {f \<in> {51000, 1020000, 1326000 :: int}. 1326000 \<le> f} = 1326000"
    "Min {f \<in> {51000, 1020000, 1326000 :: int}. 1024000 \<le> f} = 1326000"
    by (rule Min_eqI; auto)+
  from common_power_open_correct [OF p(1-5) boot_inputs p(8) boot_table p(6) t p(7), of cm_hints] m
  show ?thesis by (simp add: Let_def)
qed

section \<open>Initialising\<close>

lemma tokens_concrete:
  assumes "t \<noteq> []" and "\<not> list_ex blank t"
  shows "tokens (t @ CHR '' '' # r) = t # tokens r" and "tokens t = [t]"
  using assms tokens_word [of t] by (auto simp: list_ex_iff)

definition boot_boost :: "int \<Rightarrow> queued_event" where
  "boot_boost f = timed_event_priority PMQOS_CONSTRAINT_CPU_FREQ 35 (- 1) f 15000000000"

lemma common_power_init_effect:
  assumes "pInfo s = Some p" "input_devs p" "input_cnt p = int (length ds)" "ds \<noteq> []"
      "dev_array s = ds @ rest"
    and "\<forall>j<n. accessible s (input_name_path (int j)) F_OK"
      "\<not> accessible s (input_name_path (int n)) F_OK" "n < fuel"
    and "reads_as s scaling_available_frequencies T" "tokens T \<noteq> []"
      "node_text s idle_top_freq 256 = Some (show_int lp @ [NL])"
      "node_text s SYS_NODE_CPU0_MAX_FREQ 256 = Some (show_int mx @ [NL])"
    and "fds s (- 1) = None" and fs: "fs = map atoi (butlast (tokens T))"
  shows "result (common_power_init H fuel) s = Some ()
    \<and> fds (exec (common_power_init H fuel) s) = fds s
    \<and> available_frequencies (info (exec (common_power_init H fuel) s)) = fs
    \<and> undef (exec (common_power_init H fuel) s) = (undef s \<or> \<not> start_defined H (lp # mx # fs) \<or> fs = [])
    \<and> now (exec (common_power_init H fuel) s) = now s
    \<and> hint_time (info (exec (common_power_init H fuel) s)) = hint_time p
    \<and> hint_interval (info (exec (common_power_init H fuel) s)) = hint_interval (set_intervals H p)
    \<and> mTimeoutPoker (info (exec (common_power_init H fuel) s)) = Some (length (pokers s))
    \<and> (fs \<noteq> [] \<longrightarrow> pokers (exec (common_power_init H fuel) s)
         = pokers s @ [pushEvent (now s) (boot_boost (last fs)) new_poker])"
proof -
  obtain e where e: "result (common_power_open H fuel) s = Some ()"
    "exec (common_power_open H fuel) s = s\<lparr>dev_array := map (located s n) ds @ rest, errno := e,
       undef := undef s \<or> \<not> start_defined H (lp # mx # fs), pokers := pokers s @ [new_poker], pInfo := Some (opened_info H (length (pokers s)) fs lp mx
        (opened s fan_path O_RDONLY \<noteq> None) p)\<rparr>"
    using common_power_open_find [OF assms(1-13), of H] by (auto simp: fs)
  show ?thesis
  proof (cases "fs = []")
    case True
    then show ?thesis
      by (simp add: common_power_init_def e set_info_def info_def frequency_at_def undefined_behaviour_def
          opened_info_def set_intervals_def frequencies_from_def request_defs)
  next
    case False
    then have "nat (int (length fs) - 1) = length fs - 1" "fs ! (length fs - 1) = last fs"
      by (simp_all add: last_conv_nth)
    then show ?thesis
      using False
      by (simp add: common_power_init_def e set_info_def info_def frequency_at_def boot_boost_def
          opened_info_def set_intervals_def frequencies_from_def request_defs)
  qed
qed

text \<open>
  C29. Initialising asks for the top frequency during boot.  Whatever text the frequency node gives,
  the request is for the last number of the table as it was parsed, for 15 seconds; when the
  text has no more than one word the table is empty and the code indexes it at -1.  That, a number
  that is not an \<open>int\<close>, and an interval outside its array are all that can be undefined.
\<close>

theorem common_power_init_correct:
  assumes "pInfo s = Some p" "input_devs p" "input_cnt p = int (length ds)" "ds \<noteq> []"
      "dev_array s = ds @ rest"
    and "\<forall>j<n. accessible s (input_name_path (int j)) F_OK"
      "\<not> accessible s (input_name_path (int n)) F_OK" "n < fuel"
    and "reads_as s scaling_available_frequencies T" "tokens T \<noteq> []"
      "node_text s idle_top_freq 256 = Some (show_int lp @ [NL])"
      "node_text s SYS_NODE_CPU0_MAX_FREQ 256 = Some (show_int mx @ [NL])"
    and "fds s (- 1) = None" and "fs = map atoi (butlast (tokens T))"
  shows "result (common_power_init H fuel) s = Some ()
    \<and> fds (exec (common_power_init H fuel) s) = fds s
    \<and> available_frequencies (info (exec (common_power_init H fuel) s)) = fs
    \<and> undef (exec (common_power_init H fuel) s)
        = (undef s \<or> fs = [] \<or> \<not> (intervals_fit H \<and> (\<forall>i \<in> set (lp # mx # fs). int32 i)))
    \<and> (fs \<noteq> [] \<longrightarrow> pokers (exec (common_power_init H fuel) s)
         = pokers s @ [pushEvent (now s) (boot_boost (last fs)) new_poker])"
  using common_power_init_effect [OF assms] by (auto simp: start_defined_def list_all_iff)

lemma boot_facts:
  "pInfo (boot_hal ns) = Some boot_info" "input_devs boot_info"
  "input_cnt boot_info = int (length (dev_array (boot_hal ns)))"
  "dev_array (boot_hal ns) \<noteq> []" "dev_array (boot_hal ns) = dev_array (boot_hal ns) @ []"
  "fds (boot_hal ns) (- 1) = None" "(1 :: nat) < 2"
  by (simp_all add: boot_info_def demo_info_def std_fds_def)

theorem common_power_init_correct_witness:
  "pokers (exec (common_power_init cm_hints 2) (boot_hal (table_node # other_nodes)))
     = [pushEvent 0 (boot_boost 1326000) new_poker]"
proof -
  let ?ns = "table_node # other_nodes"
  have "map_of ?ns idle_top_freq = map_of other_nodes idle_top_freq"
    "map_of ?ns SYS_NODE_CPU0_MAX_FREQ = map_of other_nodes SYS_NODE_CPU0_MAX_FREQ"
    by (simp_all add: table_node_def idle_top_freq_def SYS_NODE_CPU0_MAX_FREQ_def scaling_available_frequencies_def)
  note t = other_nodes_texts [OF this]
  note r = reads_as_listing [OF boot_table]
  from common_power_init_correct [OF boot_facts(1-5) boot_inputs boot_facts(7) r
      butlast_tokens_freq_listing(2) t boot_facts(6) refl, of cm_hints]
  show ?thesis by (simp add: butlast_tokens_freq_listing(1))
qed

text \<open>
  C30. Without the frequency node the text of the error is taken for the table: its words but the
  last count as four frequencies of 0, and the boot request is for a floor of 0.
\<close>

theorem missing_frequency_table:
  assumes "pInfo s = Some p" "input_devs p" "input_cnt p = int (length ds)" "ds \<noteq> []"
      "dev_array s = ds @ rest"
    and "\<forall>j<n. accessible s (input_name_path (int j)) F_OK"
      "\<not> accessible s (input_name_path (int n)) F_OK" "n < fuel"
    and "nodes s scaling_available_frequencies = None" "strerr s ENOENT = ''No such file or directory''"
      "node_text s idle_top_freq 256 = Some (show_int lp @ [NL])"
      "node_text s SYS_NODE_CPU0_MAX_FREQ 256 = Some (show_int mx @ [NL])"
    and "fds s (- 1) = None"
  shows "available_frequencies (info (exec (common_power_init H fuel) s)) = [0, 0, 0, 0]
    \<and> pokers (exec (common_power_init H fuel) s)
        = pokers s @ [pushEvent (now s) (boot_boost 0) new_poker]"
proof -
  have T: "tokens ''No such file or directory'' = [''No'', ''such'', ''file'', ''or'', ''directory'']"
    using tokens_concrete(1) [of "''No''" "''such file or directory''"] tokens_concrete(1) [of "''such''" "''file or directory''"]
      tokens_concrete(1) [of "''file''" "''or directory''"] tokens_concrete(1) [of "''or''" "''directory''"]
      tokens_concrete(2) [of "''directory''"]
    by (simp add: blank_def)
  have fs: "[0, 0, 0, 0] = map atoi (butlast (tokens ''No such file or directory''))"
    by (simp add: T atoi_def is_space_def is_digit_def char_code_def)
  have r: "reads_as s scaling_available_frequencies ''No such file or directory''"
    using assms(9,10) by (simp add: reads_as_def)
  have "tokens ''No such file or directory'' \<noteq> []" by (simp add: T)
  from common_power_init_effect [OF assms(1-8) r this assms(11-13) fs, of H] show ?thesis by simp
qed

theorem missing_frequency_table_witness:
  "available_frequencies (info (exec (common_power_init cm_hints 2) (boot_hal other_nodes))) = [0, 0, 0, 0]"
proof -
  have n: "nodes (boot_hal other_nodes) scaling_available_frequencies = None"
    "strerr (boot_hal other_nodes) ENOENT = ''No such file or directory''"
    by (simp_all add: other_nodes_def scaling_available_frequencies_def idle_top_freq_def SYS_NODE_CPU0_MAX_FREQ_def)
  have i: "\<forall>j<1. accessible (boot_hal other_nodes) (input_name_path (int j)) F_OK"
    "\<not> accessible (boot_hal other_nodes) (input_name_path (int 1)) F_OK"
    by (rule boot_inputs, simp)+
  show ?thesis
    by (rule missing_frequency_table [OF boot_facts(1-5) i boot_facts(7) n other_nodes_texts [OF refl refl]
        boot_facts(6), THEN conjunct1])
qed

section \<open>The input devices\<close>

text \<open>
  C27. The search for the input devices ends, whatever the nodes hold, as soon as the bound exceeds the
  number of the first missing node; each device that had no number then has that of the first
  node whose name begins like its own, other devices are as they were, and stopping early once
  all are found loses nothing.
\<close>

theorem find_input_device_ids_correct:
  assumes "input_cnt (info s) = int (length ds)" and "dev_array s = ds @ rest"
    and "\<forall>j<n. accessible s (input_name_path (int j)) F_OK"
    and "\<not> accessible s (input_name_path (int n)) F_OK" and "n < fuel"
  shows "result (find_input_device_ids fuel) s = Some ()
    \<and> (\<exists>e. exec (find_input_device_ids fuel) s = s\<lparr>errno := e, dev_array := map (located s n) ds @ rest\<rparr>)
    \<and> (d \<in> set ds \<and> dev_id d = - 1 \<longrightarrow>
        (dev_id (located s n d) = int i \<longleftrightarrow> i < n \<and> fits s d i \<and> (\<forall>j<i. \<not> fits s d j))
        \<and> (dev_id (located s n d) = - 1 \<longleftrightarrow> (\<forall>j<n. \<not> fits s d j)))"
proof -
  have "find (fits s d) [0..<n] = Some i \<longleftrightarrow> i < n \<and> fits s d i \<and> (\<forall>j<i. \<not> fits s d j)"
    by (auto simp: find_Some_iff)
  moreover have "find (fits s d) [0..<n] = None \<longleftrightarrow> (\<forall>j<n. \<not> fits s d j)"
    by (auto simp: find_None_iff)
  ultimately show ?thesis
    using find_input_device_ids_effect [OF assms]
    by (auto simp: located_def split: option.split)
qed

theorem find_input_device_ids_correct_witness:
  "map dev_id (dev_array (exec (find_input_device_ids 2) (boot_hal other_nodes))) = [0]"
proof -
  let ?s = "boot_hal other_nodes" and ?d = "\<lparr>dev_id = - 1, dev_name = ''touch'' @ [NL]\<rparr>"
  have i: "\<forall>j<1. accessible ?s (input_name_path (int j)) F_OK"
    "\<not> accessible ?s (input_name_path (int 1)) F_OK"
    by (rule boot_inputs, simp)+
  have c: "input_cnt (info ?s) = int (length [?d])" "dev_array ?s = [?d] @ []" "(1 :: nat) < 2"
    by (simp_all add: info_def boot_info_def demo_info_def)
  have "node_text ?s (input_name_path (int 0)) MAX_CHARS = Some (''touch'' @ [NL])"
    using node_text_boot [of other_nodes "input_name_path 0" "''touch'' @ [NL]" MAX_CHARS]
    by (simp add: other_nodes_def input_paths MAX_CHARS_def)
  then have "fits ?s ?d 0"
    using sysfs_read_result [of ?s "input_name_path (int 0)" MAX_CHARS "''touch'' @ [NL]" "zeros MAX_CHARS"]
    by (simp add: fits_def name_at_def strncmp_eq_def store_def zeros_def MAX_CHARS_def eval_nat_numeral)
  then have "dev_id (located ?s 1 ?d) = 0"
    using find_input_device_ids_correct [OF c(1,2) i c(3), of ?d 0] by simp
  moreover obtain e where "exec (find_input_device_ids 2) ?s = ?s\<lparr>errno := e, dev_array := [located ?s 1 ?d]\<rparr>"
    using find_input_device_ids_correct [OF c(1,2) i c(3), of ?d 0] by auto
  ultimately show ?thesis by simp
qed

end
