(* ===== verification/Nv_Power_Modes.thy ===== *)
theory Nv_Power_Modes
  imports Nv_Power_Requests Nv_Power_Open
begin

text \<open>
  Switching between interactive and idle: which nodes are offered which values, in which order, in
  each of the three builds, and where the T210 build leaves its table of modes.
\<close>

section \<open>The input devices\<close>

text \<open>States that differ from \<open>s\<close> in the log and \<open>errno\<close> only, which is all these routines change.\<close>

definition logged :: "hal \<Rightarrow> (string \<times> string) list \<Rightarrow> hal \<Rightarrow> bool" where
  "logged s w t \<longleftrightarrow> (\<exists>e. t = s\<lparr>wlog := wlog s @ w, errno := e\<rparr>)"

lemma logged_fields:
  assumes "logged s w t"
  shows "wlog t = wlog s @ w" and "fds t = fds s" and "pInfo t = pInfo s" and "dev_array t = dev_array s"
    and "undef t = undef s" and "pokers t = pokers s" and "props t = props s"
    and "accepted t = accepted s" and "accessible t = accessible s" and "now t = now s"
  using assms by (auto simp: logged_def fun_eq_iff accessible_def)

lemma logged_refl: "logged s [] s"
proof -
  have "s = s\<lparr>wlog := wlog s @ [], errno := errno s\<rparr>" by simp
  then show ?thesis unfolding logged_def by blast
qed

lemma logged_trans: "logged s w t \<Longrightarrow> logged t v u \<Longrightarrow> logged s (w @ v) u"
  by (auto simp: logged_def)

lemma logged_write: "logged s (accepted s O_WRONLY (p, d)) (exec (sysfs_write p d) s)"
  using sw.wr_effect [of s p d] by (auto simp: logged_def same_but_errno_def)

lemma logged_write_seq: "logged s (concat (map (accepted s O_WRONLY) ps)) (exec (write_seq sysfs_write ps) s)"
  using sw.write_seq_effect [of s ps] by (auto simp: logged_def same_but_errno_def)

definition device_number :: "hal \<Rightarrow> nat \<Rightarrow> int option" where
  "device_number s i =
     (if \<not> input_devs (info s) then Some (int i)
      else if dev_id (dev_array s ! i) = - 1 then None else Some (dev_id (dev_array s ! i)))"

definition device_writes :: "hal \<Rightarrow> string \<Rightarrow> nat \<Rightarrow> (string \<times> string) list" where
  "device_writes s st i = (case device_number s i of
       None \<Rightarrow> []
     | Some d \<Rightarrow> if accessible s (input_enabled_path d) W_OK
                 then accepted s O_WRONLY (input_enabled_path d, st) else [])"

lemma device_writes_logged: "logged s w t \<Longrightarrow> device_writes t = device_writes s"
  using logged_fields [of s w t]
  by (auto simp: fun_eq_iff device_writes_def device_number_def info_def split: option.split)

lemma logged_enable_input:
  "logged s (if accessible s (input_enabled_path d) W_OK
             then accepted s O_WRONLY (input_enabled_path d, st) else []) (exec (enable_input st d) s)"
proof -
  obtain e where e: "exec (k_access (input_enabled_path d) W_OK) s = s\<lparr>errno := e\<rparr>"
    using exec_k_access [of s "input_enabled_path d" W_OK] by (auto simp: same_but_errno_def)
  have "logged s [] (s\<lparr>errno := e\<rparr>)" by (auto simp: logged_def)
  then show ?thesis
    using logged_trans [OF _ logged_write [of "s\<lparr>errno := e\<rparr>" "input_enabled_path d" st]]
    by (fastforce simp: enable_input_def e)
qed

lemma logged_enable_device:
  assumes "input_devs (info s) \<longrightarrow> i < length (dev_array s)"
  shows "logged s (device_writes s st i) (exec (enable_device st i) s)"
  using assms logged_enable_input [of s _ st] logged_refl [of s]
  by (auto simp: enable_device_def device_writes_def device_number_def)

lemma logged_enable_devices:
  "\<forall>i \<in> set is. input_devs (info s) \<longrightarrow> i < length (dev_array s) \<Longrightarrow>
   logged s (concat (map (device_writes s st) is)) (exec (for_each is (enable_device st)) s)"
proof (induction "is" arbitrary: s)
  case (Cons i is')
  let ?t = "exec (enable_device st i) s"
  have 1: "logged s (device_writes s st i) ?t" using Cons.prems by (intro logged_enable_device) simp
  note f = logged_fields [OF 1]
  have "logged ?t (concat (map (device_writes ?t st) is')) (exec (for_each is' (enable_device st)) ?t)"
    using Cons.prems f by (intro Cons.IH) (simp add: info_def)
  then show ?case using logged_trans [OF 1] device_writes_logged [OF 1] by simp
qed (simp add: logged_refl)

section \<open>The builds without power modes\<close>

text \<open>The two settings of the K1 build, node by node: a slow core on its own, and four ready to run.\<close>

definition k1_idle :: "(string \<times> string) list" where
  "k1_idle = [
     (''/sys/devices/system/cpu/cpu0/cpufreq/scaling_min_freq'', ''51000''),
     (''/sys/devices/system/cpu/cpufreq/interactive/above_hispeed_delay'', ''80000''),
     (''/sys/devices/system/cpu/cpufreq/interactive/go_hispeed_load'', ''45''),
     (''/sys/devices/system/cpu/cpufreq/interactive/hispeed_freq'', ''696000''),
     (''/sys/devices/system/cpu/cpufreq/interactive/io_is_busy'', ''0''),
     (''/sys/devices/system/cpu/cpufreq/interactive/min_sample_time'', ''80000''),
     (''/sys/devices/system/cpu/cpufreq/interactive/target_loads'', ''95''),
     (''/sys/devices/system/cpu/cpufreq/interactive/timer_rate'', ''150000''),
     (''/sys/devices/system/cpu/cpufreq/interactive/timer_slack'', ''80000''),
     (''/sys/kernel/debug/clock/override.c2bus/state'', ''0''),
     (''/sys/module/autosmp/parameters/enabled'', ''N''),
     (''/sys/devices/system/cpu/cpu1/online'', ''0''),
     (''/sys/devices/system/cpu/cpu2/online'', ''0''),
     (''/sys/devices/system/cpu/cpu3/online'', ''0''),
     (''/sys/kernel/cluster/active'', ''LP'')]"

definition k1_interactive :: "(string \<times> string) list" where
  "k1_interactive = [
     (''/sys/devices/system/cpu/cpu0/cpufreq/scaling_min_freq'', ''306000''),
     (''/sys/devices/system/cpu/cpufreq/interactive/above_hispeed_delay'', ''15000''),
     (''/sys/devices/system/cpu/cpufreq/interactive/go_hispeed_load'', ''0''),
     (''/sys/devices/system/cpu/cpufreq/interactive/hispeed_freq'', ''306000''),
     (''/sys/devices/system/cpu/cpufreq/interactive/io_is_busy'', ''1''),
     (''/sys/devices/system/cpu/cpufreq/interactive/min_sample_time'', ''60000''),
     (''/sys/devices/system/cpu/cpufreq/interactive/target_loads'', ''65 1224000:99''),
     (''/sys/devices/system/cpu/cpufreq/interactive/timer_rate'', ''15000''),
     (''/sys/devices/system/cpu/cpufreq/interactive/timer_slack'', ''60000''),
     (''/sys/kernel/debug/clock/override.c2bus/state'', ''1''),
     (''/sys/module/autosmp/parameters/enabled'', ''Y''),
     (''/sys/devices/system/cpu/cpu1/online'', ''1''),
     (''/sys/devices/system/cpu/cpu2/online'', ''1''),
     (''/sys/devices/system/cpu/cpu3/online'', ''1''),
     (''/sys/kernel/cluster/active'', [])]"

definition mode_writes :: "build \<Rightarrow> int \<Rightarrow> (string \<times> string) list" where
  "mode_writes B on =
     (if B = Legacy then [(''/sys/devices/system/cpu/cpu0/cpufreq/scaling_governor'',
        if on = 0 then ''conservative'' else ''interactive'')]
      else if on = 0 then k1_idle else k1_interactive)"

lemma k1_writes_tables: "k1_writes on = (if on = 0 then k1_idle else k1_interactive)"
  by (simp add: k1_writes_def k1_idle_def k1_interactive_def)

definition sclk_write :: "int \<Rightarrow> string \<times> string" where
  "sclk_write on = (''/sys/devices/platform/host1x/nvavp/boost_sclk'', if on = 0 then ''0'' else ''1'')"

definition input_writes :: "hal \<Rightarrow> int \<Rightarrow> (string \<times> string) list" where
  "input_writes s on = (case pInfo s of
       None \<Rightarrow> []
     | Some p \<Rightarrow> concat (map (device_writes s (if on = 0 then ''0'' else ''1'')) [0..<nat (input_cnt p)]))"

definition devices_ok :: "hal \<Rightarrow> bool" where
  "devices_ok s \<longleftrightarrow> (case pInfo s of
       None \<Rightarrow> True
     | Some p \<Rightarrow> input_devs p \<longrightarrow> input_cnt p \<le> int (length (dev_array s)))"

text \<open>The part that all builds share.\<close>

definition interactive_head :: "int \<Rightarrow> (hal, unit) state" where
  "interactive_head on = do {
     let st = (if on = 0 then ''0'' else ''1'');
     sysfs_write ''/sys/devices/platform/host1x/nvavp/boost_sclk'' st;
     p \<leftarrow> gets pInfo;
     (case p of
        None \<Rightarrow> ret ()
      | Some p \<Rightarrow> for_each [0..<nat (input_cnt p)] (enable_device st))
   }"

lemma logged_head:
  assumes "devices_ok s"
  shows "logged s (accepted s O_WRONLY (sclk_write on) @ input_writes s on) (exec (interactive_head on) s)"
proof -
  let ?st = "if on = 0 then ''0'' else ''1''"
  let ?t = "exec (sysfs_write (fst (sclk_write on)) (snd (sclk_write on))) s"
  have 1: "logged s (accepted s O_WRONLY (sclk_write on)) ?t"
    using logged_write [of s "fst (sclk_write on)" "snd (sclk_write on)"] by simp
  note f = logged_fields [OF 1]
  have h: "exec (interactive_head on) s = exec (case pInfo s of None \<Rightarrow> ret ()
      | Some p \<Rightarrow> for_each [0..<nat (input_cnt p)] (enable_device ?st)) ?t"
    using f(3) by (simp add: interactive_head_def Let_def sclk_write_def split: option.split)
  show ?thesis
  proof (cases "pInfo s")
    case None
    then show ?thesis using 1 h by (simp add: input_writes_def)
  next
    case (Some p)
    have "logged ?t (concat (map (device_writes ?t ?st) [0..<nat (input_cnt p)]))
        (exec (for_each [0..<nat (input_cnt p)] (enable_device ?st)) ?t)"
      using assms Some f by (intro logged_enable_devices) (auto simp: devices_ok_def info_def)
    then show ?thesis
      using logged_trans [OF 1] device_writes_logged [OF 1] Some h by (simp add: input_writes_def)
  qed
qed

lemma set_interactive_split:
  "exec (common_power_set_interactive B on) s = exec (case B of
        T210 \<Rightarrow> do { mode \<leftarrow> t210_mode on; set_interactive_governor mode }
      | Legacy \<Rightarrow> sysfs_write ''/sys/devices/system/cpu/cpu0/cpufreq/scaling_governor''
          (if on = 0 then ''conservative'' else ''interactive'')
      | K1 \<Rightarrow> write_seq sysfs_write (k1_writes on)) (exec (interactive_head on) s)"
  by (simp add: common_power_set_interactive_def interactive_head_def Let_def split: option.split)

lemma logged_set_interactive:
  assumes "devices_ok s" and "B \<noteq> T210"
  shows "logged s (accepted s O_WRONLY (sclk_write on) @ input_writes s on
       @ concat (map (accepted s O_WRONLY) (mode_writes B on))) (exec (common_power_set_interactive B on) s)"
proof -
  let ?t = "exec (interactive_head on) s"
  have 1: "logged s (accepted s O_WRONLY (sclk_write on) @ input_writes s on) ?t"
    by (rule logged_head [OF assms(1)])
  have "logged ?t (concat (map (accepted ?t O_WRONLY) (mode_writes B on))) (exec (common_power_set_interactive B on) s)"
    using assms(2) logged_write_seq [of ?t "k1_writes on"] logged_write [of ?t]
    by (cases B) (simp_all add: set_interactive_split mode_writes_def flip: k1_writes_tables)
  then show ?thesis using logged_trans [OF 1] logged_fields(8) [OF 1] by simp
qed

text \<open>
  C26. On the Tegra K1 and the legacy build, going interactive or idle offers the clock boost, then the
  \<open>enabled\<close> node of each known and accessible input device, then the nodes of the governor and
  the cores, each its value in the table of the new state and all in this order; a node that is missing or
  refuses does not keep the others from being written.  Nothing else in the process changes.
\<close>

theorem common_power_set_interactive_effect:
  assumes "devices_ok s" and "B \<noteq> T210"
  shows "\<exists>e. exec (common_power_set_interactive B on) s = s\<lparr>
     wlog := wlog s @ accepted s O_WRONLY (sclk_write on) @ input_writes s on
       @ concat (map (accepted s O_WRONLY) (mode_writes B on)),
     errno := e\<rparr>"
  using logged_set_interactive [OF assms] by (simp add: logged_def)

definition autosmp :: string where
  "autosmp = ''/sys/module/autosmp/parameters/enabled''"

definition smp_hal :: hal where
  "smp_hal = demo_hal\<lparr>nodes := [autosmp \<mapsto> plain_node []]\<rparr>"

lemma smp_accepted:
  "accepted smp_hal O_WRONLY (p, d) = (if p = autosmp then [(p, d)] else [])"
  by (auto simp: accepted_def opened_def open_error_def free_fd_def fd_slots_def smp_hal_def demo_hal_def
      kernel.defs plain_kernel_def plain_node_def driver_write_def std_fds_def upt_rec split: if_splits)

theorem common_power_set_interactive_effect_witness:
  "wlog (exec (common_power_set_interactive K1 0) smp_hal) = [(autosmp, ''N'')]"
proof -
  have ok: "devices_ok smp_hal"
    by (simp add: devices_ok_def smp_hal_def set_intervals_def demo_info_def)
  have i: "input_writes smp_hal 0 = []"
    by (simp add: input_writes_def smp_hal_def set_intervals_def demo_info_def)
  have l: "wlog smp_hal = []" by (simp add: smp_hal_def demo_hal_def kernel.defs plain_kernel_def)
  obtain e where "exec (common_power_set_interactive K1 0) smp_hal = smp_hal\<lparr>
     wlog := wlog smp_hal @ accepted smp_hal O_WRONLY (sclk_write 0) @ input_writes smp_hal 0
       @ concat (map (accepted smp_hal O_WRONLY) (mode_writes K1 0)), errno := e\<rparr>"
    using common_power_set_interactive_effect [OF ok, of K1 0] by auto
  then show ?thesis
    by (simp add: i l smp_accepted sclk_write_def mode_writes_def k1_idle_def autosmp_def)
qed

section \<open>The T210 build\<close>

definition chosen_mode :: "hal \<Rightarrow> int" where
  "chosen_mode s =
     (let m = (if result (get_property_bool ''persist.sys.NV_ECO.STATE.ISECO'' False) s then 2
               else case props s ''persist.sys.NV_POWER_MODE'' of
                 None \<Rightarrow> - 1 | Some v \<Rightarrow> if v = [] then - 1 else atoi v)
      in if m < 0 \<or> 5 \<le> m then 0 else m)"

text \<open>The text of the mode property is a number that an \<open>int\<close> can hold.\<close>

definition mode_number_ok :: "hal \<Rightarrow> bool" where
  "mode_number_ok s \<longleftrightarrow> (case props s ''persist.sys.NV_POWER_MODE'' of
       None \<Rightarrow> True | Some v \<Rightarrow> v = [] \<or> int32 (atoi v))"

lemma mode_count_eq: "mode_count = 5"
  by (simp add: mode_count_def interactive_data_array_def)

lemma get_system_power_mode_effect [simp]:
  "exec get_system_power_mode s = s\<lparr>undef := undef s \<or> \<not> mode_number_ok s\<rparr>"
  by (auto simp: get_system_power_mode_def property_get_def mode_number_ok_def atoi_string_def split: option.split)

lemma get_property_bool_cong: "props t = props s \<Longrightarrow> result (get_property_bool k d) t = result (get_property_bool k d) s"
  by (simp add: get_property_bool_def property_get_def)

lemma t210_mode_result:
  "exec (t210_mode on) s = s\<lparr>undef := undef s \<or> on \<noteq> 0 \<and> \<not> mode_number_ok s\<rparr>"
  "result (t210_mode on) s = (if on = 0 then 5 else chosen_mode s)"
proof -
  have "result get_system_power_mode s = (if result (get_property_bool ''persist.sys.NV_ECO.STATE.ISECO'' False) s then 2
      else case props s ''persist.sys.NV_POWER_MODE'' of None \<Rightarrow> - 1 | Some v \<Rightarrow> if v = [] then - 1 else atoi v)"
    using get_property_bool_cong [of "s\<lparr>undef := u\<rparr>" s for u]
    by (auto simp: get_system_power_mode_def property_get_def atoi_string_def split: option.split)
  then show "exec (t210_mode on) s = s\<lparr>undef := undef s \<or> on \<noteq> 0 \<and> \<not> mode_number_ok s\<rparr>"
    and "result (t210_mode on) s = (if on = 0 then 5 else chosen_mode s)"
    by (auto simp: t210_mode_def chosen_mode_def Let_def mode_count_eq)
qed

lemma write_seq_data: "write_seq (\<lambda>f d. sysfs_write_data f (Some d)) ps = write_seq sysfs_write ps"
  by (induction ps) (auto simp: sysfs_write_data_def)

text \<open>
  C31. On the T210 build, going interactive always selects a row of the table: the economy mode forces
  row 2, a mode property in range selects its row, anything else row 0; the six governor values
  of that row are offered after the part that all builds share.  Going idle instead passes the
  number of rows as an index, which reads past the table.  Going interactive is undefined only when
  the mode property is a number that is not an \<open>int\<close>.
\<close>

theorem t210_set_interactive:
  assumes "devices_ok s"
  shows "(on \<noteq> 0 \<longrightarrow> 0 \<le> chosen_mode s \<and> chosen_mode s < int (length interactive_data_array)
      \<and> (\<exists>e. exec (common_power_set_interactive T210 on) s = s\<lparr>
          wlog := wlog s @ accepted s O_WRONLY (sclk_write on) @ input_writes s on
            @ concat (map (accepted s O_WRONLY) (governor_writes (interactive_data_array ! nat (chosen_mode s)))),
          errno := e, undef := undef s \<or> \<not> mode_number_ok s\<rparr>))
    \<and> (on = 0 \<longrightarrow> undef (exec (common_power_set_interactive T210 on) s))"
proof -
  let ?t = "exec (interactive_head on) s"
  have 1: "logged s (accepted s O_WRONLY (sclk_write on) @ input_writes s on) ?t"
    by (rule logged_head [OF assms])
  note f = logged_fields [OF 1]
  have c: "chosen_mode ?t = chosen_mode s" "mode_number_ok ?t = mode_number_ok s"
    using f(7) get_property_bool_cong [of ?t s] by (simp_all add: chosen_mode_def mode_number_ok_def)
  have r: "0 \<le> chosen_mode s \<and> chosen_mode s < 5" by (simp add: chosen_mode_def Let_def)
  let ?u = "?t\<lparr>undef := undef s \<or> on \<noteq> 0 \<and> \<not> mode_number_ok s\<rparr>"
  have e: "exec (common_power_set_interactive T210 on) s
      = exec (set_interactive_governor (if on = 0 then 5 else chosen_mode s)) ?u"
    by (simp add: set_interactive_split t210_mode_result c f(5))
  obtain e1 where "?t = s\<lparr>wlog := wlog s @ accepted s O_WRONLY (sclk_write on) @ input_writes s on, errno := e1\<rparr>"
    using 1 by (auto simp: logged_def)
  then have u: "?u = s\<lparr>wlog := wlog s @ accepted s O_WRONLY (sclk_write on) @ input_writes s on, errno := e1,
      undef := undef s \<or> on \<noteq> 0 \<and> \<not> mode_number_ok s\<rparr>" by (rule arg_cong)
  have idle: "undef (exec (set_interactive_governor 5) ?u)"
    by (simp add: set_interactive_governor_def mode_count_eq undefined_behaviour_def)
  have row: "exec (set_interactive_governor (chosen_mode s)) u
      = exec (write_seq sysfs_write (governor_writes (interactive_data_array ! nat (chosen_mode s)))) u" for u
    using r by (simp add: set_interactive_governor_def mode_count_eq write_seq_data)
  have "\<exists>e. exec (write_seq sysfs_write ps) ?u = s\<lparr>wlog := wlog s @ accepted s O_WRONLY (sclk_write on)
      @ input_writes s on @ concat (map (accepted s O_WRONLY) ps), errno := e,
      undef := undef s \<or> on \<noteq> 0 \<and> \<not> mode_number_ok s\<rparr>" for ps
    using logged_write_seq [of ?u ps] unfolding accepted_undef f(8) unfolding u logged_def
    by (elim exE) (rule exI, erule trans, cases s, simp)
  note writes = this
  have on: "on \<noteq> 0 \<Longrightarrow> \<exists>e. exec (common_power_set_interactive T210 on) s = s\<lparr>
      wlog := wlog s @ accepted s O_WRONLY (sclk_write on) @ input_writes s on
        @ concat (map (accepted s O_WRONLY) (governor_writes (interactive_data_array ! nat (chosen_mode s)))),
      errno := e, undef := undef s \<or> \<not> mode_number_ok s\<rparr>"
  proof -
    assume n: "on \<noteq> 0"
    then have "exec (common_power_set_interactive T210 on) s = exec (set_interactive_governor (chosen_mode s)) ?u"
      unfolding e by (simp only: if_False)
    then show ?thesis
      using writes [of "governor_writes (interactive_data_array ! nat (chosen_mode s))"] n
      by (simp only: row simp_thms)
  qed
  have off: "on = 0 \<Longrightarrow> undef (exec (common_power_set_interactive T210 on) s)"
    unfolding e using idle by simp
  have "int (length interactive_data_array) = 5" using mode_count_eq by (simp add: mode_count_def)
  then show ?thesis using r on off by presburger
qed

theorem t210_set_interactive_witness:
  "undef (exec (common_power_set_interactive T210 0) smp_hal)"
proof -
  have "devices_ok smp_hal"
    by (simp add: devices_ok_def smp_hal_def set_intervals_def demo_info_def)
  then show ?thesis using t210_set_interactive [of smp_hal 0] by simp
qed

text \<open>Setting a mode looks at the backlight first.\<close>

lemma mode_hint_effect:
  assumes "node_text s ''/sys/class/backlight/pwm-backlight/brightness'' 4 = Some (show_int b @ NL # r)"
    and "0 \<le> m" and "m < 5"
  shows "\<exists>e. exec (set_power_mode_hint m) s = s\<lparr>
     wlog := wlog s @ (if b = 0 then [] else concat (map (accepted s O_WRONLY)
       (governor_writes (interactive_data_array ! nat m)))), errno := e, undef := undef s \<or> \<not> int32 b\<rparr>"
proof -
  let ?path = "''/sys/class/backlight/pwm-backlight/brightness''" and ?w = "governor_writes (interactive_data_array ! nat m)"
  obtain e where e: "exec (sysfs_read ?path (zeros 4) 4) s = s\<lparr>errno := e\<rparr>" by (rule exec_sysfs_read)
  have v: "result (sysfs_read ?path (zeros 4) 4) s = show_int b @ NL # (r @ drop (Suc (length (show_int b) + length r)) (zeros 4))"
    using sysfs_read_result [OF assms(1), of "zeros 4"] by (simp add: store_def)
  let ?s = "s\<lparr>errno := e, undef := undef s \<or> \<not> int32 b\<rparr>"
  have "exec (set_power_mode_hint m) s = (if b = 0 then ?s else exec (write_seq sysfs_write ?w) ?s)"
    using assms(2,3) by (simp add: set_power_mode_hint_def mode_count_eq e v atoi_buf_number
        set_interactive_governor_def write_seq_data)
  moreover have "logged ?s (concat (map (accepted s O_WRONLY) ?w)) (exec (write_seq sysfs_write ?w) ?s)"
    using logged_write_seq [of ?s ?w] by simp
  ultimately have "logged ?s (if b = 0 then [] else concat (map (accepted s O_WRONLY) ?w)) (exec (set_power_mode_hint m) s)"
    using logged_refl [of ?s] by presburger
  then show ?thesis unfolding logged_def by (elim exE) (rule exI, erule trans, cases s, simp)
qed

text \<open>
  The low-power hint of the T210 build, let through by the rate limit, selects row 2 with data
  and row 0 without, and only while the backlight is on: when the brightness node holds 0 it
  writes nothing.
\<close>

theorem t210_low_power_hint:
  assumes "pInfo s = Some p" and "hints_ok H"
    and "result (check_hint H (POWER_HINT_LOW_POWER H)) s = Some t"
    and "node_text s ''/sys/class/backlight/pwm-backlight/brightness'' 4 = Some (show_int b @ NL # r)"
  shows "\<exists>e. exec (common_power_hint T210 H (POWER_HINT_LOW_POWER H) data) s = s\<lparr>
     wlog := wlog s @ (if b = 0 then [] else concat (map (accepted s O_WRONLY)
       (governor_writes (interactive_data_array ! (if data then 2 else 0))))),
     errno := e, undef := (undef s \<or> \<not> clock_defined (now s)) \<or> \<not> int32 b,
     pInfo := Some (p\<lparr>hint_time := (hint_time p)(POWER_HINT_LOW_POWER H := t)\<rparr>)\<rparr>"
proof -
  let ?h = "POWER_HINT_LOW_POWER H" and ?m = "if data then 2 else 0 :: int"
  let ?s = "s\<lparr>undef := undef s \<or> \<not> clock_defined (now s)\<rparr>"
  have h: "?h < MAX_POWER_HINT_COUNT H" using assms(2) by (simp add: hints_ok_def MAX_POWER_HINT_COUNT_def)
  have ne: "?h \<noteq> POWER_HINT_VSYNC H" "?h \<noteq> POWER_HINT_INTERACTION H" "?h \<noteq> POWER_HINT_CPU_BOOST H" "?h \<noteq> POWER_HINT_AUDIO H"
    using assms(2) by (auto simp: hints_ok_def)
  have m: "0 \<le> ?m" "?m < 5" "nat ?m = (if data then 2 else 0)" by simp_all
  have "node_text ?s ''/sys/class/backlight/pwm-backlight/brightness'' 4 = Some (show_int b @ NL # r)"
    using assms(4) by simp
  from mode_hint_effect [OF this m(1,2)] obtain e where e: "exec (set_power_mode_hint ?m) ?s = ?s\<lparr>
     wlog := wlog s @ (if b = 0 then [] else concat (map (accepted s O_WRONLY)
       (governor_writes (interactive_data_array ! (if data then 2 else 0))))), errno := e,
     undef := (undef s \<or> \<not> clock_defined (now s)) \<or> \<not> int32 b\<rparr>"
    unfolding m(3) accepted_undef by auto
  have "exec (common_power_hint T210 H ?h data) s = exec (note_hint H ?h t) (exec (set_power_mode_hint ?m) ?s)"
    using assms(1,3) ne h by (simp add: common_power_hint_def hint_actions_def hint_low_power_def)
  then show ?thesis unfolding e using note_hint_effect [OF h] assms(1) by (intro exI [of _ e]) simp
qed

definition bright_hal :: hal where
  "bright_hal = demo_hal\<lparr>nodes := [
     ''/sys/class/backlight/pwm-backlight/brightness'' \<mapsto> plain_node (''255'' @ [NL]),
     ''/sys/devices/system/cpu/cpufreq/interactive/hispeed_freq'' \<mapsto> plain_node []]\<rparr>"

theorem t210_low_power_hint_witness:
  "wlog (exec (common_power_hint T210 cm_hints 5 True) bright_hal)
     = [(''/sys/devices/system/cpu/cpufreq/interactive/hispeed_freq'', ''640000'')]"
proof -
  have o: "opened bright_hal p fl = (if p = ''/sys/class/backlight/pwm-backlight/brightness''
      \<or> p = ''/sys/devices/system/cpu/cpufreq/interactive/hispeed_freq'' then Some 3 else None)" for p fl
    by (auto simp: opened_def open_error_def free_fd_def fd_slots_def bright_hal_def demo_hal_def
        kernel.defs plain_kernel_def plain_node_def std_fds_def upt_rec)
  have a: "accepted bright_hal O_WRONLY (p, d)
      = (if p = ''/sys/devices/system/cpu/cpufreq/interactive/hispeed_freq'' then [(p, d)] else
         if p = ''/sys/class/backlight/pwm-backlight/brightness'' then [(p, d)] else [])" for p d
    by (simp add: accepted_def o driver_write_def) (simp add: bright_hal_def plain_node_def)
  have i: "pInfo bright_hal = Some (set_intervals cm_hints demo_info)" "wlog bright_hal = []" "now bright_hal = 0"
    by (simp_all add: bright_hal_def demo_hal_def kernel.defs plain_kernel_def)
  have n: "node_text bright_hal ''/sys/class/backlight/pwm-backlight/brightness'' 4 = Some (show_int 255 @ NL # [])"
    by (simp add: node_text_def o show_int_def show_nat.simps) (simp add: bright_hal_def plain_node_def)
  have c: "result (check_hint cm_hints (POWER_HINT_LOW_POWER cm_hints)) bright_hal = Some 0"
    by (simp add: check_hint_result MAX_POWER_HINT_COUNT_def cm_hints_def info_def i set_intervals_def
        demo_info_def usec_time_exact)
  have "POWER_HINT_LOW_POWER cm_hints = 5" by (simp add: cm_hints_def)
  then have "\<exists>e u q. exec (common_power_hint T210 cm_hints 5 True) bright_hal = bright_hal\<lparr>
     wlog := concat (map (accepted bright_hal O_WRONLY) (governor_writes (interactive_data_array ! 2))),
     errno := e, undef := u, pInfo := q\<rparr>"
    using t210_low_power_hint [OF i(1) cm_hints_ok c n, of True] by (simp add: i(2)) blast
  then obtain e u q where e: "exec (common_power_hint T210 cm_hints 5 True) bright_hal = bright_hal\<lparr>
     wlog := concat (map (accepted bright_hal O_WRONLY) (governor_writes (interactive_data_array ! 2))),
     errno := e, undef := u, pInfo := q\<rparr>"
    by blast
  show ?thesis unfolding e by (simp add: governor_writes_def interactive_data_array_def a)
qed

end
