(* ===== verification/Hal_Contracts.thy ===== *)
theory Hal_Contracts
  imports Nv_Power_Boot Nv_Power_Modes
begin

text \<open>
  Contracts for the routines of the power HAL: triples of a precondition, a routine and a
  postcondition on its result and final state, with one rule per construct of the source.  What the
  other theories prove of the routines holds on a device that answers; a contract holds whatever
  the nodes contain.
\<close>

section \<open>Triples\<close>

definition triple :: "('s \<Rightarrow> bool) \<Rightarrow> ('s, 'a) state \<Rightarrow> ('a \<Rightarrow> 's \<Rightarrow> bool) \<Rightarrow> bool" where
  "triple P m Q \<longleftrightarrow> (\<forall>s. P s \<longrightarrow> Q (result m s) (exec m s))"

abbreviation keeps :: "('s \<Rightarrow> bool) \<Rightarrow> ('s, 'a) state \<Rightarrow> bool" where
  "keeps P m \<equiv> triple P m (\<lambda>_. P)"

lemma tripleD: "triple P m Q \<Longrightarrow> P s \<Longrightarrow> Q (result m s) (exec m s)"
  by (simp add: triple_def)

lemma triple_ret: "(\<And>s. P s \<Longrightarrow> Q x s) \<Longrightarrow> triple P (ret x) Q"
  by (simp add: triple_def)

lemma triple_bind: "triple P m R \<Longrightarrow> (\<And>x. triple (R x) (f x) Q) \<Longrightarrow> triple P (m \<bind> f) Q"
  by (simp add: triple_def)

text \<open>The common case of a sequence: the first routine keeps the precondition.\<close>

lemma triple_seq: "keeps P m \<Longrightarrow> (\<And>x. triple P (f x) Q) \<Longrightarrow> triple P (m \<bind> f) Q"
  by (rule triple_bind)

lemma triple_gets: "(\<And>s. P s \<Longrightarrow> Q (f s) s) \<Longrightarrow> triple P (gets f) Q"
  by (simp add: triple_def)

lemma triple_modify: "(\<And>s. P s \<Longrightarrow> Q () (f s)) \<Longrightarrow> triple P (modify f) Q"
  by (simp add: triple_def)

lemma triple_if: "(b \<Longrightarrow> triple P m Q) \<Longrightarrow> (\<not> b \<Longrightarrow> triple P m' Q) \<Longrightarrow> triple P (if b then m else m') Q"
  by simp

lemma triple_case_option:
  "(x = None \<Longrightarrow> triple P m Q) \<Longrightarrow> (\<And>y. x = Some y \<Longrightarrow> triple P (f y) Q) \<Longrightarrow>
   triple P (case x of None \<Rightarrow> m | Some y \<Rightarrow> f y) Q"
  by (cases x) simp_all

lemma triple_case_prod: "(\<And>a b. x = (a, b) \<Longrightarrow> triple P (f a b) Q) \<Longrightarrow> triple P (case x of (a, b) \<Rightarrow> f a b) Q"
  by (cases x) simp

lemma triple_conseq: "triple P m Q \<Longrightarrow> (\<And>s. P' s \<Longrightarrow> P s) \<Longrightarrow> (\<And>x s. Q x s \<Longrightarrow> Q' x s) \<Longrightarrow> triple P' m Q'"
  by (simp add: triple_def)

lemma triple_for_each: "(\<And>x. x \<in> set xs \<Longrightarrow> keeps P (f x)) \<Longrightarrow> keeps P (for_each xs f)"
  by (induction xs) (auto intro: triple_ret triple_seq)

lemma triple_write_seq: "(\<And>p d. keeps P (wr p d)) \<Longrightarrow> keeps P (write_seq wr ps)"
proof (induction ps)
  case (Cons x ps)
  then show ?case by (cases x) (auto intro: triple_seq)
qed (auto intro: triple_ret)

lemmas triple_intros = triple_ret triple_gets triple_if triple_case_option triple_case_prod

section \<open>Routines that leave the HAL's own data alone\<close>

text \<open>
  A predicate that does not look at the log or at \<open>errno\<close>, and that survives undefined behaviour, is
  kept by every routine that only reads and writes nodes.
\<close>

locale quiet_invariant =
  fixes P :: "hal \<Rightarrow> bool"
  assumes quiet_errno: "P s \<Longrightarrow> P (s\<lparr>errno := e\<rparr>)"
    and quiet_wlog: "P s \<Longrightarrow> P (s\<lparr>wlog := l\<rparr>)"
    and quiet_undef: "P s \<Longrightarrow> P (s\<lparr>undef := True\<rparr>)"
    and no_minus_one: "P s \<Longrightarrow> fds s (- 1) = None"
begin

lemma same_errno: "same_but_errno s t \<Longrightarrow> P s \<Longrightarrow> P t"
  by (auto simp: same_but_errno_def intro: quiet_errno)

lemma keeps_sysfs_write: "keeps P (sysfs_write p d)"
  unfolding triple_def using sw.wr_effect same_errno quiet_wlog by blast

lemma keeps_sysfs_read: "keeps P (sysfs_read p buf n)"
  unfolding triple_def using sysfs_read_effect same_errno by blast

lemma keeps_sysfs_exists: "keeps P (sysfs_exists p)"
  unfolding triple_def using sysfs_exists_effect(1) no_minus_one same_errno by blast

lemma keeps_k_access: "keeps P (k_access p m)"
  unfolding triple_def using exec_k_access same_errno by blast

lemma keeps_undefined: "keeps P undefined_behaviour"
  unfolding undefined_behaviour_def by (rule triple_modify) (rule quiet_undef)

lemma quiet_or: "P s \<Longrightarrow> P (s\<lparr>undef := undef s \<or> b\<rparr>)"
proof (cases "undef s \<or> b")
  case True
  then have "s\<lparr>undef := undef s \<or> b\<rparr> = s\<lparr>undef := True\<rparr>" by simp
  then show "P s \<Longrightarrow> P (s\<lparr>undef := undef s \<or> b\<rparr>)" by (simp only: quiet_undef)
qed (simp add: undef_same)

lemma keeps_require: "keeps P (require c)"
  by (simp add: triple_def quiet_or)

lemma keeps_property: "keeps P (get_property_bool k d)" "keeps P (property_get k d')"
  by (simp_all add: triple_def property_get_def)

lemmas keeps_kernel = keeps_sysfs_write keeps_sysfs_read keeps_sysfs_exists keeps_k_access
  keeps_undefined keeps_require keeps_property

lemmas keeps_intros = triple_seq triple_intros keeps_kernel

lemma keeps_atoi_buf: "keeps P (atoi_buf b)"
  unfolding atoi_buf_def atoi_string_def by (intro keeps_intros)

lemma keeps_strtok_buf: "keeps P (strtok_buf b)"
  unfolding strtok_buf_def by (auto intro!: keeps_intros split: option.split prod.split)

lemma keeps_frequency_at: "keeps P (frequency_at i)"
  unfolding frequency_at_def by (intro keeps_intros)

lemma keeps_governor: "keeps P (set_interactive_governor mode)"
  unfolding set_interactive_governor_def write_seq_data
  by (intro triple_if triple_write_seq keeps_kernel)

lemma keeps_mode_hint: "keeps P (set_power_mode_hint mode)"
  unfolding set_power_mode_hint_def
  by (intro keeps_intros keeps_atoi_buf keeps_governor)

lemma keeps_enable_device: "keeps P (enable_device st i)"
  unfolding enable_device_def enable_input_def by (intro keeps_intros)

lemma keeps_set_interactive: "keeps P (common_power_set_interactive B on)"
proof -
  have m: "keeps P (t210_mode on)" by (simp add: triple_def t210_mode_result quiet_or)
  have b: "keeps P (case B of T210 \<Rightarrow> t210_mode on \<bind> set_interactive_governor
      | Legacy \<Rightarrow> sysfs_write p d | K1 \<Rightarrow> write_seq sysfs_write ws)" for p d ws
    by (cases B) (auto intro: triple_seq m keeps_governor keeps_kernel triple_write_seq)
  show ?thesis
    unfolding common_power_set_interactive_def Let_def
    by (intro triple_seq triple_intros triple_for_each keeps_kernel keeps_enable_device b)
qed

end

end
