(* ===== verification/Shield_Power.thy ===== *)
theory Shield_Power
  imports Nv_Power_Boot Nv_Power_Modes Tegra_Sata
begin

text \<open>
  \<open>power/power.cpp\<close>: the power module that is built for the device.  It owns the pointer \<open>pInfo\<close>
  and the array of input devices, and hands every call on to the common power HAL; where the SATA
  stand-by is built in, it also parks the disk when the display goes off.  The name of the module
  id comes from Android's headers and is the argument \<open>module_id\<close>.
\<close>

section \<open>The module\<close>

definition HDD_STANDBY_TIMEOUT :: int where "HDD_STANDBY_TIMEOUT = 60"
definition FOSTER_E_HDD :: string where "FOSTER_E_HDD = ''/dev/block/sda''"

text \<open>The static array \<open>input_devs\<close> at the start of the process.\<close>

definition shield_input_devs :: "input_dev_map list" where
  "shield_input_devs = [
     \<lparr>dev_id = - 1, dev_name = ''raydium_ts'' @ [NL]\<rparr>,
     \<lparr>dev_id = - 1, dev_name = ''touch'' @ [NL]\<rparr>,
     \<lparr>dev_id = - 1, dev_name = ''touch_fusion'' @ [NL]\<rparr>]"

text \<open>
  \<open>malloc\<close> gives memory with any contents: the argument \<open>garbage\<close>.  \<open>calloc\<close> gives zeros.
\<close>

definition zero_info :: powerhal_info where
  "zero_info = \<lparr>mTimeoutPoker = None, available_frequencies = [], num_available_frequencies = 0,
     lp_max_frequency = 0, interaction_boost_frequency = 0, animation_boost_frequency = 0,
     cpu0_max_frequency = 0, ftrace_enable = False, input_cnt = 0, input_devs = False,
     hint_time = (\<lambda>_. 0), hint_interval = (\<lambda>_. 0), features_fan = False\<rparr>"

definition shield_power_init :: "powerhal_info \<Rightarrow> power_hints \<Rightarrow> nat \<Rightarrow> (hal, unit option) state" where
  "shield_power_init garbage H fuel = do {
     p \<leftarrow> gets pInfo;
     (if p = None then modify (\<lambda>s. s\<lparr>pInfo := Some garbage\<rparr>) else ret ());
     set_info (\<lambda>p. p\<lparr>input_devs := True\<rparr>);
     set_info (\<lambda>p. p\<lparr>input_cnt := int (length shield_input_devs)\<rparr>);
     common_power_init H fuel
   }"

definition shield_power_set_interactive :: "build \<Rightarrow> bool \<Rightarrow> int \<Rightarrow> (hal, unit) state" where
  "shield_power_set_interactive B sata on = do {
     common_power_set_interactive B on;
     if sata then do {
       r \<leftarrow> k_access FOSTER_E_HDD F_OK;
       if r = 0 then do {
         _ \<leftarrow> (if on \<noteq> 0 then hdd_disable_standby_timer else hdd_set_standby_timer HDD_STANDBY_TIMEOUT);
         ret () }
       else ret () }
     else ret ()
   }"

definition shield_power_hint :: "build \<Rightarrow> power_hints \<Rightarrow> nat \<Rightarrow> bool \<Rightarrow> (hal, unit) state" where
  "shield_power_hint B H hint data = common_power_hint B H hint data"

definition shield_power_open :: "string \<Rightarrow> string \<Rightarrow> power_hints \<Rightarrow> nat \<Rightarrow> (hal, int option) state" where
  "shield_power_open module_id name H fuel =
     (if name \<noteq> module_id then ret (Some (- EINVAL))
      else do {
        p \<leftarrow> gets pInfo;
        if p = None then do {
          modify (\<lambda>s. s\<lparr>pInfo := Some zero_info\<rparr>);
          r \<leftarrow> common_power_open H fuel;
          case r of None \<Rightarrow> ret None | Some _ \<Rightarrow> ret (Some 0) }
        else ret (Some 0) })"

text \<open>Only the log tells the features apart.\<close>

definition shield_set_feature :: "int \<Rightarrow> int \<Rightarrow> (hal, unit) state" where
  "shield_set_feature feature st = ret ()"

section \<open>Opening and initialising\<close>

text \<open>
  A device that answers as the kernel prints: \<open>n\<close> input nodes, the frequencies \<open>fs\<close> in the table,
  the low-power maximum \<open>lp\<close> and the maximum \<open>mx\<close>.
\<close>

definition device_ready :: "hal \<Rightarrow> nat \<Rightarrow> int list \<Rightarrow> int \<Rightarrow> int \<Rightarrow> bool" where
  "device_ready s n fs lp mx \<longleftrightarrow>
     (\<forall>j<n. accessible s (input_name_path (int j)) F_OK) \<and> \<not> accessible s (input_name_path (int n)) F_OK
     \<and> node_text s scaling_available_frequencies 256 = Some (freq_listing fs)
     \<and> length (freq_listing fs) < 256 \<and> fs \<noteq> []
     \<and> node_text s idle_top_freq 256 = Some (show_int lp @ [NL])
     \<and> node_text s SYS_NODE_CPU0_MAX_FREQ 256 = Some (show_int mx @ [NL])
     \<and> fds s (- 1) = None"

lemma device_ready_hal [simp]:
  "device_ready (s\<lparr>errno := e\<rparr>) = device_ready s" "device_ready (s\<lparr>pInfo := x\<rparr>) = device_ready s"
  "device_ready (s\<lparr>pokers := w\<rparr>) = device_ready s" "device_ready (s\<lparr>uC_input_number := z\<rparr>) = device_ready s"
  "device_ready (s\<lparr>undef := u\<rparr>) = device_ready s"
  by (simp_all add: fun_eq_iff device_ready_def)

lemma shield_init_effect:
  assumes "device_ready s n fs lp mx" and "n < fuel" and "length (dev_array s) = 3"
    and p: "p = (case pInfo s of None \<Rightarrow> garbage | Some p \<Rightarrow> p)"
    and t: "t = exec (shield_power_init garbage H fuel) s"
  shows "result (shield_power_init garbage H fuel) s = Some () \<and> fds t = fds s
    \<and> undef t = (undef s \<or> \<not> start_defined H (lp # mx # fs))
    \<and> now t = now s \<and> available_frequencies (info t) = fs \<and> hint_time (info t) = hint_time p
    \<and> hint_interval (info t) = hint_interval (set_intervals H p)
    \<and> mTimeoutPoker (info t) = Some (length (pokers s))
    \<and> pokers t = pokers s @ [pushEvent (now s) (boot_boost (last fs)) new_poker]"
proof -
  let ?p = "p\<lparr>input_devs := True, input_cnt := 3\<rparr>"
  let ?s = "s\<lparr>pInfo := Some ?p\<rparr>"
  have split: "exec (shield_power_init garbage H fuel) s = exec (common_power_init H fuel) ?s"
    "result (shield_power_init garbage H fuel) s = result (common_power_init H fuel) ?s"
    by (simp_all add: shield_power_init_def set_info_def p shield_input_devs_def split: option.split)
  note d = assms(1) [unfolded device_ready_def]
  have pre: "pInfo ?s = Some ?p" "input_devs ?p" "input_cnt ?p = int (length (dev_array ?s))"
    "dev_array ?s \<noteq> []" "dev_array ?s = dev_array ?s @ []"
    "\<forall>j<n. accessible ?s (input_name_path (int j)) F_OK"
    "\<not> accessible ?s (input_name_path (int n)) F_OK"
    "reads_as ?s scaling_available_frequencies (freq_listing fs)"
    "node_text ?s idle_top_freq 256 = Some (show_int lp @ [NL])"
    "node_text ?s SYS_NODE_CPU0_MAX_FREQ 256 = Some (show_int mx @ [NL])"
    "fds ?s (- 1) = None"
    using d assms(3) reads_as_listing [of ?s scaling_available_frequencies fs] by auto
  have fs: "fs = map atoi (butlast (tokens (freq_listing fs)))" by (simp add: butlast_tokens_freq_listing)
  from common_power_init_effect [OF pre(1-7) assms(2) pre(8) butlast_tokens_freq_listing(2) pre(9-11) fs, of H]
  show ?thesis using d by (simp add: t split set_intervals_def)
qed

lemma shield_open_effect:
  assumes "device_ready s n fs lp mx" and "n < fuel" and "pInfo s = None"
  shows "result (shield_power_open m m H fuel) s = Some 0 \<and>
    (\<exists>e u fan. exec (shield_power_open m m H fuel) s = s\<lparr>uC_input_number := u, errno := e,
       undef := undef s \<or> \<not> start_defined H (lp # mx # fs), pokers := pokers s @ [new_poker],
       pInfo := Some (opened_info H (length (pokers s)) fs lp mx fan (zero_info\<lparr>input_cnt := int n\<rparr>))\<rparr>)"
proof -
  let ?s = "s\<lparr>pInfo := Some zero_info\<rparr>"
  note d = assms(1) [unfolded device_ready_def]
  have pre: "pInfo ?s = Some zero_info" "\<not> input_devs zero_info \<or> input_cnt zero_info = 0"
    "\<forall>j<n. accessible ?s (input_name_path (int j)) F_OK"
    "\<not> accessible ?s (input_name_path (int n)) F_OK"
    "reads_as ?s scaling_available_frequencies (freq_listing fs)"
    "node_text ?s idle_top_freq 256 = Some (show_int lp @ [NL])"
    "node_text ?s SYS_NODE_CPU0_MAX_FREQ 256 = Some (show_int mx @ [NL])"
    "fds ?s (- 1) = None"
    using d reads_as_listing [of ?s scaling_available_frequencies fs] by (auto simp: zero_info_def)
  obtain e u where o: "result (common_power_open H fuel) ?s = Some ()"
    "exec (common_power_open H fuel) ?s = s\<lparr>uC_input_number := u, errno := e,
       undef := undef s \<or> \<not> start_defined H (lp # mx # fs), pokers := pokers s @ [new_poker],
       pInfo := Some (opened_info H (length (pokers s)) fs lp mx (opened s fan_path O_RDONLY \<noteq> None)
          (zero_info\<lparr>input_cnt := int n\<rparr>))\<rparr>"
    using common_power_open_count [OF pre(1-4) assms(2) pre(5) butlast_tokens_freq_listing(2) pre(6-8), of H]
    by (auto simp: butlast_tokens_freq_listing(1))
  show ?thesis
    using assms(3) by (auto simp: shield_power_open_def o intro!: exI)
qed

text \<open>
  C32. The two ways of starting the module differ.  Opened and then initialised, the module ends with
  two pokers: the one of \<open>open\<close> is lost, with its thread, and never gets a request, while the
  second gets the boot request, and every hint is then accepted.  Initialised without being
  opened, \<open>pInfo\<close> is memory from \<open>malloc\<close>, and what happens to lie in its hint times can make the
  very first hint be refused.
\<close>

theorem shield_start:
  assumes "device_ready s n fs lp mx" and "n < fuel" and "pInfo s = None" and "pokers s = []"
    and "length (dev_array s) = 3" and "hints_ok H" and "1000 \<le> now s" and "now s < 2147483648000"
  shows "(let t = exec (shield_power_init g H fuel) (exec (shield_power_open m m H fuel) s) in
      pokers t = [new_poker, pushEvent (now s) (boot_boost (last fs)) new_poker]
      \<and> mTimeoutPoker (info t) = Some 1 \<and> result (check_hint H (POWER_HINT_INTERACTION H)) t \<noteq> None)
    \<and> (\<exists>garbage. result (check_hint H (POWER_HINT_INTERACTION H))
         (exec (shield_power_init garbage H fuel) s) = None)"
proof
  obtain e u fan where o: "exec (shield_power_open m m H fuel) s = s\<lparr>uC_input_number := u, errno := e,
       undef := undef s \<or> \<not> start_defined H (lp # mx # fs), pokers := [new_poker],
       pInfo := Some (opened_info H 0 fs lp mx fan (zero_info\<lparr>input_cnt := int n\<rparr>))\<rparr>"
    using shield_open_effect [OF assms(1-3), of m H] assms(4) by auto
  let ?q = "opened_info H 0 fs lp mx fan (zero_info\<lparr>input_cnt := int n\<rparr>)"
  let ?s = "s\<lparr>uC_input_number := u, errno := e, undef := undef s \<or> \<not> start_defined H (lp # mx # fs),
      pokers := [new_poker], pInfo := Some ?q\<rparr>"
  have r: "device_ready ?s n fs lp mx" "length (dev_array ?s) = 3" using assms(1,5) by simp_all
  have "hint_time ?q = (\<lambda>_. 0)"
    by (simp add: opened_info_def set_intervals_def frequencies_from_def zero_info_def)
  then show "let t = exec (shield_power_init g H fuel) (exec (shield_power_open m m H fuel) s) in
      pokers t = [new_poker, pushEvent (now s) (boot_boost (last fs)) new_poker]
      \<and> mTimeoutPoker (info t) = Some 1 \<and> result (check_hint H (POWER_HINT_INTERACTION H)) t \<noteq> None"
    using shield_init_effect [OF r(1) assms(2) r(2) refl refl, of g H] assms(6)
    by (simp add: o Let_def check_hint_result hints_ok_def MAX_POWER_HINT_COUNT_def)
next
  define garbage where "garbage = zero_info\<lparr>hint_time := (\<lambda>_. usec_time (now s))\<rparr>"
  define t where "t = exec (shield_power_init garbage H fuel) s"
  have "now t = now s" "hint_time (info t) = (\<lambda>_. usec_time (now s))"
      "hint_interval (info t) = hint_interval (set_intervals H garbage)"
    using shield_init_effect [OF assms(1,2,5) refl t_def] assms(3) by (simp_all add: garbage_def)
  moreover have "usec_time (now s) \<noteq> 0" by (rule usec_nonzero [OF assms(7,8)])
  moreover have "hint_interval (set_intervals H garbage) (POWER_HINT_INTERACTION H) = 90000"
    using assms(6) by (auto simp: set_intervals_def hints_ok_def)
  ultimately have "result (check_hint H (POWER_HINT_INTERACTION H)) t = None"
    by (simp add: check_hint_result)
  then show "\<exists>garbage. result (check_hint H (POWER_HINT_INTERACTION H))
         (exec (shield_power_init garbage H fuel) s) = None"
    unfolding t_def by blast
qed

text \<open>A fresh process on the device of the boot examples.\<close>

definition fresh_hal :: hal where
  "fresh_hal = (boot_hal (table_node # other_nodes))
     \<lparr>pInfo := None, dev_array := shield_input_devs, now := 1000000\<rparr>"

lemma fresh_hal_fields [simp]:
  "pInfo fresh_hal = None" "pokers fresh_hal = []" "dev_array fresh_hal = shield_input_devs"
  "now fresh_hal = 1000000" "fds fresh_hal = std_fds"
  by (simp_all add: fresh_hal_def)

lemma fresh_hal_ready: "device_ready fresh_hal 1 [51000, 1020000, 1326000] 696000 1326000"
proof -
  let ?s = "boot_hal (table_node # other_nodes)"
  have c: "accessible fresh_hal = accessible ?s" "node_text fresh_hal = node_text ?s" "fds fresh_hal = fds ?s"
    by (auto simp: fun_eq_iff fresh_hal_def accessible_def node_text_def opened_def open_error_def
        free_fd_def fd_slots_def split: option.split)
  have "map_of (table_node # other_nodes) idle_top_freq = map_of other_nodes idle_top_freq"
    "map_of (table_node # other_nodes) SYS_NODE_CPU0_MAX_FREQ = map_of other_nodes SYS_NODE_CPU0_MAX_FREQ"
    by (simp_all add: table_node_def idle_top_freq_def SYS_NODE_CPU0_MAX_FREQ_def scaling_available_frequencies_def)
  note t = other_nodes_texts [OF this]
  show ?thesis
    unfolding device_ready_def c using boot_table boot_inputs [of "table_node # other_nodes"] t boot_facts(6)
    by blast
qed

theorem shield_start_witness:
  "length (pokers (exec (shield_power_init boot_info cm_hints 2)
      (exec (shield_power_open ''power'' ''power'' cm_hints 2) fresh_hal))) = 2"
proof -
  have f: "(1 :: nat) < 2" "length (dev_array fresh_hal) = 3" "1000 \<le> now fresh_hal" "now fresh_hal < 2147483648000"
    by (simp_all add: shield_input_devs_def)
  from shield_start [OF fresh_hal_ready f(1) fresh_hal_fields(1,2) f(2) cm_hints_ok f(3,4), of boot_info "''power''"]
  show ?thesis by (simp add: Let_def)
qed

text \<open>
  Opening is safe to repeat: an unknown name is refused with \<open>-EINVAL\<close>, an open module is left as
  it is, both without any effect; a first opening of a device that answers starts exactly one
  poker, leaves the descriptor table alone, and is undefined only when the hints do not fit their
  array or a node holds a number that is not an \<open>int\<close>.
\<close>

theorem shield_open_cases:
  assumes "device_ready s n fs lp mx" and "n < fuel"
  shows "(name \<noteq> m \<longrightarrow> result (shield_power_open m name H fuel) s = Some (- 22)
        \<and> exec (shield_power_open m name H fuel) s = s)
    \<and> (pInfo s \<noteq> None \<longrightarrow> result (shield_power_open m m H fuel) s = Some 0
        \<and> exec (shield_power_open m m H fuel) s = s)
    \<and> (pInfo s = None \<longrightarrow> result (shield_power_open m m H fuel) s = Some 0
        \<and> pokers (exec (shield_power_open m m H fuel) s) = pokers s @ [new_poker]
        \<and> fds (exec (shield_power_open m m H fuel) s) = fds s
        \<and> undef (exec (shield_power_open m m H fuel) s) = (undef s \<or> \<not> start_defined H (lp # mx # fs))
        \<and> available_frequencies (info (exec (shield_power_open m m H fuel) s)) = fs)"
  using shield_open_effect [OF assms, of m H]
  by (auto simp: shield_power_open_def EINVAL_def info_def opened_info_def set_intervals_def frequencies_from_def)

theorem shield_open_cases_witness:
  "result (shield_power_open ''power'' ''power'' cm_hints 2) fresh_hal = Some 0
   \<and> available_frequencies (info (exec (shield_power_open ''power'' ''power'' cm_hints 2) fresh_hal))
       = [51000, 1020000, 1326000]"
proof -
  have "(1 :: nat) < 2" by simp
  from shield_open_cases [OF fresh_hal_ready this, of "''power''" "''power''" cm_hints] show ?thesis by simp
qed

text \<open>
  With the SATA stand-by built in, switching the display runs the mode switch first and then, where
  the disk is there, offers the values for the disk: auto, one minute and auto when it goes
  off, on and on when it comes on, each time up to the first node that refuses.  Without the
  disk, or without the option, only the mode switch runs.  No descriptor is left open.
\<close>

theorem shield_set_interactive_disk:
  assumes "devices_ok s" and "B \<noteq> T210"
    and "w = accepted s O_WRONLY (sclk_write on) @ input_writes s on
           @ concat (map (accepted s O_WRONLY) (mode_writes B on))"
    and "ps = (if on \<noteq> 0 then [(POWER_CONTROL_PATH, ''on''), (HOST_CONTROL_PATH, ''on'')]
           else [(POWER_CONTROL_PATH, ''auto''), (AUTO_SUSPEND_DELAY_PATH, ''60000''), (HOST_CONTROL_PATH, ''auto'')])"
  shows "\<exists>e. exec (shield_power_set_interactive B sata on) s = s\<lparr>
     wlog := wlog s @ w @ (if sata \<and> accessible s FOSTER_E_HDD F_OK
       then concat (map (accepted s O_WRONLY) (takeWhile (node_ok s O_WRONLY) ps)) else []),
     errno := e\<rparr>"
proof -
  have c: "logged s w (exec (common_power_set_interactive B on) s)"
    using logged_set_interactive [OF assms(1,2), of on] by (simp add: assms(3))
  let ?t = "exec (common_power_set_interactive B on) s"
  note f = logged_fields [OF c]
  have ok: "node_ok ?t = node_ok s" using c by (auto simp: logged_def fun_eq_iff)
  obtain e where e: "exec (k_access FOSTER_E_HDD F_OK) ?t = ?t\<lparr>errno := e\<rparr>"
    using exec_k_access [of ?t FOSTER_E_HDD F_OK] by (auto simp: same_but_errno_def)
  have "show_int 60000 = ''60000''" by (simp add: show_int_def show_nat.simps)
  then have disk: "(if on \<noteq> 0 then hdd_disable_standby_timer else hdd_set_standby_timer HDD_STANDBY_TIMEOUT)
      = (sata_steps ps :: (hal, int) state)"
    by (simp add: assms(4) hdd_disable_standby_timer_def hdd_set_standby_timer_def standby_plan_def
        standby_ms_exact VALUE_AUTO_def VALUE_ON_def HDD_STANDBY_TIMEOUT_def)
  have steps: "logged ?t (concat (map (accepted s O_WRONLY) (takeWhile (node_ok s O_WRONLY) ps)))
      (exec (sata_steps ps) (?t\<lparr>errno := e\<rparr>))"
    using sata_steps_effect [of "?t\<lparr>errno := e\<rparr>" ps] f(8) ok by (auto simp: logged_def same_but_errno_def)
  have "logged ?t [] (?t\<lparr>errno := e\<rparr>)" by (auto simp: logged_def)
  then have "logged ?t (if sata \<and> accessible s FOSTER_E_HDD F_OK
       then concat (map (accepted s O_WRONLY) (takeWhile (node_ok s O_WRONLY) ps)) else [])
      (exec (shield_power_set_interactive B sata on) s)"
    using steps logged_refl [of ?t] f(9) disk
    by (auto simp: shield_power_set_interactive_def e simp flip: exec_if)
  from logged_trans [OF c this] show ?thesis by (simp add: logged_def)
qed

definition disk_hal :: hal where
  "disk_hal = demo_hal\<lparr>nodes := [FOSTER_E_HDD \<mapsto> plain_node [], POWER_CONTROL_PATH \<mapsto> plain_node []]\<rparr>"

theorem shield_set_interactive_disk_witness:
  "wlog (exec (shield_power_set_interactive K1 True 1) disk_hal) = [(POWER_CONTROL_PATH, ''on'')]"
proof -
  have paths: "FOSTER_E_HDD \<noteq> POWER_CONTROL_PATH" "HOST_CONTROL_PATH \<noteq> POWER_CONTROL_PATH"
    "HOST_CONTROL_PATH \<noteq> FOSTER_E_HDD"
    by (simp_all add: FOSTER_E_HDD_def POWER_CONTROL_PATH_def HOST_CONTROL_PATH_def)
  have ok: "devices_ok disk_hal"
    by (simp add: devices_ok_def disk_hal_def set_intervals_def demo_info_def)
  have i: "input_writes disk_hal 1 = []" "wlog disk_hal = []"
    by (simp_all add: input_writes_def disk_hal_def set_intervals_def demo_info_def demo_hal_def
        kernel.defs plain_kernel_def)
  have o: "opened disk_hal p fl = (if p = FOSTER_E_HDD \<or> p = POWER_CONTROL_PATH then Some 3 else None)" for p fl
    by (auto simp: opened_def open_error_def free_fd_def fd_slots_def disk_hal_def demo_hal_def
        kernel.defs plain_kernel_def plain_node_def std_fds_def upt_rec)
  have nd: "nodes disk_hal p = (if p = FOSTER_E_HDD \<or> p = POWER_CONTROL_PATH then Some (plain_node []) else None)" for p
    by (simp add: disk_hal_def)
  have n: "node_ok disk_hal fl (p, d) = (p = FOSTER_E_HDD \<or> p = POWER_CONTROL_PATH)"
    "accepted disk_hal fl (p, d) = (if p = FOSTER_E_HDD \<or> p = POWER_CONTROL_PATH then [(p, d)] else [])" for p d fl
    by (simp_all add: node_ok_def accepted_def o driver_write_def nd plain_node_def)
  have a: "accessible disk_hal FOSTER_E_HDD F_OK"
    by (simp add: accessible_def disk_hal_def plain_node_def)
  have k: "accepted disk_hal O_WRONLY (sclk_write 1) = []"
    "concat (map (accepted disk_hal O_WRONLY) (mode_writes K1 1)) = []"
    by (simp_all add: n sclk_write_def mode_writes_def k1_idle_def k1_interactive_def FOSTER_E_HDD_def POWER_CONTROL_PATH_def)
  obtain e where "exec (shield_power_set_interactive K1 True 1) disk_hal = disk_hal\<lparr>wlog :=
      concat (map (accepted disk_hal O_WRONLY) (takeWhile (node_ok disk_hal O_WRONLY)
        [(POWER_CONTROL_PATH, ''on''), (HOST_CONTROL_PATH, ''on'')])), errno := e\<rparr>"
    using shield_set_interactive_disk [OF ok _ refl refl, where B = K1 and on = 1 and sata = True] a by (auto simp: i k)
  then show ?thesis using paths by (simp add: n)
qed

end
