(* ===== verification/Hal_Types.thy ===== *)
theory Hal_Types
  imports Hal_Contracts Shield_Power
begin

text \<open>
  What is true of the data of the power HAL whenever no call is under way, and the contracts of
  opening and initialising it: on any device whatsoever, a start that returns leaves well-formed
  data behind.
\<close>

section \<open>Well-formed data\<close>

definition device_names :: "string list" where
  "device_names = map dev_name shield_input_devs"

text \<open>
  The members of \<open>pInfo\<close>: how many input devices there are, which poker is used (the \<open>k\<close>-th), the
  intervals between hints, and the length of the frequency table.
\<close>

definition inputs_ok :: "powerhal_info \<Rightarrow> bool" where
  "inputs_ok p \<longleftrightarrow> 0 \<le> input_cnt p \<and> (input_devs p \<longrightarrow> input_cnt p = int (length device_names))"

definition intervals_ok :: "power_hints \<Rightarrow> powerhal_info \<Rightarrow> bool" where
  "intervals_ok H p \<longleftrightarrow> hint_interval p (POWER_HINT_INTERACTION H) = 90000
     \<and> hint_interval p (POWER_HINT_CPU_BOOST H) = 500000 \<and> hint_interval p (POWER_HINT_AUDIO H) = 500000
     \<and> hint_interval p (POWER_HINT_LOW_POWER H) = 0"

definition frequencies_ok :: "powerhal_info \<Rightarrow> bool" where
  "frequencies_ok p \<longleftrightarrow> length (available_frequencies p) = nat (num_available_frequencies p)"

definition info_ok :: "power_hints \<Rightarrow> nat \<Rightarrow> powerhal_info \<Rightarrow> bool" where
  "info_ok H k p \<longleftrightarrow> inputs_ok p \<and> mTimeoutPoker p = Some k \<and> intervals_ok H p"

text \<open>
  A state of the HAL with descriptors \<open>F\<close> and pokers \<open>ps\<close>, whose \<open>pInfo\<close> has \<open>Q\<close> and, unless something
  undefined has happened, \<open>R\<close>.
\<close>

definition has_info :: "(int \<Rightarrow> ofile option) \<Rightarrow> poker list \<Rightarrow> (powerhal_info \<Rightarrow> bool) \<Rightarrow> (powerhal_info \<Rightarrow> bool)
    \<Rightarrow> hal \<Rightarrow> bool" where
  "has_info F ps Q R s \<longleftrightarrow> fds s = F \<and> F (- 1) = None \<and> pokers s = ps
     \<and> map dev_name (dev_array s) = device_names
     \<and> (\<exists>p. pInfo s = Some p \<and> Q p \<and> (undef s \<or> R p))"

interpretation hi: quiet_invariant "has_info F ps Q R" for F ps Q R
  by unfold_locales (auto simp: has_info_def)

text \<open>The state \<open>t\<close> differs from \<open>s\<close> in the log, in \<open>errno\<close> and in what was undefined at most.\<close>

definition unchanged :: "hal \<Rightarrow> hal \<Rightarrow> bool" where
  "unchanged s t \<longleftrightarrow> fds t = fds s \<and> fds s (- 1) = None \<and> pokers t = pokers s \<and> dev_array t = dev_array s
     \<and> pInfo t = pInfo s \<and> (undef s \<longrightarrow> undef t)"

interpretation un: quiet_invariant "unchanged s" for s
  by unfold_locales (auto simp: unchanged_def)

section \<open>Opening\<close>

lemma set_info_triple:
  "(\<And>p. Q p \<Longrightarrow> Q' (f p)) \<Longrightarrow> (\<And>p. Q p \<Longrightarrow> R p \<Longrightarrow> R' (f p)) \<Longrightarrow>
   triple (has_info F ps Q R) (set_info f) (\<lambda>_. has_info F ps Q' R')"
  by (auto simp: triple_def set_info_def has_info_def)

lemma get_input_count_triple:
  "triple (has_info F ps Q R) (get_input_count_from fuel i)
     (\<lambda>r s. has_info F ps Q R s \<and> (\<forall>c. r = Some c \<longrightarrow> i \<le> c))"
proof (induction fuel arbitrary: i)
  case 0
  show ?case by (simp add: triple_def)
next
  case (Suc fuel)
  have u: "keeps (has_info F ps Q R) (modify (\<lambda>s. s\<lparr>uC_input_number := i\<rparr>))"
    by (rule triple_modify) (simp add: has_info_def)
  have next_i: "triple (has_info F ps Q R) (get_input_count_from fuel (i + 1))
      (\<lambda>r s. has_info F ps Q R s \<and> (\<forall>c. r = Some c \<longrightarrow> i \<le> c))"
    by (rule triple_conseq [OF Suc.IH]) auto
  show ?case
    unfolding get_input_count_from.simps
    by (intro hi.keeps_intros next_i u) simp_all
qed

lemma find_input_device_ids_triple: "keeps (has_info F ps Q R) (find_input_device_ids_from fuel i n)"
proof (induction fuel arbitrary: i n)
  case 0
  show ?case by (simp add: triple_def)
next
  case (Suc fuel)
  have names: "map dev_name (fst (match_devs name i ds)) = map dev_name ds" for name ds
    by (simp add: match_devs_eq)
  have all: "map dev_name (fst (match_devs name i (take c ds)) @ drop c ds) = map dev_name ds" for name c ds
    by (simp only: map_append names) (simp only: append_take_drop_id flip: map_append)
  have upd: "triple (\<lambda>s. has_info F ps Q R s \<and> map dev_name ds = device_names)
      (modify (\<lambda>s. s\<lparr>dev_array := fst (match_devs name i (take c ds)) @ drop c ds\<rparr>)) (\<lambda>_. has_info F ps Q R)"
    for name c ds
    by (rule triple_modify) (simp add: has_info_def all del: map_append)
  have undef: "keeps (\<lambda>s. has_info F ps Q R s \<and> map dev_name ds = device_names)
      (if b then undefined_behaviour else ret ())" for b ds
    by (auto simp: triple_def undefined_behaviour_def has_info_def)
  have devs: "triple (has_info F ps Q R) (gets dev_array)
      (\<lambda>ds s. has_info F ps Q R s \<and> map dev_name ds = device_names)"
    by (rule triple_gets) (simp add: has_info_def)
  show ?case
    unfolding find_input_device_ids_from.simps Let_def case_prod_unfold
    by (intro triple_seq [OF hi.keeps_k_access] triple_if triple_seq [OF hi.keeps_sysfs_read]
        triple_seq [OF triple_gets] triple_bind [OF devs] triple_seq [OF undef] triple_bind [OF upd]
        triple_ret Suc.IH)
qed

lemma new_timeout_poker_triple:
  assumes "\<And>p. Q p \<Longrightarrow> Q' (p\<lparr>mTimeoutPoker := Some (length ps)\<rparr>)" and "\<And>p. R p \<Longrightarrow> R' (p\<lparr>mTimeoutPoker := Some (length ps)\<rparr>)"
  shows "triple (has_info F ps Q R) new_timeout_poker (\<lambda>_. has_info F (ps @ [new_poker]) Q' R')"
  using assms by (auto simp: triple_def new_timeout_poker_def set_info_def has_info_def)

lemma store_frequencies_triple:
  "triple (has_info F ps Q R) (store_frequencies num ts)
     (\<lambda>fs s. has_info F ps Q R s \<and> (undef s \<or> length fs = nat num))"
  by (auto simp: triple_def store_frequencies_def has_info_def)

lemma read_frequencies_triple:
  assumes "\<And>p n. Q p \<Longrightarrow> Q (p\<lparr>num_available_frequencies := n\<rparr>)" and "\<And>p fs. Q p \<Longrightarrow> Q (p\<lparr>available_frequencies := fs\<rparr>)"
  shows "triple (has_info F ps Q (\<lambda>_. True)) read_frequencies (\<lambda>_. has_info F ps Q frequencies_ok)"
proof -
  have num: "triple (has_info F ps Q (\<lambda>_. True)) (set_info (\<lambda>p. p\<lparr>num_available_frequencies := num\<rparr>))
      (\<lambda>_. has_info F ps Q (\<lambda>p. num_available_frequencies p = num))" for num
    by (rule set_info_triple) (simp_all add: assms)
  have tab: "triple (\<lambda>s. has_info F ps Q (\<lambda>p. num_available_frequencies p = num) s \<and> (undef s \<or> length fs = nat num))
      (set_info (\<lambda>p. p\<lparr>available_frequencies := fs\<rparr>)) (\<lambda>_. has_info F ps Q frequencies_ok)" for num fs
    by (auto simp: triple_def set_info_def has_info_def frequencies_ok_def assms)
  show ?thesis
    unfolding read_frequencies_def Let_def case_prod_unfold
    by (intro triple_seq [OF hi.keeps_sysfs_read] triple_seq [OF hi.keeps_strtok_buf] triple_bind [OF num]
        triple_bind [OF store_frequencies_triple] triple_bind [OF tab] triple_ret)
qed

lemma read_limits_triple:
  assumes "\<And>p a b c. Q p \<Longrightarrow> Q (p\<lparr>lp_max_frequency := a, interaction_boost_frequency := b, animation_boost_frequency := c\<rparr>)"
    and "\<And>p a. Q p \<Longrightarrow> Q (p\<lparr>cpu0_max_frequency := a\<rparr>)"
  shows "keeps (has_info F ps Q frequencies_ok) (read_limits buf)"
  unfolding read_limits_def
  by (intro triple_seq [OF hi.keeps_sysfs_read] triple_seq [OF hi.keeps_atoi_buf]
      triple_seq [OF set_info_triple] set_info_triple) (simp_all add: assms frequencies_ok_def)

text \<open>
  Opening as a whole, on any device: when it returns there is one poker more, the module uses it,
  and the descriptors are as they were.
\<close>

definition openable :: "powerhal_info \<Rightarrow> bool" where
  "openable p \<longleftrightarrow> (input_devs p \<longrightarrow> input_cnt p = int (length device_names))"

lemma inputs_triple:
  "triple (\<lambda>s. has_info F ps openable (\<lambda>_. True) s \<and> p = info s)
     (if \<not> input_devs p \<or> input_cnt p = 0
        then do {
          n \<leftarrow> get_input_count fuel;
          case n of
            None \<Rightarrow> ret None
          | Some c \<Rightarrow> do { set_info (\<lambda>p. p\<lparr>input_cnt := c\<rparr>); ret (Some ()) } }
        else find_input_device_ids fuel)
     (\<lambda>r s. r \<noteq> None \<longrightarrow> has_info F ps inputs_ok (\<lambda>_. True) s)"
proof (rule triple_if)
  assume b: "\<not> input_devs p \<or> input_cnt p = 0"
  have pre: "has_info F ps (\<lambda>p. \<not> input_devs p) (\<lambda>_. True) s"
    if "has_info F ps openable (\<lambda>_. True) s \<and> p = info s" for s
    using that b by (auto simp: has_info_def openable_def info_def device_names_def shield_input_devs_def)
  have c: "triple (\<lambda>s. has_info F ps (\<lambda>p. \<not> input_devs p) (\<lambda>_. True) s \<and> (\<forall>c. n = Some c \<longrightarrow> 0 \<le> c))
      (case n of None \<Rightarrow> ret None | Some c \<Rightarrow> do { set_info (\<lambda>p. p\<lparr>input_cnt := c\<rparr>); ret (Some ()) })
      (\<lambda>r s. r \<noteq> None \<longrightarrow> has_info F ps inputs_ok (\<lambda>_. True) s)" for n
    by (cases n) (auto simp: triple_def set_info_def has_info_def inputs_ok_def)
  show "triple (\<lambda>s. has_info F ps openable (\<lambda>_. True) s \<and> p = info s)
      (do { n \<leftarrow> get_input_count fuel;
            case n of None \<Rightarrow> ret None | Some c \<Rightarrow> do { set_info (\<lambda>p. p\<lparr>input_cnt := c\<rparr>); ret (Some ()) } })
      (\<lambda>r s. r \<noteq> None \<longrightarrow> has_info F ps inputs_ok (\<lambda>_. True) s)"
    unfolding get_input_count_def
    by (rule triple_conseq [OF triple_bind [OF get_input_count_triple c]]) (use pre in simp_all)
next
  assume b: "\<not> (\<not> input_devs p \<or> input_cnt p = 0)"
  have pre: "has_info F ps inputs_ok (\<lambda>_. True) s"
    if "has_info F ps openable (\<lambda>_. True) s \<and> p = info s" for s
    using that b by (auto simp: has_info_def openable_def info_def inputs_ok_def)
  show "triple (\<lambda>s. has_info F ps openable (\<lambda>_. True) s \<and> p = info s) (find_input_device_ids fuel)
      (\<lambda>r s. r \<noteq> None \<longrightarrow> has_info F ps inputs_ok (\<lambda>_. True) s)"
    unfolding find_input_device_ids_def
    by (rule triple_conseq [OF find_input_device_ids_triple]) (rule pre, assumption, simp)
qed

lemma open_rest_triple:
  assumes "hints_ok H"
  shows "triple (has_info F ps inputs_ok (\<lambda>_. True)) (open_rest H)
     (\<lambda>_. has_info F (ps @ [new_poker]) (info_ok H (length ps)) frequencies_ok)"
proof -
  let ?Q = "\<lambda>p. inputs_ok p \<and> mTimeoutPoker p = Some (length ps)"
  let ?h = "has_info F (ps @ [new_poker]) ?Q"
  have poker: "triple (has_info F ps inputs_ok (\<lambda>_. True)) new_timeout_poker (\<lambda>_. ?h (\<lambda>_. True))"
    by (rule new_timeout_poker_triple) (simp_all add: inputs_ok_def)
  have freqs: "triple (?h (\<lambda>_. True)) read_frequencies (\<lambda>_. ?h frequencies_ok)"
    by (rule read_frequencies_triple) (simp_all add: inputs_ok_def)
  have limits: "keeps (?h frequencies_ok) (read_limits buf)" for buf
    by (rule read_limits_triple) (simp_all add: inputs_ok_def)
  have ints: "triple (?h frequencies_ok) (init_intervals H)
      (\<lambda>_. has_info F (ps @ [new_poker]) (info_ok H (length ps)) frequencies_ok)"
    unfolding init_intervals_def using assms
    by (intro triple_seq [OF hi.keeps_require] set_info_triple)
      (auto simp: info_ok_def inputs_ok_def intervals_ok_def set_intervals_def frequencies_ok_def hints_ok_def)
  have fan: "triple (has_info F (ps @ [new_poker]) (info_ok H (length ps)) frequencies_ok)
      (set_info (\<lambda>p. p\<lparr>features_fan := b\<rparr>))
      (\<lambda>_. has_info F (ps @ [new_poker]) (info_ok H (length ps)) frequencies_ok)" for b
    by (rule set_info_triple) (simp_all add: info_ok_def inputs_ok_def intervals_ok_def frequencies_ok_def)
  show ?thesis
    unfolding open_rest_def
    by (intro triple_bind [OF poker] triple_bind [OF freqs] triple_seq [OF limits] triple_bind [OF ints]
        triple_seq [OF hi.keeps_sysfs_exists] triple_bind [OF fan] triple_ret)
qed

lemma common_power_open_triple:
  assumes "hints_ok H"
  shows "triple (has_info F ps openable (\<lambda>_. True)) (common_power_open H fuel)
     (\<lambda>r s. r \<noteq> None \<longrightarrow> has_info F (ps @ [new_poker]) (info_ok H (length ps)) frequencies_ok s)"
proof -
  have i: "triple (has_info F ps openable (\<lambda>_. True)) (gets info)
      (\<lambda>p s. has_info F ps openable (\<lambda>_. True) s \<and> p = info s)"
    by (rule triple_gets) simp
  have r: "triple (\<lambda>s. x \<noteq> None \<longrightarrow> has_info F ps inputs_ok (\<lambda>_. True) s)
      (case x of None \<Rightarrow> ret None | Some _ \<Rightarrow> open_rest H)
      (\<lambda>r s. r \<noteq> None \<longrightarrow> has_info F (ps @ [new_poker]) (info_ok H (length ps)) frequencies_ok s)" for x :: "unit option"
    using triple_conseq [OF open_rest_triple [OF assms]] by (cases x) (auto simp: triple_ret)
  show ?thesis
    unfolding common_power_open_def open_rest_def [unfolded fan_path_def, symmetric]
    by (rule triple_bind [OF i triple_bind [OF inputs_triple r]])
qed

text \<open>Initialising adds the request of the boot boost to the new poker.\<close>

lemma boot_request_triple:
  "triple (has_info F (ps @ [q]) (info_ok H (length ps)) R)
     (request_timed_priority PMQOS_CONSTRAINT_CPU_FREQ PM_QOS_BOOST_PRIORITY PM_QOS_DEFAULT_VALUE f (s2ns 15))
     (\<lambda>_ s. \<exists>t. has_info F (ps @ [pushEvent t (boot_boost f) q]) (info_ok H (length ps)) R s)"
  by (auto simp: triple_def has_info_def info_ok_def info_def request_defs boot_boost_def)

lemma common_power_init_triple:
  assumes "hints_ok H"
  shows "triple (has_info F ps openable (\<lambda>_. True)) (common_power_init H fuel)
     (\<lambda>r s. r \<noteq> None \<longrightarrow> (\<exists>t f. has_info F (ps @ [pushEvent t (boot_boost f) new_poker])
        (info_ok H (length ps)) frequencies_ok s))"
proof -
  let ?h = "has_info F (ps @ [new_poker]) (info_ok H (length ps)) frequencies_ok"
  have ft: "keeps ?h (set_info (\<lambda>p. p\<lparr>ftrace_enable := b\<rparr>))" for b
    by (rule set_info_triple) (simp_all add: info_ok_def inputs_ok_def intervals_ok_def frequencies_ok_def)
  have "triple ?h (do { ftrace \<leftarrow> get_property_bool ''nvidia.hwc.ftrace_enable'' False;
         set_info (\<lambda>p. p\<lparr>ftrace_enable := ftrace\<rparr>);
         p \<leftarrow> gets info;
         top \<leftarrow> frequency_at (num_available_frequencies p - 1);
         request_timed_priority PMQOS_CONSTRAINT_CPU_FREQ PM_QOS_BOOST_PRIORITY PM_QOS_DEFAULT_VALUE top (s2ns 15);
         ret (Some ()) })
     (\<lambda>r s. r \<noteq> None \<longrightarrow> (\<exists>t f. has_info F (ps @ [pushEvent t (boot_boost f) new_poker])
        (info_ok H (length ps)) frequencies_ok s))"
    by (intro triple_seq [OF hi.keeps_property(1)] triple_seq [OF ft] triple_seq [OF triple_gets]
        triple_seq [OF hi.keeps_frequency_at] triple_bind [OF boot_request_triple] triple_ret) blast+
  then have r: "triple (\<lambda>s. x \<noteq> None \<longrightarrow> ?h s) (case x of None \<Rightarrow> ret None
       | Some _ \<Rightarrow> do { ftrace \<leftarrow> get_property_bool ''nvidia.hwc.ftrace_enable'' False;
         set_info (\<lambda>p. p\<lparr>ftrace_enable := ftrace\<rparr>);
         p \<leftarrow> gets info;
         top \<leftarrow> frequency_at (num_available_frequencies p - 1);
         request_timed_priority PMQOS_CONSTRAINT_CPU_FREQ PM_QOS_BOOST_PRIORITY PM_QOS_DEFAULT_VALUE top (s2ns 15);
         ret (Some ()) })
     (\<lambda>r s. r \<noteq> None \<longrightarrow> (\<exists>t f. has_info F (ps @ [pushEvent t (boot_boost f) new_poker])
        (info_ok H (length ps)) frequencies_ok s))" for x :: "unit option"
    by (cases x) (auto simp: triple_ret)
  show ?thesis unfolding common_power_init_def
    by (rule triple_bind [OF common_power_open_triple [OF assms] r])
qed

end
