(* ===== verification/Event_Order.thy ===== *)
theory Event_Order
  imports Event_Queue
begin

text \<open>
  The event queue in order.  \<open>Event_Queue\<close> says what the handlers may rely on whatever message the
  looper picks; here the messages are listed in the order in which a looper handles them that goes
  by their due times and, among equals, by the order in which they were sent.
\<close>

section \<open>The interface\<close>

locale event_order = event_queue empty send take_event messages contents invar cap
  for empty :: 'q
    and send :: "int \<Rightarrow> int \<Rightarrow> 'e \<Rightarrow> 'q \<Rightarrow> 'q"
    and take_event :: "int \<Rightarrow> 'k \<Rightarrow> 'q \<Rightarrow> 'e option \<times> 'q"
    and messages :: "'q \<Rightarrow> (int \<times> 'k) set"
    and contents :: "'q \<Rightarrow> (int \<times> 'e) multiset"
    and invar :: "nat \<Rightarrow> 'q \<Rightarrow> bool"
    and cap :: nat +
  fixes listing :: "'q \<Rightarrow> (int \<times> 'e) list" and front :: "'q \<Rightarrow> int \<times> 'k"
  assumes listing_contents: "invar n q \<Longrightarrow> mset (listing q) = contents q"
    and listing_send: "invar n q \<Longrightarrow> n < cap \<Longrightarrow> \<forall>x \<in> set (listing q). fst x \<le> t + d \<Longrightarrow>
      listing (send t d e q) = listing q @ [(t + d, e)]"
    and listing_front: "invar n q \<Longrightarrow> listing q = (d, e) # xs \<Longrightarrow>
      \<exists>k q'. front q = (d, k) \<and> (d, k) \<in> messages q \<and> take_event d k q = (Some e, q')
        \<and> invar n q' \<and> listing q' = xs"
begin

lemma frontE:
  assumes "invar n q" and "listing q = (d, e) # xs"
  obtains k q' where "front q = (d, k)" "(d, k) \<in> messages q" "take_event d k q = (Some e, q')"
    "invar n q'" "listing q' = xs"
  using listing_front [OF assms] by blast

text \<open>Events sent one after another, none due before what is already there, line up behind it.\<close>

lemma listing_send_all:
  "invar n q \<Longrightarrow> n + length es \<le> cap \<Longrightarrow> sorted (map fst (listing q) @ map (\<lambda>(d, e). t + d) es) \<Longrightarrow>
   listing (fold (\<lambda>(d, e). send t d e) es q) = listing q @ map (\<lambda>(d, e). (t + d, e)) es"
proof (induction es arbitrary: n q)
  case (Cons x es)
  obtain d e where x: "x = (d, e)" by (cases x)
  have "\<forall>y \<in> set (listing q). fst y \<le> t + d" using Cons.prems(3) by (auto simp: x sorted_append)
  then have l: "listing (send t d e q) = listing q @ [(t + d, e)]"
    using Cons.prems(1,2) by (intro listing_send) auto
  have "invar (Suc n) (send t d e q)" and "Suc n + length es \<le> cap"
    using Cons.prems(1,2) send(1) by simp_all
  then show ?case using Cons.IH [of "Suc n" "send t d e q"] Cons.prems(3) by (simp add: x l)
qed simp

end

section \<open>The poker's mailbox in order\<close>

definition by_due :: "(int \<times> 'a) list \<Rightarrow> (int \<times> 'a) list" where
  "by_due ms = sort_key fst ms"

definition mail :: "poker \<Rightarrow> (int \<times> queued_event) list" where
  "mail p = map (\<lambda>(d, k). (d, the (mQueuedEvents p k))) (by_due (mailbox p))"

definition front_message :: "poker \<Rightarrow> int \<times> u32" where
  "front_message p = hd (by_due (mailbox p))"

lemma by_due_simps [simp]:
  "set (by_due ms) = set ms" "mset (by_due ms) = mset ms" "by_due [] = []"
  by (simp_all add: by_due_def)

lemma by_due_last:
  assumes "\<forall>x \<in> set ms. fst x \<le> fst m"
  shows "by_due (ms @ [m]) = by_due ms @ [m]"
  unfolding by_due_def
proof (rule properties_for_sort_key)
  show "sorted (map fst (sort_key fst ms @ [m]))" using assms by (simp add: sorted_append)
  show "filter (\<lambda>x. fst k = fst x) (sort_key fst ms @ [m]) = filter (\<lambda>x. fst k = fst x) (ms @ [m])" for k
    using sort_key_stable [of fst "fst k" ms] by (simp add: eq_commute)
qed simp

lemma by_due_first:
  assumes "distinct ms" and "by_due ms = m # xs"
  shows "by_due (remove1 m ms) = xs"
proof -
  have "distinct (m # xs)" using assms by (metis by_due_def distinct_sort)
  then have "filter ((\<noteq>) m) (by_due ms) = xs" unfolding assms(2) by (auto intro!: filter_True)
  then show ?thesis
    using assms(1) by (simp add: by_due_def distinct_remove1_removeAll removeAll_filter_not_eq filter_sort)
qed

lemma mail_other:
  "k \<notin> snd ` set ms \<Longrightarrow> map (\<lambda>(d, j). (d, the ((tab(k := x)) j))) ms = map (\<lambda>(d, j). (d, the (tab j))) ms"
  by (force simp: image_iff)

lemma mail_contents:
  assumes "table_ok n p"
  shows "mset (mail p) = queued p"
proof -
  have "\<exists>e. mQueuedEvents p (snd m) = Some e" if "m \<in> set (mailbox p)" for m
    using assms that unfolding table_ok_def by (metis domD imageI list.set_map)
  then have "(\<Sum>m \<in># mset ms. event_of (mQueuedEvents p) m)
      = mset (map (\<lambda>(d, k). (d, the (mQueuedEvents p k))) ms)" if "set ms \<subseteq> set (mailbox p)" for ms
    using that by (induction ms) (fastforce simp: event_of_def)+
  from this [of "mailbox p"] show ?thesis by (simp add: mail_def queued_def)
qed

lemma mail_send:
  assumes "table_ok n p" and "\<forall>x \<in> set (mail p). fst x \<le> t + d"
  shows "mail (sendEventDelayed t d e p) = mail p @ [(t + d, e)]"
proof -
  have "mKey p \<notin> snd ` set (by_due (mailbox p))" using assms(1) by (auto simp: table_ok_def)
  moreover have "\<forall>x \<in> set (mailbox p). fst x \<le> t + d" using assms(2) by (fastforce simp: mail_def)
  ultimately show ?thesis
    using mail_other [of "mKey p" "by_due (mailbox p)" "mQueuedEvents p" "Some e"]
    by (simp add: mail_def sendEventDelayed_def generateNewKey_def by_due_last)
qed

lemma mail_front:
  assumes ok: "table_ok n p" and m: "mail p = (d, e) # xs"
  shows "\<exists>k q. front_message p = (d, k) \<and> (d, k) \<in> set (mailbox p) \<and> take_message d k p = (Some e, q)
    \<and> table_ok n q \<and> mail q = xs"
proof -
  obtain k ms where mb: "by_due (mailbox p) = (d, k) # ms" "e = the (mQueuedEvents p k)"
    "xs = map (\<lambda>(d, k). (d, the (mQueuedEvents p k))) ms"
    using m by (auto simp: mail_def)
  have "(d, k) \<in> set (by_due (mailbox p))" unfolding mb(1) by simp
  then have in_mb: "(d, k) \<in> set (mailbox p)" by simp
  obtain e' q where t: "take_message d k p = (Some e', q)" "table_ok n q" by (rule table_ok_take [OF ok in_mb])
  have dist: "distinct (map snd (mailbox p))" using ok by (simp add: table_ok_def)
  then have "distinct (map snd (by_due (mailbox p)))" by (simp add: by_due_def distinct_map)
  then have "k \<notin> snd ` set ms" unfolding mb(1) by simp
  moreover have "by_due (remove1 (d, k) (mailbox p)) = ms"
    using dist by (intro by_due_first [OF _ mb(1)]) (simp add: distinct_map)
  moreover have "q = p\<lparr>mailbox := remove1 (d, k) (mailbox p), mQueuedEvents := (mQueuedEvents p)(k := None)\<rparr>"
    and "mQueuedEvents p k = Some e'"
    using t(1) by (auto simp: take_message_def removeEventByKey_def)
  ultimately have "mail q = xs" "e' = e"
    using mail_other [of k ms "mQueuedEvents p" None] by (simp_all add: mail_def mb)
  then show ?thesis using t in_mb mb(1) by (auto simp: front_message_def)
qed

interpretation eo: event_order new_poker sendEventDelayed take_message "\<lambda>p. set (mailbox p)" queued
  table_ok key_limit mail front_message
proof unfold_locales
  show "\<exists>k q'. front_message q = (d, k) \<and> (d, k) \<in> set (mailbox q) \<and> take_message d k q = (Some e, q')
      \<and> table_ok n q' \<and> mail q' = xs"
    if "table_ok n q" "mail q = (d, e) # xs" for n q d e xs
    using that by (rule mail_front)
qed (auto simp: mail_contents mail_send)

end
