(* ===== verification/Hint_Lifecycle.thy ===== *)
theory Hint_Lifecycle
  imports Poker_Commands Poker_Drain Event_Order
begin

text \<open>
  The whole life of a hint.  \<open>common_power_hint\<close> queues requests with the poker of the HAL; the
  looper thread of that poker, whose mailbox and table are the same objects, opens the nodes,
  writes the commands and later closes the descriptors.  Here both parts run on one state, and
  what a hint does to the device is followed from the call to the end of its last request.
\<close>

section \<open>Free descriptors\<close>

definition free_slots :: "'z kernel_scheme \<Rightarrow> int list" where
  "free_slots s = filter (\<lambda>fd. fds s fd = None) (fd_slots s)"

lemma find_filter: "find P xs = (case filter P xs of [] \<Rightarrow> None | x # _ \<Rightarrow> Some x)"
  by (induction xs) simp_all

lemma free_fd_slots: "free_fd s = (case free_slots s of [] \<Rightarrow> None | fd # _ \<Rightarrow> Some fd)"
  by (simp add: free_fd_def free_slots_def find_filter)

lemma distinct_free_slots: "distinct (free_slots s)"
  by (simp add: free_slots_def fd_slots_def distinct_map)

lemma free_slots_free: "fd \<in> set (free_slots s) \<Longrightarrow> fds s fd = None"
  by (simp add: free_slots_def)

lemma free_slots_used:
  assumes "free_slots s = fd # fs" and "fds s' = (fds s)(fd \<mapsto> x)" and "fd_max s' = fd_max s"
  shows "free_slots s' = fs"
proof -
  have "free_slots s' = filter (\<lambda>x. x \<noteq> fd) (free_slots s)"
    by (auto simp: free_slots_def fd_slots_def assms(2,3) intro!: filter_cong)
  also have "\<dots> = fs" using distinct_free_slots [of s] unfolding assms(1) by (auto intro!: filter_True)
  finally show ?thesis .
qed

lemma free_slots_cong:
  "fds s' = fds s \<Longrightarrow> fd_max s' = fd_max s \<Longrightarrow> free_slots s' = free_slots s"
  by (simp add: free_slots_def fd_slots_def)

section \<open>The parts of a timed request\<close>

fun node_of :: "queued_event \<Rightarrow> string" where
  "node_of (PmQosOpenTimedEvent f v pr mx mn type timeout) = f"
| "node_of e = []"

fun lasts :: "queued_event \<Rightarrow> int" where
  "lasts (PmQosOpenTimedEvent f v pr mx mn type timeout) = timeout"
| "lasts e = 0"

fun command_of :: "queued_event \<Rightarrow> string" where
  "command_of (PmQosOpenTimedEvent f v pr mx mn type timeout) =
     (if type = NODE_TYPE_PRIORITY then createConstraintCommand COMMAND_SIZE pr mx mn
      else le_bytes (word_of_int v))"
| "command_of e = []"

fun is_timed :: "queued_event \<Rightarrow> bool" where
  "is_timed (PmQosOpenTimedEvent f v pr mx mn type timeout) = True"
| "is_timed e = False"

fun_cases is_timedE: "is_timed e"

text \<open>What a driver reads in a command: four numbers of a text, or the number in four bytes.\<close>

fun says :: "queued_event \<Rightarrow> string \<Rightarrow> bool" where
  "says (PmQosOpenTimedEvent f v pr mx mn type timeout) cmd =
     (if type = NODE_TYPE_PRIORITY then map atoi (tokens cmd) = [mx, mn, pr, 0]
      else length cmd = 4 \<and> sint (le_value cmd) = v)"
| "says e cmd = False"

text \<open>A node that opens for writing and whose driver takes whatever it is given.\<close>

definition takes_all :: "'z kernel_scheme \<Rightarrow> string \<Rightarrow> bool" where
  "takes_all s f \<longleftrightarrow> (\<exists>nd. nodes s f = Some nd \<and> n_open nd O_RDWR = None
     \<and> (\<forall>d. n_write nd d = Inr (length d)))"

lemma takes_allD:
  assumes "takes_all s f" and "free_slots s = fd # fs"
  shows "opened s f O_RDWR = Some fd" and "\<forall>d. driver_write s f d = Inr (length d)"
  using assms by (auto simp: takes_all_def opened_def open_error_def free_fd_slots driver_write_def)

section \<open>Turns of a looper that goes by the due times\<close>

definition next_message :: "pproc \<Rightarrow> int \<times> u32" where
  "next_message s = front_message (pk s)"

lemma serve_front:
  assumes "table_ok n (pk s)" and "mail (pk s) = (d, e) # xs"
  obtains q where "serve next_message s = hand_over e (exec (run_event e) (s\<lparr>now := max (now s) d, pk := q\<rparr>))"
    "table_ok n q" "mail q = xs"
proof -
  obtain k q where k: "front_message (pk s) = (d, k)" "(d, k) \<in> set (mailbox (pk s))"
    "take_message d k (pk s) = (Some e, q)" "table_ok n q" "mail q = xs"
    by (rule eo.frontE [OF assms])
  have "mQueuedEvents (pk s) k = Some e" using k(3) by (auto simp: take_message_def removeEventByKey_def)
  moreover have "mailbox (pk s) \<noteq> []" using k(2) by auto
  ultimately have "serve next_message s = hand_over e (exec (run_event e) (s\<lparr>now := max (now s) d, pk := q\<rparr>))"
    by (simp add: serve_def next_message_def k(1,3) dispatch_Some wait_for_def)
  then show ?thesis using k(4,5) that by blast
qed

text \<open>A turn that opens a request, and a turn that ends one.\<close>

lemma serve_timed:
  assumes ok: "table_ok n (pk s)" "n < key_limit" and m: "mail (pk s) = (t, e) # xs" "t \<le> now s"
    and e: "is_timed e" "takes_all s (node_of e)" and f: "free_slots s = fd # fs"
    and x: "\<forall>x \<in> set xs. fst x \<le> now s + lasts e"
  obtains q where "serve next_message s = s\<lparr>fds := (fds s)(fd \<mapsto> Node (node_of e) O_RDWR),
      wlog := wlog s @ [(node_of e, command_of e)], pk := q\<rparr>"
    "table_ok (Suc n) q" "mail q = xs @ [(now s + lasts e, TimeoutEvent fd)]"
proof -
  obtain q where q: "serve next_message s = hand_over e (exec (run_event e) (s\<lparr>now := max (now s) t, pk := q\<rparr>))"
    "table_ok n q" "mail q = xs"
    by (rule serve_front [OF ok(1) m(1)])
  have now: "max (now s) t = now s" using m(2) by simp
  from e(1) obtain g v pr mx mn type timeout where ev: "e = PmQosOpenTimedEvent g v pr mx mn type timeout"
    by (rule is_timedE)
  let ?s = "s\<lparr>now := now s, pk := q\<rparr>" and ?q = "sendEventDelayed (now s) (lasts e) (TimeoutEvent fd) q"
  have s': "takes_all ?s g" "free_slots ?s = fd # fs"
    using e(2) f by (simp_all add: ev takes_all_def free_slots_def fd_slots_def)
  have "exec (run_event e) ?s = ?s\<lparr>fds := (fds s)(fd \<mapsto> Node g O_RDWR), wlog := wlog s @ [(g, command_of e)],
      pk := ?q\<rparr>"
    by (subst run_timed_written [OF takes_allD [OF s'] ev, of "command_of e"]) (simp_all add: ev)
  then have "serve next_message s = s\<lparr>fds := (fds s)(fd \<mapsto> Node (node_of e) O_RDWR),
      wlog := wlog s @ [(node_of e, command_of e)], pk := ?q\<rparr>"
    unfolding q(1) now by (simp add: ev)
  moreover have "table_ok (Suc n) ?q" by (rule table_ok_send(1) [OF q(2) ok(2)])
  moreover have "mail ?q = xs @ [(now s + lasts e, TimeoutEvent fd)]"
    using mail_send [OF q(2)] x q(3) by simp
  ultimately show ?thesis by (rule that)
qed

lemma serve_timeout:
  assumes ok: "table_ok n (pk s)" and m: "mail (pk s) = (t, TimeoutEvent fd) # xs" and f: "fds s fd \<noteq> None"
  obtains q where "serve next_message s = s\<lparr>fds := (fds s)(fd := None), now := max (now s) t, pk := q\<rparr>"
    "table_ok n q" "mail q = xs"
proof -
  obtain q where q: "serve next_message s
      = hand_over (TimeoutEvent fd) (exec (run_event (TimeoutEvent fd)) (s\<lparr>now := max (now s) t, pk := q\<rparr>))"
    "table_ok n q" "mail q = xs"
    by (rule serve_front [OF ok m])
  have "serve next_message s = s\<lparr>fds := (fds s)(fd := None), now := max (now s) t, pk := q\<rparr>"
    unfolding q(1) using f by (clarsimp simp: timeoutRequest_def)
  then show ?thesis using q(2,3) by (rule that)
qed

section \<open>A batch of requests\<close>

text \<open>The descriptors are the lowest free ones, in the order of the requests.\<close>

definition held_nodes :: "'z kernel_scheme \<Rightarrow> queued_event list \<Rightarrow> int \<Rightarrow> ofile option" where
  "held_nodes s es = map_of (zip (free_slots s) (map (\<lambda>e. Node (node_of e) O_RDWR) es))"

definition ends_of :: "'z kernel_scheme \<Rightarrow> queued_event list \<Rightarrow> (int \<times> int) list" where
  "ends_of s es = map (\<lambda>(e, fd). (now s + lasts e, fd)) (zip es (free_slots s))"

definition ending :: "int \<times> int \<Rightarrow> int \<times> queued_event" where
  "ending x = (fst x, TimeoutEvent (snd x))"

lemma dom_held_nodes: "dom (held_nodes s es) \<subseteq> set (free_slots s)"
  by (auto simp: held_nodes_def dom_map_of_conv_image_fst dest: set_zip_leftD)

lemma held_nodes_Cons:
  assumes "free_slots s = fd # fs" and "fds s' = (fds s)(fd \<mapsto> Node (node_of e) O_RDWR)" and "fd_max s' = fd_max s"
  shows "fds s' ++ held_nodes s' es = fds s ++ held_nodes s (e # es)"
proof -
  have fs: "free_slots s' = fs" by (rule free_slots_used [OF assms])
  have "fd \<notin> dom (held_nodes s' es)"
    using dom_held_nodes [of s' es] distinct_free_slots [of s] unfolding fs assms(1) by auto
  moreover have "held_nodes s (e # es) = (held_nodes s' es)(fd \<mapsto> Node (node_of e) O_RDWR)"
    by (simp add: held_nodes_def fs assms(1))
  ultimately show ?thesis by (auto simp: assms(2) map_add_def fun_eq_iff split: option.split)
qed

lemma serve_requests:
  "table_ok n (pk s) \<Longrightarrow> n + length es \<le> key_limit \<Longrightarrow> mail (pk s) = map (Pair t) es @ xs \<Longrightarrow> t \<le> now s \<Longrightarrow>
   \<forall>e \<in> set es. is_timed e \<and> takes_all s (node_of e) \<Longrightarrow> length es \<le> length (free_slots s) \<Longrightarrow>
   sorted (map fst xs @ map (\<lambda>e. now s + lasts e) es) \<Longrightarrow> \<forall>e \<in> set es. 0 \<le> lasts e \<Longrightarrow>
   \<exists>q. (serve next_message ^^ length es) s = s\<lparr>fds := fds s ++ held_nodes s es,
       wlog := wlog s @ map (\<lambda>e. (node_of e, command_of e)) es, pk := q\<rparr>
     \<and> table_ok (n + length es) q \<and> mail q = xs @ map ending (ends_of s es)"
proof (induction es arbitrary: n s xs)
  case Nil
  have "fds s ++ held_nodes s [] = fds s" by (simp add: held_nodes_def)
  then show ?case using Nil by (intro exI [of _ "pk s"]) (simp add: ends_of_def)
next
  case (Cons e es)
  obtain fd fs where f: "free_slots s = fd # fs" using Cons.prems(6) by (cases "free_slots s") auto
  have n: "n < key_limit" using Cons.prems(2) by simp
  have e: "is_timed e" "takes_all s (node_of e)" using Cons.prems(5) by simp_all
  have m: "mail (pk s) = (t, e) # (map (Pair t) es @ xs)" using Cons.prems(3) by simp
  have "\<forall>x \<in> set xs. fst x \<le> now s + lasts e" using Cons.prems(7) by (auto simp: sorted_append)
  then have "\<forall>x \<in> set (map (Pair t) es @ xs). fst x \<le> now s + lasts e" using Cons.prems(4,8) by auto
  then obtain q where q: "serve next_message s = s\<lparr>fds := (fds s)(fd \<mapsto> Node (node_of e) O_RDWR),
      wlog := wlog s @ [(node_of e, command_of e)], pk := q\<rparr>" "table_ok (Suc n) q"
    "mail q = map (Pair t) es @ xs @ [(now s + lasts e, TimeoutEvent fd)]"
    using serve_timed [OF Cons.prems(1) n m Cons.prems(4) e f] by auto
  let ?s = "s\<lparr>fds := (fds s)(fd \<mapsto> Node (node_of e) O_RDWR), wlog := wlog s @ [(node_of e, command_of e)], pk := q\<rparr>"
  have fs: "free_slots ?s = fs" using f by (rule free_slots_used) simp_all
  have p5: "\<forall>e \<in> set es. is_timed e \<and> takes_all ?s (node_of e)" using Cons.prems(5) by (simp add: takes_all_def)
  have p7: "sorted (map fst (xs @ [(now s + lasts e, TimeoutEvent fd)]) @ map (\<lambda>e. now ?s + lasts e) es)"
    using Cons.prems(7) by (simp add: sorted_append)
  have "\<exists>q'. (serve next_message ^^ length es) ?s = ?s\<lparr>fds := fds ?s ++ held_nodes ?s es,
       wlog := wlog ?s @ map (\<lambda>e. (node_of e, command_of e)) es, pk := q'\<rparr>
     \<and> table_ok (Suc n + length es) q'
     \<and> mail q' = (xs @ [(now s + lasts e, TimeoutEvent fd)]) @ map ending (ends_of ?s es)"
    by (rule Cons.IH [OF _ _ _ _ p5 _ p7]) (use Cons.prems q f fs in simp_all)
  then obtain q' where q': "(serve next_message ^^ length es) ?s = ?s\<lparr>fds := fds ?s ++ held_nodes ?s es,
       wlog := wlog ?s @ map (\<lambda>e. (node_of e, command_of e)) es, pk := q'\<rparr>"
     "table_ok (Suc n + length es) q'"
     "mail q' = (xs @ [(now s + lasts e, TimeoutEvent fd)]) @ map ending (ends_of ?s es)" by blast
  have h: "fds ?s ++ held_nodes ?s es = fds s ++ held_nodes s (e # es)" by (rule held_nodes_Cons [OF f]) simp_all
  have "(serve next_message ^^ length (e # es)) s = (serve next_message ^^ length es) ?s"
    by (simp only: list.size funpow_Suc_right comp_apply q(1) One_nat_def add_Suc_right add_0_right)
  then show ?case
    using q' fs f unfolding h by (intro exI [of _ q']) (simp add: ends_of_def ending_def)
qed

lemma serve_endings:
  "table_ok n (pk s) \<Longrightarrow> mail (pk s) = map ending xs \<Longrightarrow> distinct (map snd xs) \<Longrightarrow> \<forall>x \<in> set xs. fds s (snd x) \<noteq> None \<Longrightarrow>
   \<exists>q. (serve next_message ^^ length xs) s = s\<lparr>fds := (\<lambda>fd. if fd \<in> snd ` set xs then None else fds s fd),
       now := fold max (map fst xs) (now s), pk := q\<rparr>
     \<and> table_ok n q \<and> mail q = []"
proof (induction xs arbitrary: s)
  case Nil
  then show ?case by (intro exI [of _ "pk s"]) simp
next
  case (Cons x xs)
  obtain t fd where x: "x = (t, fd)" by (cases x)
  have m: "mail (pk s) = (t, TimeoutEvent fd) # map ending xs" using Cons.prems(2) by (simp add: x ending_def)
  have f: "fds s fd \<noteq> None" using Cons.prems(4) by (simp add: x)
  obtain q where q: "serve next_message s = s\<lparr>fds := (fds s)(fd := None), now := max (now s) t, pk := q\<rparr>"
    "table_ok n q" "mail q = map ending xs"
    by (rule serve_timeout [OF Cons.prems(1) m f])
  let ?s = "s\<lparr>fds := (fds s)(fd := None), now := max (now s) t, pk := q\<rparr>"
  have p4: "\<forall>x \<in> set xs. fds ?s (snd x) \<noteq> None" using Cons.prems(3,4) by (auto simp: x image_iff)
  have "\<exists>q'. (serve next_message ^^ length xs) ?s = ?s\<lparr>fds := (\<lambda>fd. if fd \<in> snd ` set xs then None else fds ?s fd),
       now := fold max (map fst xs) (now ?s), pk := q'\<rparr> \<and> table_ok n q' \<and> mail q' = []"
    by (rule Cons.IH [OF _ _ _ p4]) (use Cons.prems q in simp_all)
  then obtain q' where q': "(serve next_message ^^ length xs) ?s
      = ?s\<lparr>fds := (\<lambda>fd. if fd \<in> snd ` set xs then None else fds ?s fd), now := fold max (map fst xs) (now ?s), pk := q'\<rparr>"
    "table_ok n q'" "mail q' = []" by blast
  have "(serve next_message ^^ length (x # xs)) s = (serve next_message ^^ length xs) ?s"
    by (simp only: list.size funpow_Suc_right comp_apply q(1) One_nat_def add_Suc_right add_0_right)
  then show ?case
    using q' by (intro exI [of _ q']) (simp add: x fun_eq_iff max.commute)
qed

lemma fold_max_sorted: "sorted (x # xs) \<Longrightarrow> fold max xs x = last (x # xs)" for xs :: "int list"
  by (induction xs arbitrary: x) (simp_all add: max.absorb2)

lemma undo_held: "dom g \<subseteq> {x. f x = None} \<Longrightarrow> (\<lambda>x. if x \<in> dom g then None else (f ++ g) x) = f"
  by (force simp: fun_eq_iff map_add_def split: option.split)

lemma snd_ends_of: "length es \<le> length (free_slots s) \<Longrightarrow> map snd (ends_of s es) = take (length es) (free_slots s)"
  by (simp add: ends_of_def map_snd_zip_take split_def comp_def)

lemma fst_ends_of: "length es \<le> length (free_slots s) \<Longrightarrow> map fst (ends_of s es) = map (\<lambda>e. now s + lasts e) es"
  by (auto simp: ends_of_def intro!: nth_equalityI)

lemma dom_held: "length es \<le> length (free_slots s) \<Longrightarrow> dom (held_nodes s es) = snd ` set (ends_of s es)"
  by (simp add: held_nodes_def dom_map_of_conv_image_fst flip: set_map)
    (simp add: snd_ends_of map_fst_zip_take)

text \<open>All requests of a batch are opened, then all of them are ended.\<close>

lemma serve_batch:
  assumes ok: "table_ok n (pk s)" "n + length es \<le> key_limit" and m: "mail (pk s) = map (Pair (now s)) es"
    and es: "\<forall>e \<in> set es. is_timed e \<and> takes_all s (node_of e)" "length es \<le> length (free_slots s)"
    and l: "sorted (map lasts es)" "\<forall>e \<in> set es. 0 \<le> lasts e"
  obtains q q' where
    "(serve next_message ^^ length es) s = s\<lparr>fds := fds s ++ held_nodes s es,
       wlog := wlog s @ map (\<lambda>e. (node_of e, command_of e)) es, pk := q\<rparr>"
    "mail q = map ending (ends_of s es)"
    "(serve next_message ^^ length es) ((serve next_message ^^ length es) s)
       = s\<lparr>wlog := wlog s @ map (\<lambda>e. (node_of e, command_of e)) es,
           now := now s + (if es = [] then 0 else lasts (last es)), pk := q'\<rparr>"
    "table_ok (n + length es) q'" "mail q' = []"
proof -
  have so: "sorted (map fst [] @ map (\<lambda>e. now s + lasts e) es)" using l(1) by (simp add: sorted_map)
  have m': "mail (pk s) = map (Pair (now s)) es @ []" using m by simp
  obtain q where q: "(serve next_message ^^ length es) s = s\<lparr>fds := fds s ++ held_nodes s es,
       wlog := wlog s @ map (\<lambda>e. (node_of e, command_of e)) es, pk := q\<rparr>"
     "table_ok (n + length es) q" "mail q = map ending (ends_of s es)"
    using serve_requests [OF ok m' order_refl es so l(2)] by auto
  let ?t = "s\<lparr>fds := fds s ++ held_nodes s es, wlog := wlog s @ map (\<lambda>e. (node_of e, command_of e)) es, pk := q\<rparr>"
  have len: "length (ends_of s es) = length es" using es(2) by (simp add: ends_of_def)
  have d: "distinct (map snd (ends_of s es))" using distinct_free_slots [of s] by (simp add: snd_ends_of es(2))
  have o: "\<forall>x \<in> set (ends_of s es). fds ?t (snd x) \<noteq> None"
    using dom_held [OF es(2)] by (auto simp: dom_def)
  obtain q' where q': "(serve next_message ^^ length (ends_of s es)) ?t
      = ?t\<lparr>fds := (\<lambda>fd. if fd \<in> snd ` set (ends_of s es) then None else fds ?t fd),
        now := fold max (map fst (ends_of s es)) (now ?t), pk := q'\<rparr>"
     "table_ok (n + length es) q'" "mail q' = []"
    using serve_endings [of "n + length es" ?t "ends_of s es"] q(2,3) d o by auto
  have ft: "fds ?t = fds s ++ held_nodes s es" by simp
  have "dom (held_nodes s es) \<subseteq> {x. fds s x = None}" using dom_held_nodes free_slots_free by blast
  then have f: "(\<lambda>fd. if fd \<in> snd ` set (ends_of s es) then None else fds ?t fd) = fds s"
    using undo_held [of "held_nodes s es" "fds s"] unfolding ft dom_held [OF es(2)] by simp
  have "sorted (now s # map (\<lambda>e. now s + lasts e) es)" using so l(2) by simp
  from fold_max_sorted [OF this]
  have t: "fold max (map fst (ends_of s es)) (now ?t) = now s + (if es = [] then 0 else lasts (last es))"
    by (simp add: fst_ends_of es(2) last_map)
  have "?t\<lparr>fds := fds s, now := now s + (if es = [] then 0 else lasts (last es)), pk := q'\<rparr>
      = s\<lparr>wlog := wlog s @ map (\<lambda>e. (node_of e, command_of e)) es,
          now := now s + (if es = [] then 0 else lasts (last es)), pk := q'\<rparr>" by simp
  then show ?thesis using that [OF q(1,3) _ q'(2,3)] q'(1) unfolding q(1) f t len by simp
qed

section \<open>The HAL and its looper on one state\<close>

text \<open>
  The process seen from the looper of poker \<open>i\<close>, and the HAL after the looper has changed it.  The
  HAL makes no handles, so what belongs to waiting calls is empty.  A looper that has crashed has
  called a method of an event that is not there, which is undefined.
\<close>

definition looper_view :: "nat \<Rightarrow> hal \<Rightarrow> pproc" where
  "looper_view i s = psys.extend
     (kernel.extend (kernel.truncate s) (psys.fields (pokers s ! i) Map.empty (\<lambda>_. False) (\<lambda>_. True)))
     (pproc.fields Polling {})"

definition put_back :: "nat \<Rightarrow> pproc \<Rightarrow> hal \<Rightarrow> hal" where
  "put_back i v s = kernel.extend (kernel.truncate v)
     (kernel.more (s\<lparr>pokers := (pokers s)[i := pk v], undef := undef s \<or> pc v = Crashed\<rparr>))"

definition looper_turns :: "nat \<Rightarrow> nat \<Rightarrow> hal \<Rightarrow> hal" where
  "looper_turns i m s = put_back i ((serve next_message ^^ m) (looper_view i s)) s"

lemmas view_defs = looper_view_def put_back_def kernel.defs psys.defs pproc.defs

lemma looper_view_simps [simp]:
  "pk (looper_view i s) = pokers s ! i" "fds (looper_view i s) = fds s" "now (looper_view i s) = now s"
  "wlog (looper_view i s) = wlog s" "nodes (looper_view i s) = nodes s" "fd_max (looper_view i s) = fd_max s"
  "takes_all (looper_view i s) = takes_all s" "free_slots (looper_view i s) = free_slots s"
  "held_nodes (looper_view i s) es = held_nodes s es" "ends_of (looper_view i s) es = ends_of s es"
  by (simp_all add: view_defs takes_all_def free_slots_def fd_slots_def held_nodes_def ends_of_def fun_eq_iff)

lemma put_back_upd:
  "put_back i ((looper_view i s)\<lparr>fds := F, wlog := l, now := t, pk := q\<rparr>) s
     = s\<lparr>fds := F, wlog := l, now := t, pokers := (pokers s)[i := q]\<rparr>"
  by (cases s) (simp add: view_defs)

lemma looper_view_put_back:
  assumes "i < length (pokers s)" and "pc v = Polling" and "clients v = {}" and "outFds v = Map.empty"
    and "dones v = (\<lambda>_. False)" and "addFd_ok v = (\<lambda>_. True)"
  shows "looper_view i (put_back i v s) = v"
  using assms by (cases s; cases v) (simp add: view_defs)

section \<open>From the call to the end of the last request\<close>

lemma plan_shape:
  assumes "e \<in> set (hint_plan B H p hint data)"
    and "int32 (interaction_boost_frequency p)" and "int32 (animation_boost_frequency p)"
  shows "is_timed e" and "0 < lasts e" and "says e (command_of e)"
proof -
  from plan_events [OF assms] have "is_timed e \<and> 0 < lasts e \<and> says e (command_of e)"
  proof (elim disjE exE conjE)
    fix f mn t assume e: "e = timed_event_priority f 35 (- 1) mn t" and m: "int32 mn" "0 < t"
    show ?thesis
      using m command_whole [OF command_fits [OF m(1), of 35]]
      by (simp add: e timed_event_priority_def tokens_command atoi_command)
  next
    fix f v t assume e: "e = timed_event f v t" and m: "int32 v" "0 < t"
    show ?thesis using m(2) sint_le_value [OF m(1)] by (simp add: e timed_event_def)
  qed
  then show "is_timed e" and "0 < lasts e" and "says e (command_of e)" by simp_all
qed

lemma plan_lasts_sorted: "sorted (map lasts (hint_plan B H p hint data))"
  by (simp add: hint_plan_def interaction_plan_def cpu_boost_plan_def audio_plan_def low_power_plan_def
      timed_event_priority_def timed_event_def)

lemma mail_push_all:
  assumes "table_ok n p" and "n + length es \<le> key_limit" and "mailbox p = []"
  shows "mail (push_all t es p) = map (Pair t) es"
proof -
  have m: "mail p = []" using assms(3) by (simp add: mail_def)
  have "sorted (map fst (mail p) @ map (\<lambda>(d, e). t + d) (map (Pair 0) es))"
    by (simp add: m comp_def sorted_map split_def)
  from eo.listing_send_all [OF assms(1) _ this] assms(2) show ?thesis
    by (simp add: push_all_def pushEvent_fun fold_map comp_def split_def m)
qed

text \<open>The whole batch on the state of the HAL.\<close>

lemma looper_batch:
  assumes ok: "table_ok n (pokers s ! i)" "n + length es \<le> key_limit" "i < length (pokers s)"
    and m: "mail (pokers s ! i) = map (Pair (now s)) es"
    and es: "\<forall>e \<in> set es. is_timed e \<and> takes_all s (node_of e)" "length es \<le> length (free_slots s)"
    and l: "sorted (map lasts es)" "\<forall>e \<in> set es. 0 \<le> lasts e"
  obtains q q' where
    "looper_turns i (length es) s = s\<lparr>fds := fds s ++ held_nodes s es,
       wlog := wlog s @ map (\<lambda>e. (node_of e, command_of e)) es, pokers := (pokers s)[i := q]\<rparr>"
    "mail q = map ending (ends_of s es)"
    "looper_turns i (length es) (looper_turns i (length es) s)
       = s\<lparr>wlog := wlog s @ map (\<lambda>e. (node_of e, command_of e)) es,
           now := now s + (if es = [] then 0 else lasts (last es)), pokers := (pokers s)[i := q']\<rparr>"
    "mailbox q' = []"
proof -
  let ?v = "looper_view i s" and ?w = "wlog s @ map (\<lambda>e. (node_of e, command_of e)) es"
  let ?t = "now s + (if es = [] then 0 else lasts (last es))"
  obtain q q' where q:
    "(serve next_message ^^ length es) ?v = ?v\<lparr>fds := fds ?v ++ held_nodes ?v es,
       wlog := wlog ?v @ map (\<lambda>e. (node_of e, command_of e)) es, pk := q\<rparr>"
    "mail q = map ending (ends_of ?v es)"
    "(serve next_message ^^ length es) ((serve next_message ^^ length es) ?v)
       = ?v\<lparr>wlog := wlog ?v @ map (\<lambda>e. (node_of e, command_of e)) es,
           now := now ?v + (if es = [] then 0 else lasts (last es)), pk := q'\<rparr>"
    "table_ok (n + length es) q'" "mail q' = []"
    by (rule serve_batch [of n ?v es]) (use assms in simp_all)
  let ?u = "?v\<lparr>fds := fds s ++ held_nodes s es, wlog := ?w, now := now s, pk := q\<rparr>"
  have u: "(serve next_message ^^ length es) ?v = ?u" by (simp add: q(1))
  have vb: "looper_view i (put_back i ?u s) = ?u"
    by (rule looper_view_put_back [OF ok(3)]) (simp_all add: view_defs)
  have r1: "looper_turns i (length es) s = s\<lparr>fds := fds s ++ held_nodes s es, wlog := ?w, now := now s,
      pokers := (pokers s)[i := q]\<rparr>"
    unfolding looper_turns_def u by (rule put_back_upd)
  have r2: "looper_turns i (length es) (looper_turns i (length es) s)
      = put_back i (?v\<lparr>fds := fds s, wlog := ?w, now := ?t, pk := q'\<rparr>) (put_back i ?u s)"
    unfolding looper_turns_def u vb using q(3) unfolding u by (simp add: view_defs)
  have r3: "put_back i (?v\<lparr>fds := fds s, wlog := ?w, now := ?t, pk := q'\<rparr>) (put_back i ?u s)
      = s\<lparr>fds := fds s, wlog := ?w, now := ?t, pokers := (pokers s)[i := q']\<rparr>"
    by (cases s) (simp add: view_defs)
  have mb: "mailbox q' = []" using q(5) by (simp add: mail_def) (metis by_due_simps(2) mset_zero_iff)
  have r4: "looper_turns i (length es) (looper_turns i (length es) s)
      = s\<lparr>wlog := ?w, now := ?t, pokers := (pokers s)[i := q']\<rparr>"
    unfolding r2 r3 by simp
  have r5: "looper_turns i (length es) s = s\<lparr>fds := fds s ++ held_nodes s es, wlog := ?w, pokers := (pokers s)[i := q]\<rparr>"
    unfolding r1 by simp
  show ?thesis using that [OF r5 _ r4 mb] q(2) by simp
qed

text \<open>
  C4. The whole life of a hint.  An accepted hint comes to a HAL whose looper has nothing to do.  As
  many turns later as the hint has requests, the driver of every node has been given one command per
  request, in the order of the plan, each of which says what the request asks for; the nodes are
  open under the lowest free descriptors, and each is to be closed when its own time is over.  As
  many turns later again every descriptor is closed, the looper has nothing left to do, and the
  longest request has just ended.
\<close>

theorem hint_carried_out:
  assumes "hints_ok H" and "pInfo s = Some p" and "mTimeoutPoker p = Some i" and "i < length (pokers s)"
    and "B \<noteq> T210 \<or> hint \<noteq> POWER_HINT_LOW_POWER H" and "result (check_hint H hint) s \<noteq> None"
    and "int32 (interaction_boost_frequency p)" and "int32 (animation_boost_frequency p)"
    and "table_ok n (pokers s ! i)" and "mailbox (pokers s ! i) = []"
    and "es = hint_plan B H p hint data" and "n + 2 * length es \<le> key_limit"
    and "\<forall>e \<in> set es. takes_all s (node_of e)" and "length es \<le> length (free_slots s)"
    and "s1 = exec (common_power_hint B H hint data) s"
    and "s2 = looper_turns i (length es) s1" and "s3 = looper_turns i (length es) s2"
  shows "wlog s2 = wlog s1 @ map (\<lambda>e. (node_of e, command_of e)) es
    \<and> (\<forall>e \<in> set es. says e (command_of e))
    \<and> fds s2 = fds s ++ map_of (zip (free_slots s) (map (\<lambda>e. Node (node_of e) O_RDWR) es))
    \<and> mail (pokers s2 ! i) = map (\<lambda>(e, fd). (now s + lasts e, TimeoutEvent fd)) (zip es (free_slots s))
    \<and> fds s3 = fds s \<and> wlog s3 = wlog s2 \<and> mailbox (pokers s3 ! i) = []
    \<and> now s3 = now s + (if es = [] then 0 else lasts (last es))"
proof -
  obtain t where t: "result (check_hint H hint) s = Some t" using assms(6) by auto
  obtain l err u where s1: "s1 = s\<lparr>wlog := l, errno := err, undef := u, pokers := (pokers s)[i := push_all (now s) es (pokers s ! i)],
      pInfo := Some (p\<lparr>hint_time := (hint_time p)(hint := t)\<rparr>)\<rparr>"
    using common_power_hint_effect [OF assms(1-5), of data] unfolding t assms(11,15) by auto
  have f: "free_slots s1 = free_slots s" "takes_all s1 = takes_all s" "fds s1 = fds s" "now s1 = now s"
    by (simp_all add: s1 free_slots_def fd_slots_def takes_all_def fun_eq_iff)
  have len: "n + length es \<le> key_limit" "n + length es + length es \<le> key_limit" using assms(12) by simp_all
  have pk: "pokers s1 ! i = push_all (now s) es (pokers s ! i)" "i < length (pokers s1)" using assms(4) by (simp_all add: s1)
  have ok: "table_ok (n + length es) (pokers s1 ! i)" using push_all_bag [OF assms(9) len(1)] by (simp add: pk)
  have m: "mail (pokers s1 ! i) = map (Pair (now s1)) es"
    using mail_push_all [OF assms(9) len(1) assms(10)] by (simp add: pk f)
  note shape = plan_shape [OF _ assms(7,8)]
  have es: "\<forall>e \<in> set es. is_timed e \<and> takes_all s1 (node_of e)" "\<forall>e \<in> set es. 0 \<le> lasts e"
    "\<forall>e \<in> set es. says e (command_of e)"
    using shape assms(13) unfolding assms(11) f by (auto intro: less_imp_le)
  have so: "sorted (map lasts es)" unfolding assms(11) by (rule plan_lasts_sorted)
  have fr: "length es \<le> length (free_slots s1)" using assms(14) by (simp add: f)
  obtain q q' where q: "s2 = s1\<lparr>fds := fds s1 ++ held_nodes s1 es,
       wlog := wlog s1 @ map (\<lambda>e. (node_of e, command_of e)) es, pokers := (pokers s1)[i := q]\<rparr>"
    "mail q = map ending (ends_of s1 es)"
    "s3 = s1\<lparr>wlog := wlog s1 @ map (\<lambda>e. (node_of e, command_of e)) es,
           now := now s1 + (if es = [] then 0 else lasts (last es)), pokers := (pokers s1)[i := q']\<rparr>"
    "mailbox q' = []"
    unfolding assms(16,17) by (rule looper_batch [OF ok len(2) pk(2) m es(1) fr so es(2)])
  have h: "held_nodes s1 es = map_of (zip (free_slots s) (map (\<lambda>e. Node (node_of e) O_RDWR) es))"
    "map ending (ends_of s1 es) = map (\<lambda>(e, fd). (now s + lasts e, TimeoutEvent fd)) (zip es (free_slots s))"
    by (auto simp: held_nodes_def ends_of_def ending_def f)
  have "pokers s2 ! i = q" "pokers s3 ! i = q'" using pk(2) by (simp_all add: q(1,3))
  then show ?thesis using es(3) q(2,4) unfolding h by (simp add: q(1,3) f h(1))
qed

definition boost_hal :: hal where
  "boost_hal = demo_hal\<lparr>nodes := [PMQOS_CONSTRAINT_CPU_FREQ \<mapsto> plain_node [], PMQOS_CONSTRAINT_ONLINE_CPUS \<mapsto> plain_node [],
     PMQOS_CONSTRAINT_GPU_FREQ \<mapsto> plain_node [], ''/dev/emc_freq_min'' \<mapsto> plain_node []]\<rparr>"

theorem hint_carried_out_witness:
  "fds (looper_turns 0 4 (exec (common_power_hint K1 cm_hints 16 False) boost_hal)) 6
     = Some (Node ''/dev/emc_freq_min'' O_RDWR)
   \<and> fds (looper_turns 0 4 (looper_turns 0 4 (exec (common_power_hint K1 cm_hints 16 False) boost_hal))) = std_fds"
proof -
  let ?p = "set_intervals cm_hints demo_info"
  have h: "hint_plan K1 cm_hints ?p 16 False = cpu_boost_plan"
    by (simp add: hint_plan_def cm_hints_def)
  have len: "length cpu_boost_plan = 4" by (simp add: cpu_boost_plan_def)
  have c: "result (check_hint cm_hints 16) boost_hal \<noteq> None"
    by (simp add: check_hint_result MAX_POWER_HINT_COUNT_def cm_hints_def info_def set_intervals_def
        demo_info_def boost_hal_def)
  have i: "pInfo boost_hal = Some ?p" "mTimeoutPoker ?p = Some 0" "0 < length (pokers boost_hal)"
    "K1 \<noteq> T210 \<or> 16 \<noteq> POWER_HINT_LOW_POWER cm_hints"
    "int32 (interaction_boost_frequency ?p)" "int32 (animation_boost_frequency ?p)"
    "table_ok 0 (pokers boost_hal ! 0)" "mailbox (pokers boost_hal ! 0) = []"
    by (simp_all add: boost_hal_def set_intervals_def demo_info_def int32_def eq.empty(1)) (simp add: new_poker_def)
  have fr: "free_slots boost_hal = [3, 4, 5, 6, 7]"
    by (simp add: free_slots_def fd_slots_def boost_hal_def demo_hal_def kernel.defs plain_kernel_def std_fds_def upt_rec)
  have ta: "\<forall>e \<in> set cpu_boost_plan. takes_all boost_hal (node_of e)"
    by (simp add: cpu_boost_plan_def timed_event_def timed_event_priority_def takes_all_def boost_hal_def
        plain_node_def)
  have lim: "0 + 2 * length cpu_boost_plan \<le> key_limit" by (simp add: len key_limit_def)
  have "length cpu_boost_plan \<le> length (free_slots boost_hal)" by (simp add: len fr)
  from hint_carried_out [OF cm_hints_ok i(1-4) c i(5-8) h [symmetric] lim ta this refl refl refl]
  show ?thesis
    unfolding len fr
    by (simp add: cpu_boost_plan_def timed_event_def timed_event_priority_def) (simp add: boost_hal_def)
qed

end
