(* ===== verification/Hal_System.thy ===== *)
theory Hal_System
  imports Hal_Types Hint_Lifecycle
begin

text \<open>
  The power module as the power manager sees it: the table of entry points of \<open>power.cpp\<close>, calls of
  them in any order, the looper threads of the pokers that opening has started, and devices that
  change as they please.  Every reachable state is well formed, a call on a K1 or legacy build
  that is not a start is undefined only where the clock of a hint overflows, and every descriptor is
  accounted for.

  A call and a turn of a looper are single steps here; how they interleave within is the subject of
  \<open>Poker_Steps\<close>.
\<close>

section \<open>The module\<close>

text \<open>
  The entry points and the texts of the module; the tag and the versions are constants of Android's
  headers.  An entry point that may not return answers \<open>None\<close> then.
\<close>

record power_module =
  hal_name :: string
  hal_author :: string
  open_entry :: "string \<Rightarrow> (hal, int option) state"
  init_entry :: "powerhal_info \<Rightarrow> (hal, unit option) state"
  setInteractive :: "int \<Rightarrow> (hal, unit) state"
  powerHint :: "nat \<Rightarrow> bool \<Rightarrow> (hal, unit) state"
  setFeature :: "int \<Rightarrow> int \<Rightarrow> (hal, unit) state"

definition HAL_MODULE_INFO_SYM :: "string \<Rightarrow> build \<Rightarrow> bool \<Rightarrow> power_hints \<Rightarrow> nat \<Rightarrow> power_module" where
  "HAL_MODULE_INFO_SYM module_id B sata H fuel = \<lparr>
     hal_name = ''Shield Power HAL'',
     hal_author = ''The CyanogenMod Project'',
     open_entry = (\<lambda>name. shield_power_open module_id name H fuel),
     init_entry = (\<lambda>garbage. shield_power_init garbage H fuel),
     setInteractive = shield_power_set_interactive B sata,
     powerHint = shield_power_hint B H,
     setFeature = shield_set_feature\<rparr>"

datatype service_call =
    Open string
  | Init powerhal_info
  | SetInteractive int
  | PowerHint nat bool
  | SetFeature int int

text \<open>The result says whether the call returned.\<close>

fun invoke :: "power_module \<Rightarrow> service_call \<Rightarrow> (hal, bool) state" where
  "invoke M (Open name) = do { r \<leftarrow> open_entry M name; ret (r \<noteq> None) }"
| "invoke M (Init garbage) = do { r \<leftarrow> init_entry M garbage; ret (r \<noteq> None) }"
| "invoke M (SetInteractive on) = do { setInteractive M on; ret True }"
| "invoke M (PowerHint hint data) = do { powerHint M hint data; ret True }"
| "invoke M (SetFeature feature st) = do { setFeature M feature st; ret True }"


section \<open>Steps of the system\<close>

definition looper_turn :: "nat \<Rightarrow> int \<Rightarrow> u32 \<Rightarrow> hal \<Rightarrow> hal" where
  "looper_turn i d k s = put_back i (dispatch d k (looper_view i s)) s"

inductive hal_step :: "power_module \<Rightarrow> hal \<Rightarrow> hal \<Rightarrow> bool" for M where
  h_call: "result (invoke M c) s \<Longrightarrow> hal_step M s (exec (invoke M c) s)"
| h_looper: "i < length (pokers s) \<Longrightarrow> (d, k) \<in> set (mailbox (pokers s ! i)) \<Longrightarrow> d \<le> now s \<Longrightarrow>
    hal_step M s (looper_turn i d k s)"
| h_environment: "now s \<le> t \<Longrightarrow> hal_step M s (s\<lparr>nodes := N, now := t\<rparr>)"

text \<open>The start of the process: nothing is open but what the process was given.\<close>

definition hal_init :: "int set \<Rightarrow> hal \<Rightarrow> bool" where
  "hal_init D s \<longleftrightarrow> pInfo s = None \<and> pokers s = [] \<and> dev_array s = shield_input_devs \<and> \<not> undef s
     \<and> D = {fd. fds s fd \<noteq> None} \<and> (\<forall>fd \<in> D. 0 \<le> fd)"

section \<open>Well-formed states\<close>

definition poker_ok :: "nat \<Rightarrow> poker \<Rightarrow> bool" where
  "poker_ok n p \<longleftrightarrow> table_ok n p \<and> watched p = []
     \<and> (\<forall>x \<in># queued p. is_timed (snd x) \<or> (\<exists>fd. snd x = TimeoutEvent fd))"

definition pokers_fds :: "poker list \<Rightarrow> int multiset" where
  "pokers_fds ps = (\<Sum>p \<in># mset ps. queue_fds p)"

definition hal_typed :: "power_hints \<Rightarrow> nat \<Rightarrow> hal \<Rightarrow> bool" where
  "hal_typed H n s \<longleftrightarrow> map dev_name (dev_array s) = device_names \<and> (\<forall>p \<in> set (pokers s). poker_ok n p)
     \<and> (\<forall>p. pInfo s = Some p \<longrightarrow>
          (\<exists>k < length (pokers s). info_ok H k p) \<and> (undef s \<or> frequencies_ok p))"

text \<open>Every descriptor belongs to the process or to exactly one pending end of a request.\<close>

definition hal_accounted :: "int set \<Rightarrow> hal \<Rightarrow> bool" where
  "hal_accounted D s \<longleftrightarrow> (\<forall>fd. fds s fd \<noteq> None \<longrightarrow> 0 \<le> fd)
     \<and> (\<forall>fd. count (pokers_fds (pokers s)) fd + of_bool (fd \<in> D) = (of_bool (fds s fd \<noteq> None) :: nat))"

definition hal_inv :: "power_hints \<Rightarrow> int set \<Rightarrow> nat \<Rightarrow> hal \<Rightarrow> bool" where
  "hal_inv H D n s \<longleftrightarrow> hal_typed H n s \<and> hal_accounted D s"

lemma hal_accounted_fds:
  assumes "hal_accounted D s"
  shows "{fd. fds s fd \<noteq> None} = D \<union> set_mset (pokers_fds (pokers s))
    \<and> D \<inter> set_mset (pokers_fds (pokers s)) = {} \<and> (\<forall>fd. count (pokers_fds (pokers s)) fd \<le> 1)"
proof -
  have acc: "count (pokers_fds (pokers s)) fd + of_bool (fd \<in> D) = (of_bool (fds s fd \<noteq> None) :: nat)" for fd
    using assms by (simp add: hal_accounted_def)
  have "fds s fd \<noteq> None \<longleftrightarrow> fd \<in> D \<or> fd \<in># pokers_fds (pokers s)"
    and "fd \<in> D \<Longrightarrow> fd \<notin># pokers_fds (pokers s)" and "count (pokers_fds (pokers s)) fd \<le> 1" for fd
    using acc [of fd] by (auto simp: of_bool_def not_in_iff count_greater_zero_iff [symmetric]
        simp del: count_greater_zero_iff split: if_splits)
  then show ?thesis by blast
qed

lemma poker_ok_mono: "poker_ok n p \<Longrightarrow> n \<le> m \<Longrightarrow> poker_ok m p"
  using table_ok_mono by (auto simp: poker_ok_def)

lemma poker_ok_new: "poker_ok n new_poker" "queue_fds new_poker = {#}"
  using eq.empty table_ok_mono [OF eq.empty(1)]
  by (simp_all add: poker_ok_def queue_fds_def) (simp add: new_poker_def)

lemma poker_ok_send:
  assumes "poker_ok n p" and "n < key_limit" and "is_timed e \<or> (\<exists>fd. e = TimeoutEvent fd)"
  shows "poker_ok (Suc n) (sendEventDelayed t d e p)"
    and "queue_fds (sendEventDelayed t d e p) = event_fds e + queue_fds p"
  using assms eq.send [of n p t d e] queue_fds_send [of n p t d e] by (auto simp: poker_ok_def)

lemma timed_no_fds: "is_timed e \<Longrightarrow> event_fds e = {#}"
  by (auto elim: is_timedE)

lemma poker_ok_push_all:
  "poker_ok n p \<Longrightarrow> n + length es \<le> key_limit \<Longrightarrow> \<forall>e \<in> set es. is_timed e \<Longrightarrow>
   poker_ok (n + length es) (push_all t es p) \<and> queue_fds (push_all t es p) = queue_fds p"
proof (induction es arbitrary: n p)
  case (Cons e es)
  have "poker_ok (Suc n) (pushEvent t e p)" "queue_fds (pushEvent t e p) = queue_fds p"
    using poker_ok_send [of n p e t 0] Cons.prems timed_no_fds [of e] by (simp_all add: pushEvent_def)
  then show ?case using Cons.IH [of "Suc n" "pushEvent t e p"] Cons.prems by simp
qed simp

lemma poker_ok_take:
  assumes "poker_ok n p" and "(d, k) \<in> set (mailbox p)"
  obtains e q where "take_message d k p = (Some e, q)" "poker_ok n q" "queue_fds p = event_fds e + queue_fds q"
    "mQueuedEvents p k = Some e" "is_timed e \<or> (\<exists>fd. e = TimeoutEvent fd)"
proof -
  have ok: "table_ok n p" using assms(1) by (simp add: poker_ok_def)
  obtain e q where t: "take_message d k p = (Some e, q)" "table_ok n q" "queued p = add_mset (d, e) (queued q)"
    by (rule eq.take_someE [OF ok assms(2)])
  have "mQueuedEvents p k = Some e" using t(1) by (auto simp: take_message_def removeEventByKey_def)
  then show ?thesis
    using that [of e q] t watched_take [OF t(1)] assms(1) by (auto simp: poker_ok_def queue_fds_def)
qed

lemma pokers_fds_update:
  assumes "i < length ps"
  shows "pokers_fds (ps[i := q]) + queue_fds (ps ! i) = pokers_fds ps + queue_fds q"
proof -
  have "mset ps = add_mset (ps ! i) (mset ps - {#ps ! i#})" using assms by simp
  then have "pokers_fds ps = queue_fds (ps ! i) + (\<Sum>p \<in># mset ps - {#ps ! i#}. queue_fds p)"
    unfolding pokers_fds_def by (metis sum_mset.insert image_mset_add_mset)
  then show ?thesis using assms by (simp add: pokers_fds_def mset_update)
qed

lemma pokers_fds_simps [simp]: "pokers_fds [] = {#}" "pokers_fds (ps @ [p]) = pokers_fds ps + queue_fds p"
  by (simp_all add: pokers_fds_def)

section \<open>Every step keeps the invariant\<close>

lemma hal_inv_mono: "hal_inv H D n s \<Longrightarrow> n \<le> m \<Longrightarrow> hal_inv H D m s"
  using poker_ok_mono by (auto simp: hal_inv_def hal_typed_def)

lemma hal_inv_same:
  assumes "hal_inv H D n s" and "fds t = fds s" and "pokers t = pokers s" and "dev_array t = dev_array s"
    and "pInfo t = pInfo s" and "undef s \<longrightarrow> undef t"
  shows "hal_inv H D n t"
  using assms by (auto simp: hal_inv_def hal_typed_def hal_accounted_def)

lemma hal_inv_minus_one: "hal_inv H D n s \<Longrightarrow> fds s (- 1) = None"
  by (force simp: hal_inv_def hal_accounted_def)

text \<open>Starting: a poker is added, the rest of the data is set up.\<close>

lemma has_info_inv:
  assumes "hal_inv H D n s" and "has_info (fds s) (pokers s @ [q]) (info_ok H (length (pokers s))) frequencies_ok t"
    and "poker_ok m q" and "queue_fds q = {#}" and "n \<le> m"
  shows "hal_inv H D m t"
  using assms poker_ok_mono by (fastforce simp: hal_inv_def hal_typed_def hal_accounted_def has_info_def)

lemma has_info_start:
  assumes "hal_inv H D n s" and "openable p"
  shows "has_info (fds s) (pokers s) openable (\<lambda>_. True) (s\<lparr>pInfo := Some p\<rparr>)"
  using assms hal_inv_minus_one [OF assms(1)] by (auto simp: has_info_def hal_inv_def hal_typed_def)

lemma open_inv:
  assumes "hal_inv H D n s" and "hints_ok H" and "result (shield_power_open m name H fuel) s \<noteq> None"
  shows "hal_inv H D n (exec (shield_power_open m name H fuel) s)"
proof (cases "name = m \<and> pInfo s = None")
  case True
  let ?s = "s\<lparr>pInfo := Some zero_info\<rparr>"
  have e: "exec (shield_power_open m name H fuel) s = exec (common_power_open H fuel) ?s"
    using True by (auto simp: shield_power_open_def split: option.split)
  have r: "result (common_power_open H fuel) ?s \<noteq> None"
    using True assms(3) by (auto simp: shield_power_open_def split: option.splits)
  have "has_info (fds s) (pokers s) openable (\<lambda>_. True) ?s"
    by (rule has_info_start [OF assms(1)]) (simp add: openable_def zero_info_def)
  from tripleD [OF common_power_open_triple [OF assms(2)] this] r
  show ?thesis unfolding e by (intro has_info_inv [OF assms(1) _ poker_ok_new]) simp_all
next
  case False
  then have "exec (shield_power_open m name H fuel) s = s" by (auto simp: shield_power_open_def)
  then show ?thesis using assms(1) by simp
qed

lemma init_inv:
  assumes "hal_inv H D n s" and "hints_ok H" and "n < key_limit" and "result (shield_power_init g H fuel) s \<noteq> None"
  shows "hal_inv H D (Suc n) (exec (shield_power_init g H fuel) s)"
proof -
  let ?p = "(case pInfo s of None \<Rightarrow> g | Some p \<Rightarrow> p)\<lparr>input_devs := True, input_cnt := int (length shield_input_devs)\<rparr>"
  let ?s = "s\<lparr>pInfo := Some ?p\<rparr>"
  have e: "exec (shield_power_init g H fuel) s = exec (common_power_init H fuel) ?s"
    "result (shield_power_init g H fuel) s = result (common_power_init H fuel) ?s"
    by (simp_all add: shield_power_init_def set_info_def split: option.split)
  have "has_info (fds s) (pokers s) openable (\<lambda>_. True) ?s"
    by (rule has_info_start [OF assms(1)]) (simp add: openable_def device_names_def)
  from tripleD [OF common_power_init_triple [OF assms(2)] this] assms(4)
  obtain t f where h: "has_info (fds s) (pokers s @ [pushEvent t (boot_boost f) new_poker])
      (info_ok H (length (pokers s))) frequencies_ok (exec (common_power_init H fuel) ?s)"
    unfolding e by blast
  have b: "is_timed (boot_boost f)" by (simp add: boot_boost_def timed_event_priority_def)
  then show ?thesis
    using poker_ok_send [OF poker_ok_new(1) assms(3), of "boot_boost f" t 0] poker_ok_new(2) timed_no_fds [OF b]
    unfolding e(1) by (intro has_info_inv [OF assms(1) h]) (simp_all add: pushEvent_def)
qed

text \<open>The display: nothing but the log and \<open>errno\<close>.\<close>

lemma unchanged_inv: "hal_inv H D n s \<Longrightarrow> unchanged s t \<Longrightarrow> hal_inv H D n t"
  by (rule hal_inv_same) (auto simp: unchanged_def)

lemma unchanged_refl: "hal_inv H D n s \<Longrightarrow> unchanged s s"
  using hal_inv_minus_one by (simp add: unchanged_def)

lemma keeps_sata_steps: "keeps (unchanged s) (sata_steps ps)"
proof -
  have "\<exists>e l. exec (sata_steps ps) t = t\<lparr>wlog := l, errno := e\<rparr>" for t :: hal
    using sata_steps_effect [of t ps] by (auto simp: same_but_errno_def)
  then show ?thesis unfolding triple_def by (metis un.quiet_errno un.quiet_wlog)
qed

lemma keeps_shield_set_interactive: "keeps (unchanged s) (shield_power_set_interactive B sata on)"
proof -
  have disk: "keeps (unchanged s) (if on \<noteq> 0 then hdd_disable_standby_timer else hdd_set_standby_timer HDD_STANDBY_TIMEOUT)"
    unfolding hdd_disable_standby_timer_def hdd_set_standby_timer_def
    by (intro triple_if keeps_sata_steps triple_ret)
  show ?thesis unfolding shield_power_set_interactive_def
    by (intro triple_seq [OF un.keeps_set_interactive] triple_if triple_seq [OF un.keeps_k_access]
        triple_seq [OF disk] triple_ret)
qed

text \<open>Hints: at most five requests with the poker in use.\<close>

lemma plan_timed: "\<forall>e \<in> set (hint_plan B H p hint data). is_timed e" and plan_length: "length (hint_plan B H p hint data) \<le> 5"
  by (auto simp: hint_plan_def interaction_plan_def cpu_boost_plan_def audio_plan_def low_power_plan_def
      timed_event_priority_def timed_event_def)

lemma info_ok_time: "info_ok H k (p\<lparr>hint_time := x\<rparr>) = info_ok H k p" "frequencies_ok (p\<lparr>hint_time := x\<rparr>) = frequencies_ok p"
  by (simp_all add: info_ok_def inputs_ok_def intervals_ok_def frequencies_ok_def)

lemma requests_inv:
  assumes inv: "hal_inv H D n s" and p: "pInfo s = Some p" and i: "mTimeoutPoker p = Some i" "i < length (pokers s)"
    and es: "n + length es \<le> key_limit" "\<forall>e \<in> set es. is_timed e"
    and t: "t = s\<lparr>wlog := l, errno := e, pokers := (pokers s)[i := push_all d es (pokers s ! i)]\<rparr>"
  shows "hal_inv H D (n + length es) t"
proof -
  have ok: "\<forall>q \<in> set (pokers s). poker_ok n q" using inv by (simp add: hal_inv_def hal_typed_def)
  then have "poker_ok n (pokers s ! i)" using i(2) by simp
  from poker_ok_push_all [OF this es, of d]
  have q: "poker_ok (n + length es) (push_all d es (pokers s ! i))"
    "queue_fds (push_all d es (pokers s ! i)) = queue_fds (pokers s ! i)" by simp_all
  have "\<forall>q \<in> set (pokers t). poker_ok (n + length es) q"
    using ok q(1) poker_ok_mono [of n _ "n + length es"] by (auto simp: t dest!: set_update_subset_insert [THEN subsetD])
  moreover have "pokers_fds (pokers t) = pokers_fds (pokers s)"
    using pokers_fds_update [OF i(2), of "push_all d es (pokers s ! i)"] q(2) by (simp add: t)
  ultimately show ?thesis
    using inv p unfolding hal_inv_def hal_typed_def hal_accounted_def by (simp add: t)
qed

lemma actions_inv:
  assumes inv: "hal_inv H D n s" and H: "hints_ok H" and n: "n + 5 \<le> key_limit" and p: "pInfo s = Some p"
  shows "hal_inv H D (n + 5) (exec (hint_actions B H hint data) s)"
    and "pInfo (exec (hint_actions B H hint data) s) = Some p"
    and "B \<noteq> T210 \<Longrightarrow> undef (exec (hint_actions B H hint data) s) = undef s"
proof -
  obtain i where i: "mTimeoutPoker p = Some i" "i < length (pokers s)"
    using inv p by (auto simp: hal_inv_def hal_typed_def info_ok_def)
  let ?t = "exec (hint_actions B H hint data) s" and ?es = "hint_plan B H p hint data"
  have "hal_inv H D (n + 5) ?t \<and> pInfo ?t = Some p \<and> (B \<noteq> T210 \<longrightarrow> undef ?t = undef s)"
  proof (cases "B \<noteq> T210 \<or> hint \<noteq> POWER_HINT_LOW_POWER H")
    case True
    from hint_actions_effect [OF H p i this, of data] obtain e l where
      e: "?t = s\<lparr>wlog := l, errno := e, pokers := (pokers s)[i := push_all (now s) ?es (pokers s ! i)]\<rparr>" by blast
    have len: "n + length ?es \<le> key_limit" using plan_length [of B H p hint data] n by linarith
    have "hal_inv H D (n + length ?es) ?t" by (rule requests_inv [OF inv p i len plan_timed e])
    then have "hal_inv H D (n + 5) ?t" by (rule hal_inv_mono) (simp add: plan_length)
    then show ?thesis using p by (simp add: e)
  next
    case False
    then have "?t = exec (set_power_mode_hint (if data then 2 else 0)) s"
      using H by (auto simp: hint_actions_def hint_low_power_def hints_ok_def)
    then have u: "unchanged s ?t" using tripleD [OF un.keeps_mode_hint unchanged_refl [OF inv]] by simp
    then show ?thesis using hal_inv_mono [OF unchanged_inv [OF inv u]] p False by (simp add: unchanged_def)
  qed
  then show "hal_inv H D (n + 5) ?t" "pInfo ?t = Some p" "B \<noteq> T210 \<Longrightarrow> undef ?t = undef s" by simp_all
qed

lemma note_inv:
  assumes "hal_inv H D n s" and "pInfo s = Some p" and "hint < MAX_POWER_HINT_COUNT H"
  shows "hal_inv H D n (exec (note_hint H hint t) s)" and "pInfo (exec (note_hint H hint t) s) \<noteq> None"
    and "undef (exec (note_hint H hint t) s) = undef s"
  using assms note_hint_effect [OF assms(3,2), of t]
  by (auto simp: hal_inv_def hal_typed_def hal_accounted_def info_ok_time)

lemma hint_inv:
  assumes inv: "hal_inv H D n s" and H: "hints_ok H" and n: "n + 5 \<le> key_limit"
  shows "hal_inv H D (n + 5) (exec (common_power_hint B H hint data) s)"
    and "pInfo s \<noteq> None \<Longrightarrow> pInfo (exec (common_power_hint B H hint data) s) \<noteq> None"
    and "B \<noteq> T210 \<Longrightarrow> undef (exec (common_power_hint B H hint data) s)
      = (undef s \<or> (hint < MAX_POWER_HINT_COUNT H \<and> pInfo s \<noteq> None) \<and> \<not> clock_defined (now s))"
proof -
  let ?t = "exec (common_power_hint B H hint data) s"
  let ?s = "s\<lparr>undef := undef s \<or> hint < MAX_POWER_HINT_COUNT H \<and> \<not> clock_defined (now s)\<rparr>"
  have inv': "hal_inv H D n ?s" by (rule hal_inv_same [OF inv]) simp_all
  have "hal_inv H D (n + 5) ?t \<and> (pInfo s \<noteq> None \<longrightarrow> pInfo ?t \<noteq> None) \<and> (B \<noteq> T210 \<longrightarrow> undef ?t
      = (undef s \<or> (hint < MAX_POWER_HINT_COUNT H \<and> pInfo s \<noteq> None) \<and> \<not> clock_defined (now s)))"
  proof (cases "pInfo s")
    case None
    then have "?t = s" by (simp add: common_power_hint_def)
    then show ?thesis using None hal_inv_mono [OF inv, of "n + 5"] by simp
  next
    case p: (Some p)
    show ?thesis
    proof (cases "result (check_hint H hint) s")
      case None
      then have "?t = ?s" using p by (simp add: common_power_hint_def)
      then show ?thesis using p hal_inv_mono [OF inv', of "n + 5"] by simp
    next
      case (Some t)
      then have h: "hint < MAX_POWER_HINT_COUNT H" by (auto simp: check_hint_result split: if_splits)
      have e: "?t = exec (note_hint H hint t) (exec (hint_actions B H hint data) ?s)"
        using Some p by (simp add: common_power_hint_def)
      have p': "pInfo ?s = Some p" using p by simp
      note a = actions_inv [OF inv' H n p', of B hint data]
      note b = note_inv [OF a(1,2) h, of t]
      show ?thesis unfolding e using b a(3) h p by simp
    qed
  qed
  then show "hal_inv H D (n + 5) ?t" "pInfo s \<noteq> None \<Longrightarrow> pInfo ?t \<noteq> None"
    "B \<noteq> T210 \<Longrightarrow> undef ?t = (undef s \<or> (hint < MAX_POWER_HINT_COUNT H \<and> pInfo s \<noteq> None) \<and> \<not> clock_defined (now s))"
    by simp_all
qed

text \<open>A turn of a looper: a descriptor more, with its end pending, or one less, or neither.\<close>

lemma put_back_turn:
  "put_back i ((looper_view i s)\<lparr>fds := F, wlog := l, errno := e, pk := q\<rparr>) s
     = s\<lparr>fds := F, wlog := l, errno := e, pokers := (pokers s)[i := q]\<rparr>"
  by (cases s) (simp add: view_defs)

lemma opened_view [simp]: "opened (looper_view i s) = opened s"
  by (auto simp: fun_eq_iff opened_def open_error_def free_fd_def fd_slots_def view_defs split: option.split)

lemma turn_timed:
  assumes e: "is_timed ev" and ok: "poker_ok n q" "n < key_limit"
    and turn: "t = put_back i (hand_over ev (exec (run_event ev) ((looper_view i s)\<lparr>pk := q\<rparr>))) s"
  obtains l e where "t = s\<lparr>wlog := l, errno := e, pokers := (pokers s)[i := q]\<rparr>"
  | fd f l e q' where "t = s\<lparr>fds := (fds s)(fd \<mapsto> Node f O_RDWR), wlog := l, errno := e, pokers := (pokers s)[i := q']\<rparr>"
      "fds s fd = None" "0 \<le> fd" "poker_ok (Suc n) q'" "queue_fds q' = add_mset fd (queue_fds q)"
proof -
  let ?v = "(looper_view i s)\<lparr>pk := q\<rparr>"
  from e obtain f v pr mx mn type timeout where ev: "ev = PmQosOpenTimedEvent f v pr mx mn type timeout"
    by (rule is_timedE)
  let ?o = "open_for f v pr mx mn type"
  obtain e l where o: "exec ?o ?v = ?v\<lparr>fds := opened_fds ?v f, errno := e, wlog := l\<rparr>" using open_for_effect by blast
  have ov: "opened ?v f O_RDWR = opened s f O_RDWR"
    using opened_view [of i s] by (auto simp: opened_def open_error_def free_fd_def fd_slots_def split: option.split)
  have r: "result ?o ?v = (case opened s f O_RDWR of None \<Rightarrow> - 1 | Some fd \<Rightarrow> fd)"
    by (simp add: open_for_result ov)
  show ?thesis
  proof (cases "opened s f O_RDWR")
    case None
    have "hand_over ev (exec (run_event ev) ?v) = (looper_view i s)\<lparr>fds := fds s, wlog := l, errno := e, pk := q\<rparr>"
      unfolding ev exec_run_timed Let_def r None o by (simp add: opened_fds_def ov None)
    then have "t = s\<lparr>fds := fds s, wlog := l, errno := e, pokers := (pokers s)[i := q]\<rparr>"
      unfolding turn by (simp only: put_back_turn)
    then have "t = s\<lparr>wlog := l, errno := e, pokers := (pokers s)[i := q]\<rparr>" by simp
    then show ?thesis by (rule that(1))
  next
    case (Some fd)
    note fd = opened_Some [OF Some]
    let ?q = "sendEventDelayed (now s) timeout (TimeoutEvent fd) q"
    have "hand_over ev (exec (run_event ev) ?v) = (looper_view i s)\<lparr>fds := (fds s)(fd \<mapsto> Node f O_RDWR), wlog := l,
        errno := e, pk := ?q\<rparr>"
      unfolding ev exec_run_timed Let_def r Some o using fd(2) by (simp add: opened_fds_def ov Some armTimeout_def)
    then have "t = s\<lparr>fds := (fds s)(fd \<mapsto> Node f O_RDWR), wlog := l, errno := e, pokers := (pokers s)[i := ?q]\<rparr>"
      unfolding turn by (simp only: put_back_turn)
    moreover have "poker_ok (Suc n) ?q" "queue_fds ?q = add_mset fd (queue_fds q)"
      using poker_ok_send [OF ok, of "TimeoutEvent fd" "now s" timeout] by simp_all
    ultimately show ?thesis using that(2) fd(1,2) by blast
  qed
qed

lemma turn_timeout:
  assumes "t = put_back i (hand_over (TimeoutEvent fd) (exec (run_event (TimeoutEvent fd)) ((looper_view i s)\<lparr>pk := q\<rparr>))) s"
  obtains e where "t = s\<lparr>fds := (fds s)(fd := None), wlog := wlog s, errno := e, pokers := (pokers s)[i := q]\<rparr>"
proof -
  have n: "(fds s)(fd := None) = fds s" if "fds s fd = None" using that by (simp add: fun_upd_idem)
  have v: "(looper_view i s)\<lparr>fds := fds s, wlog := wlog s, errno := e, pk := q\<rparr> = (looper_view i s)\<lparr>errno := e, pk := q\<rparr>"
    "(looper_view i s)\<lparr>fds := F, wlog := wlog s, errno := errno s, pk := q\<rparr> = (looper_view i s)\<lparr>fds := F, pk := q\<rparr>" for e F
    by (simp_all add: view_defs)
  obtain e where "hand_over (TimeoutEvent fd) (exec (run_event (TimeoutEvent fd)) ((looper_view i s)\<lparr>pk := q\<rparr>))
      = (looper_view i s)\<lparr>fds := (fds s)(fd := None), wlog := wlog s, errno := e, pk := q\<rparr>"
  proof (cases "fds s fd")
    case None
    then show ?thesis using that [of EBADF] by (simp add: n v timeoutRequest_def)
  next
    case (Some x)
    then show ?thesis using that [of "errno s"] by (simp add: v timeoutRequest_def)
  qed
  then show ?thesis using that unfolding assms by (simp only: put_back_turn)
qed

lemma looper_turn_inv:
  assumes inv: "hal_inv H D n s" and n: "n < key_limit" and i: "i < length (pokers s)"
    and m: "(d, k) \<in> set (mailbox (pokers s ! i))"
  shows "hal_inv H D (Suc n) (looper_turn i d k s)" and "pInfo (looper_turn i d k s) = pInfo s"
    and "undef (looper_turn i d k s) = undef s"
proof -
  have ok: "\<forall>q \<in> set (pokers s). poker_ok n q" using inv by (simp add: hal_inv_def hal_typed_def)
  then have "poker_ok n (pokers s ! i)" using i by simp
  from this m obtain ev q where t: "take_message d k (pokers s ! i) = (Some ev, q)" "poker_ok n q"
    "queue_fds (pokers s ! i) = event_fds ev + queue_fds q" "mQueuedEvents (pokers s ! i) k = Some ev"
    "is_timed ev \<or> (\<exists>fd. ev = TimeoutEvent fd)"
    by (rule poker_ok_take)
  let ?t = "looper_turn i d k s"
  have turn: "?t = put_back i (hand_over ev (exec (run_event ev) ((looper_view i s)\<lparr>pk := q\<rparr>))) s"
    using t by (simp add: looper_turn_def dispatch_Some)
  have step: "hal_inv H D (Suc n) ?t \<and> pInfo ?t = pInfo s \<and> undef ?t = undef s"
    if h: "?t = s\<lparr>fds := F, wlog := l, errno := e, pokers := (pokers s)[i := q']\<rparr>" "poker_ok (Suc n) q'"
      "\<forall>fd. F fd \<noteq> None \<longrightarrow> 0 \<le> fd"
      "\<forall>fd. count (pokers_fds ((pokers s)[i := q'])) fd + of_bool (fd \<in> D) = (of_bool (F fd \<noteq> None) :: nat)"
    for F l e q'
  proof -
    have "\<forall>q \<in> set (pokers ?t). poker_ok (Suc n) q"
      using ok h(2) poker_ok_mono [of n _ "Suc n"] by (auto simp: h(1) dest!: set_update_subset_insert [THEN subsetD])
    then show ?thesis using inv h(3,4) unfolding hal_inv_def hal_typed_def hal_accounted_def by (simp add: h(1))
  qed
  have ok': "poker_ok (Suc n) q" by (rule poker_ok_mono [OF t(2)]) simp
  note upd = pokers_fds_update [OF i]
  have acc: "\<forall>fd. count (pokers_fds (pokers s)) fd + of_bool (fd \<in> D) = (of_bool (fds s fd \<noteq> None) :: nat)"
    and nonneg: "\<forall>fd. fds s fd \<noteq> None \<longrightarrow> 0 \<le> fd"
    using inv by (simp_all add: hal_inv_def hal_accounted_def)
  have "hal_inv H D (Suc n) ?t \<and> pInfo ?t = pInfo s \<and> undef ?t = undef s"
    using t(5)
  proof
    assume e: "is_timed ev"
    then have same: "queue_fds (pokers s ! i) = queue_fds q" using t(3) timed_no_fds by simp
    from e t(2) n turn show ?thesis
    proof (cases rule: turn_timed)
      case (1 l e)
      then show ?thesis using upd [of q] same acc nonneg ok' by (intro step [where F = "fds s" and l = l and e = e and q' = q]) simp_all
    next
      case (2 fd f l e q')
      have "pokers_fds ((pokers s)[i := q']) = add_mset fd (pokers_fds (pokers s))"
        using upd [of q'] 2(5) same by simp
      moreover have "count (pokers_fds (pokers s)) fd = 0 \<and> fd \<notin> D" using acc [rule_format, of fd] 2(2) by simp
      ultimately show ?thesis using 2 acc nonneg by (intro step [OF 2(1,4)]) auto
    qed
  next
    assume "\<exists>fd. ev = TimeoutEvent fd"
    then obtain fd where ev: "ev = TimeoutEvent fd" ..
    obtain e where e: "?t = s\<lparr>fds := (fds s)(fd := None), wlog := wlog s, errno := e, pokers := (pokers s)[i := q]\<rparr>"
      using turn_timeout [OF turn [unfolded ev]] .
    have u: "pokers_fds (pokers s) = add_mset fd (pokers_fds ((pokers s)[i := q]))" using upd [of q] t(3) ev by simp
    have "count (pokers_fds ((pokers s)[i := q])) x + of_bool (x \<in> D) = (of_bool (((fds s)(fd := None)) x \<noteq> None) :: nat)"
      for x using acc [rule_format, of x] by (auto simp: u of_bool_def split: if_splits)
    then show ?thesis using nonneg by (intro step [OF e ok']) (simp_all split: if_splits)
  qed
  then show "hal_inv H D (Suc n) ?t" "pInfo ?t = pInfo s" "undef ?t = undef s" by simp_all
qed

section \<open>Reachable states\<close>

lemma invoke_effect:
  "exec (invoke (HAL_MODULE_INFO_SYM m B sata H fuel) c) s = (case c of
     Open name \<Rightarrow> exec (shield_power_open m name H fuel) s
   | Init garbage \<Rightarrow> exec (shield_power_init garbage H fuel) s
   | SetInteractive on \<Rightarrow> exec (shield_power_set_interactive B sata on) s
   | PowerHint hint data \<Rightarrow> exec (common_power_hint B H hint data) s
   | SetFeature feature st \<Rightarrow> s)"
  by (cases c) (simp_all add: HAL_MODULE_INFO_SYM_def shield_power_hint_def shield_set_feature_def)

lemma call_inv:
  assumes inv: "hal_inv H D n s" and H: "hints_ok H" and n: "n + 5 \<le> key_limit"
    and ret: "result (invoke (HAL_MODULE_INFO_SYM m B sata H fuel) c) s"
  shows "hal_inv H D (n + 5) (exec (invoke (HAL_MODULE_INFO_SYM m B sata H fuel) c) s)"
proof (cases c)
  case (Open name)
  then show ?thesis
    using open_inv [OF inv H, of m name fuel] ret
    by (auto simp: invoke_effect HAL_MODULE_INFO_SYM_def intro: hal_inv_mono)
next
  case (Init garbage)
  then show ?thesis
    using init_inv [OF inv H, of garbage fuel] ret n
    by (auto simp: invoke_effect HAL_MODULE_INFO_SYM_def intro: hal_inv_mono)
next
  case (SetInteractive on)
  have "unchanged s (exec (shield_power_set_interactive B sata on) s)"
    by (rule tripleD [OF keeps_shield_set_interactive unchanged_refl [OF inv]])
  from unchanged_inv [OF inv this] show ?thesis
    by (simp only: invoke_effect SetInteractive service_call.case hal_inv_mono [OF _ le_add1])
next
  case (PowerHint hint data)
  show ?thesis unfolding invoke_effect PowerHint service_call.case by (rule hint_inv(1) [OF inv H n])
next
  case (SetFeature feature st)
  show ?thesis unfolding invoke_effect SetFeature service_call.case by (rule hal_inv_mono [OF inv]) simp
qed

text \<open>Once the module has its data, it keeps them.\<close>

lemma init_info:
  assumes "hal_inv H D n s" and "hints_ok H" and "result (shield_power_init g H fuel) s \<noteq> None"
  shows "pInfo (exec (shield_power_init g H fuel) s) \<noteq> None"
proof -
  let ?p = "(case pInfo s of None \<Rightarrow> g | Some p \<Rightarrow> p)\<lparr>input_devs := True, input_cnt := int (length shield_input_devs)\<rparr>"
  let ?s = "s\<lparr>pInfo := Some ?p\<rparr>"
  have e: "exec (shield_power_init g H fuel) s = exec (common_power_init H fuel) ?s"
    "result (shield_power_init g H fuel) s = result (common_power_init H fuel) ?s"
    by (simp_all add: shield_power_init_def set_info_def split: option.split)
  have "has_info (fds s) (pokers s) openable (\<lambda>_. True) ?s"
    by (rule has_info_start [OF assms(1)]) (simp add: openable_def device_names_def)
  from tripleD [OF common_power_init_triple [OF assms(2)] this] assms(3)
  show ?thesis unfolding e by (auto simp: has_info_def)
qed

lemma call_info:
  assumes inv: "hal_inv H D n s" and H: "hints_ok H" and n: "n + 5 \<le> key_limit" and p: "pInfo s \<noteq> None"
    and ret: "result (invoke (HAL_MODULE_INFO_SYM m B sata H fuel) c) s"
  shows "pInfo (exec (invoke (HAL_MODULE_INFO_SYM m B sata H fuel) c) s) \<noteq> None"
proof (cases c)
  case (Open name)
  have "exec (shield_power_open m name H fuel) s = s"
    using p by (auto simp: shield_power_open_def)
  then show ?thesis unfolding invoke_effect Open service_call.case using p by simp
next
  case (Init garbage)
  then show ?thesis
    using init_info [OF inv H, of garbage fuel] ret by (simp add: invoke_effect HAL_MODULE_INFO_SYM_def)
next
  case (SetInteractive on)
  have "unchanged s (exec (shield_power_set_interactive B sata on) s)"
    by (rule tripleD [OF keeps_shield_set_interactive unchanged_refl [OF inv]])
  then show ?thesis unfolding invoke_effect SetInteractive service_call.case using p by (simp add: unchanged_def)
next
  case (PowerHint hint data)
  show ?thesis unfolding invoke_effect PowerHint service_call.case by (rule hint_inv(2) [OF inv H n p])
next
  case (SetFeature feature st)
  show ?thesis unfolding invoke_effect SetFeature service_call.case by (rule p)
qed

lemma step_info:
  assumes inv: "hal_inv H D n s" and H: "hints_ok H" and n: "n + 5 \<le> key_limit" and p: "pInfo s \<noteq> None"
    and step: "hal_step (HAL_MODULE_INFO_SYM m B sata H fuel) s t"
  shows "pInfo t \<noteq> None"
  using step
proof (cases rule: hal_step.cases)
  case (h_call c)
  then show ?thesis using call_info [OF inv H n p] by simp
next
  case (h_looper i d k)
  have "n < key_limit" using n by simp
  from looper_turn_inv(2) [OF inv this h_looper(2,3)] show ?thesis using p by (simp add: h_looper(1))
next
  case (h_environment t' N)
  then show ?thesis using p by simp
qed

lemma step_inv:
  assumes inv: "hal_inv H D n s" and H: "hints_ok H" and n: "n + 5 \<le> key_limit"
    and step: "hal_step (HAL_MODULE_INFO_SYM m B sata H fuel) s t"
  shows "hal_inv H D (n + 5) t"
  using step
proof (cases rule: hal_step.cases)
  case (h_call c)
  then show ?thesis using call_inv [OF inv H n] by simp
next
  case (h_looper i d k)
  have "n < key_limit" using n by simp
  from looper_turn_inv(1) [OF inv this h_looper(2,3)] show ?thesis unfolding h_looper(1) by (rule hal_inv_mono) simp
next
  case (h_environment t' N)
  have "hal_inv H D n t" by (rule hal_inv_same [OF inv]) (simp_all add: h_environment)
  then show ?thesis by (rule hal_inv_mono) simp
qed

lemma init_typed: "hal_init D s \<Longrightarrow> hal_inv H D 0 s"
  by (auto simp: hal_init_def hal_inv_def hal_typed_def hal_accounted_def device_names_def)

interpretation hs: counted_invariant "hal_init D" "hal_step (HAL_MODULE_INFO_SYM m B sata H fuel)"
  "\<lambda>n s. hints_ok H \<longrightarrow> hal_inv H D (5 * n) s" "key_limit div 5" for D m B sata H fuel
proof unfold_locales
  show "hints_ok H \<longrightarrow> hal_inv H D (5 * 0) s" if "hal_init D s" for s using init_typed [OF that] by simp
  show "hints_ok H \<longrightarrow> hal_inv H D (5 * Suc n) t"
    if "hints_ok H \<longrightarrow> hal_inv H D (5 * n) s" "hal_step (HAL_MODULE_INFO_SYM m B sata H fuel) s t"
      "n < key_limit div 5" for n s t
  proof
    assume H: "hints_ok H"
    have "5 * n + 5 \<le> key_limit" using that(3) by linarith
    from step_inv [OF _ H this that(2)] that(1) H show "hal_inv H D (5 * Suc n) t" by (simp add: add.commute)
  qed
qed

text \<open>The concrete process of the examples, opened.\<close>

abbreviation demo_module :: power_module where
  "demo_module \<equiv> HAL_MODULE_INFO_SYM ''power'' K1 False cm_hints 2"

lemma demo_fresh: "hal_init {0, 1, 2} fresh_hal"
  by (auto simp: hal_init_def std_fds_def) (simp add: fresh_hal_def boot_hal_def kernel.defs)

lemma demo_open_step: "hal_step demo_module fresh_hal (exec (invoke demo_module (Open ''power'')) fresh_hal)"
proof (rule h_call)
  show "result (invoke demo_module (Open ''power'')) fresh_hal"
    using shield_open_effect [OF fresh_hal_ready, of 2 "''power''" cm_hints] by (simp add: HAL_MODULE_INFO_SYM_def)
qed

lemma demo_opened:
  "reach (hal_init {0, 1, 2}) (hal_step demo_module) 1 (exec (invoke demo_module (Open ''power'')) fresh_hal)"
proof -
  have "reach (hal_init {0, 1, 2}) (hal_step demo_module) 0 fresh_hal" using demo_fresh by (rule reach_init)
  then have "reach (hal_init {0, 1, 2}) (hal_step demo_module) (Suc 0) (exec (invoke demo_module (Open ''power'')) fresh_hal)"
    by (rule reach_step) (rule demo_open_step)
  then show ?thesis by simp
qed

section \<open>Properties\<close>

text \<open>
  C5. The module keeps its data well formed.  Whatever calls are made, in whatever order and with
  whatever arguments, however the loopers take turns with them and whatever the nodes contain: the
  poker in \<open>pInfo\<close> exists and its table is consistent, the number of input devices fits their
  array and their names are the module's, the intervals between hints are set, and the frequency
  table has the length the module takes it to have unless something undefined has happened.
\<close>

theorem hal_well_typed:
  assumes "reach (hal_init D) (hal_step (HAL_MODULE_INFO_SYM m B sata H fuel)) n s"
    and "hints_ok H" and "n \<le> key_limit div 5"
  shows "hal_typed H (5 * n) s"
  using hs.reach_inv [OF assms(1,3)] assms(2) by (simp add: hal_inv_def)

theorem hal_well_typed_witness:
  "hal_typed cm_hints 5 (exec (invoke demo_module (Open ''power'')) fresh_hal)"
  using hal_well_typed [OF demo_opened cm_hints_ok] by (simp add: key_limit_def)



text \<open>
  C7. No descriptor is leaked by the module as a whole.  In every reachable state a descriptor is open
  if and only if the process was given it at its start, or exactly one pending message of exactly
  one poker will close it, never both; reading and writing nodes, opening the module twice and
  losing a poker on the way leave nothing open.
\<close>

theorem hal_descriptors:
  assumes "reach (hal_init D) (hal_step (HAL_MODULE_INFO_SYM m B sata H fuel)) n s"
    and "hints_ok H" and "n \<le> key_limit div 5"
  shows "{fd. fds s fd \<noteq> None} = D \<union> set_mset (pokers_fds (pokers s))
    \<and> D \<inter> set_mset (pokers_fds (pokers s)) = {} \<and> (\<forall>fd. count (pokers_fds (pokers s)) fd \<le> 1)"
  using hs.reach_inv [OF assms(1,3)] assms(2) by (intro hal_accounted_fds) (simp add: hal_inv_def)

theorem hal_descriptors_witness:
  "{fd. fds (exec (invoke demo_module (Open ''power'')) fresh_hal) fd \<noteq> None}
     = {0, 1, 2} \<union> set_mset (pokers_fds (pokers (exec (invoke demo_module (Open ''power'')) fresh_hal)))"
  using hal_descriptors [OF demo_opened cm_hints_ok] by (simp add: key_limit_def)

end
