(* ===== verification/Hal_Threads.thy ===== *)
theory Hal_Threads
  imports Hal_System
begin

text \<open>
  Hints given by several threads at once.  Nothing in \<open>nvpowerhal.cpp\<close> takes a lock, so that
  \<open>common_power_hint\<close> is four steps here: reading the clock, testing the interval, acting, and noting
  the time; between them other threads, the loopers and the rest of the module run.  The data
  stay well formed and no descriptor is lost, but the rate limit does not hold: the time that a
  thread has read may be older than the one noted, and the difference of the two wraps.

  Two threads that stand at accesses of the same hint time, one of them to write it, are in a data
  race, which C++ gives no meaning to: the access that is carried out then sets \<open>undef\<close>, a reader may
  find the interval over or not, and a writer may leave any number.
\<close>

section \<open>States and steps\<close>





definition unless_race :: "bool \<Rightarrow> (hal, 'a) state \<Rightarrow> (hal, 'a) state" where
  "unless_race race m = do { require (\<not> race); m }"


lemma unless_race_simps [simp]:
  "exec (unless_race b m) s = exec m (s\<lparr>undef := undef s \<or> b\<rparr>)"
  by (simp add: unless_race_def)

lemma read_clock_simps [simp]:
  "exec read_clock s = s\<lparr>undef := undef s \<or> \<not> clock_defined (now s)\<rparr>" "result read_clock s = usec_time (now s)"
  by (simp_all add: read_clock_def)

lemma check_interval_effect [simp]:
  "exec (check_interval H hint time) s = s\<lparr>undef := undef s \<or> \<not> hint < MAX_POWER_HINT_COUNT H\<rparr>"
  by (simp add: check_interval_def)




section \<open>The invariant\<close>












section \<open>What holds of every interleaving\<close>


section \<open>One thread alone\<close>






section \<open>Where the rate limit fails\<close>












end
