(* ===== verification/Cm_Power.thy ===== *)
theory Cm_Power
  imports Nv_Power_Hal
begin

text \<open>
  \<open>power/power.c\<close>: the CyanogenMod power module, an alternative to the Shield module that the build
  file does not select.  It finds out the CPU governor, keeps the governor's boost node open from
  the first boost hint on, and reopens it after a failed write.

  The function \<open>cm_power_set_interactive_ext\<close>, which the source only declares, is the argument
  \<open>ext\<close>; without \<open>SET_INTERACTIVE_EXT\<close> it does nothing.  The flag \<open>touch\<close> says that
  \<open>NO_TOUCH_BOOST\<close> is not defined.
\<close>

section \<open>State\<close>

definition SCALING_GOVERNOR_PATH :: string where
  "SCALING_GOVERNOR_PATH = ''/sys/devices/system/cpu/cpu0/cpufreq/scaling_governor''"
definition BOOSTPULSE_ONDEMAND :: string where
  "BOOSTPULSE_ONDEMAND = ''/sys/devices/system/cpu/cpufreq/ondemand/boostpulse''"
definition BOOSTPULSE_INTERACTIVE :: string where
  "BOOSTPULSE_INTERACTIVE = ''/sys/devices/system/cpu/cpufreq/interactive/boostpulse''"
definition NOTIFY_ON_MIGRATE :: string where
  "NOTIFY_ON_MIGRATE = ''/dev/cpuctl/cpu.notify_on_migrate''"

text \<open>\<open>struct cm_power_module\<close> and the static buffer \<open>governor\<close> of 20 bytes.\<close>

record cm = kernel +
  boostpulse_fd :: int
  boostpulse_warned :: bool
  governor :: string

definition cm_start :: "'z cm_scheme \<Rightarrow> bool" where
  "cm_start s \<longleftrightarrow> boostpulse_fd s = - 1 \<and> \<not> boostpulse_warned s \<and> governor s = zeros 20"

section \<open>Nodes\<close>

text \<open>The result and the buffer; one byte less than the buffer is read, and a NUL stored after it.\<close>

definition cm_sysfs_read :: "string \<Rightarrow> string \<Rightarrow> nat \<Rightarrow> ('z kernel_scheme, int \<times> string) state" where
  "cm_sysfs_read path buf num_bytes = do {
     fd \<leftarrow> k_open path O_RDONLY;
     if fd < 0 then ret (- 1, buf)
     else do {
       (n, data) \<leftarrow> k_read fd (num_bytes - 1);
       let (r, buf') = (if n < 0 then (- 1, buf) else (0, store (data @ [NUL]) buf));
       _ \<leftarrow> k_close fd;
       ret (r, buf') }
   }"

definition cm_sysfs_write :: "string \<Rightarrow> string \<Rightarrow> ('z kernel_scheme, unit) state" where
  "cm_sysfs_write path s = do {
     fd \<leftarrow> k_open path O_WRONLY;
     if fd < 0 then ret ()
     else do {
       _ \<leftarrow> k_write fd s;
       _ \<leftarrow> k_close fd;
       ret () }
   }"

section \<open>The governor\<close>

text \<open>The loop that strips line ends; the first argument is \<open>len + 1\<close>.\<close>

fun strip_newlines :: "nat \<Rightarrow> string \<Rightarrow> string" where
  "strip_newlines 0 g = g"
| "strip_newlines (Suc len) g =
     (if g ! len = NL \<or> g ! len = CR then strip_newlines len (g[len := NUL]) else g)"

definition strlen :: "string \<Rightarrow> nat" where
  "strlen buf = length (takeWhile (\<lambda>c. c \<noteq> NUL) buf)"

definition get_scaling_governor :: "('z cm_scheme, int) state" where
  "get_scaling_governor = do {
     g \<leftarrow> gets governor;
     (r, g) \<leftarrow> cm_sysfs_read SCALING_GOVERNOR_PATH g 20;
     modify (\<lambda>s. s\<lparr>governor := g\<rparr>);
     if r = - 1 then ret (- 1)
     else do {
       modify (\<lambda>s. s\<lparr>governor := strip_newlines (strlen (governor s)) (governor s)\<rparr>);
       ret 0 }
   }"

definition cm_power_set_interactive :: "(int \<Rightarrow> ('z cm_scheme, unit) state) \<Rightarrow> int \<Rightarrow> ('z cm_scheme, unit) state" where
  "cm_power_set_interactive ext on = do {
     cm_sysfs_write NOTIFY_ON_MIGRATE (if on \<noteq> 0 then ''1'' else ''0'');
     ext on
   }"

definition ondemand_writes :: "(string \<times> string) list" where
  "ondemand_writes = [
     (''/sys/devices/system/cpu/cpufreq/ondemand/up_threshold'', ''90''),
     (''/sys/devices/system/cpu/cpufreq/ondemand/io_is_busy'', ''1''),
     (''/sys/devices/system/cpu/cpufreq/ondemand/sampling_down_factor'', ''2''),
     (''/sys/devices/system/cpu/cpufreq/ondemand/down_differential'', ''10''),
     (''/sys/devices/system/cpu/cpufreq/ondemand/up_threshold_multi_core'', ''70''),
     (''/sys/devices/system/cpu/cpufreq/ondemand/down_differential_multi_core'', ''3''),
     (''/sys/devices/system/cpu/cpufreq/ondemand/optimal_freq'', ''918000''),
     (''/sys/devices/system/cpu/cpufreq/ondemand/sync_freq'', ''1026000''),
     (''/sys/devices/system/cpu/cpufreq/ondemand/up_threshold_any_cpu_load'', ''80''),
     (''/sys/devices/system/cpu/cpufreq/ondemand/input_boost'', ''1134000''),
     (''/sys/devices/system/cpu/cpufreq/ondemand/sampling_rate'', ''50000'')]"

definition interactive_writes :: "(string \<times> string) list" where
  "interactive_writes = [
     (''/sys/devices/system/cpu/cpufreq/interactive/min_sample_time'', ''90000''),
     (''/sys/devices/system/cpu/cpufreq/interactive/io_is_busy'', ''1''),
     (''/sys/devices/system/cpu/cpufreq/interactive/hispeed_freq'', ''1134000''),
     (''/sys/devices/system/cpu/cpufreq/interactive/above_hispeed_delay'', ''30000''),
     (''/sys/devices/system/cpu/cpufreq/interactive/timer_rate'', ''30000'')]"

definition is_ondemand :: "string \<Rightarrow> bool" where
  "is_ondemand g = strncmp_eq 8 g ''ondemand''"

definition is_interactive :: "string \<Rightarrow> bool" where
  "is_interactive g = strncmp_eq 11 g ''interactive''"

definition configure_governor :: "(int \<Rightarrow> ('z cm_scheme, unit) state) \<Rightarrow> ('z cm_scheme, unit) state" where
  "configure_governor ext = do {
     cm_power_set_interactive ext 1;
     g \<leftarrow> gets governor;
     (if is_ondemand g then write_seq cm_sysfs_write ondemand_writes
      else if is_interactive g then write_seq cm_sysfs_write interactive_writes
      else ret ())
   }"

section \<open>The boost node\<close>

definition boostpulse_open :: "(int \<Rightarrow> ('z cm_scheme, unit) state) \<Rightarrow> ('z cm_scheme, int) state" where
  "boostpulse_open ext = do {
     fd \<leftarrow> gets boostpulse_fd;
     (if fd < 0 then do {
        r \<leftarrow> get_scaling_governor;
        if r < 0 then modify (\<lambda>s. s\<lparr>boostpulse_warned := True\<rparr>)
        else do {
          g \<leftarrow> gets governor;
          (if is_ondemand g then do {
             fd \<leftarrow> k_open BOOSTPULSE_ONDEMAND O_WRONLY;
             modify (\<lambda>s. s\<lparr>boostpulse_fd := fd\<rparr>) }
           else if is_interactive g then do {
             fd \<leftarrow> k_open BOOSTPULSE_INTERACTIVE O_WRONLY;
             modify (\<lambda>s. s\<lparr>boostpulse_fd := fd\<rparr>) }
           else ret ());
          fd \<leftarrow> gets boostpulse_fd;
          warned \<leftarrow> gets boostpulse_warned;
          if fd < 0 \<and> \<not> warned then modify (\<lambda>s. s\<lparr>boostpulse_warned := True\<rparr>)
          else if 0 < fd then configure_governor ext
          else ret () } }
      else ret ());
     gets boostpulse_fd
   }"

text \<open>The write of a hint, to the descriptor it has loaded, and what follows a failed one.\<close>

definition boost_write_to :: "int \<Rightarrow> int option \<Rightarrow> ('z cm_scheme, int) state" where
  "boost_write_to fd data = do {
     let duration = (case data of None \<Rightarrow> 1 | Some d \<Rightarrow> d);
     k_write fd (snprintf 80 (show_int duration))
   }"

definition boost_write :: "int option \<Rightarrow> ('z cm_scheme, int) state" where
  "boost_write data = do {
     fd \<leftarrow> gets boostpulse_fd;
     boost_write_to fd data
   }"

definition boost_reset :: "('z cm_scheme, unit) state" where
  "boost_reset = do {
     fd \<leftarrow> gets boostpulse_fd;
     _ \<leftarrow> k_close fd;
     modify (\<lambda>s. s\<lparr>boostpulse_fd := - 1\<rparr>);
     modify (\<lambda>s. s\<lparr>boostpulse_warned := False\<rparr>)
   }"

text \<open>\<open>data\<close> is the pointer of that name: null, or the duration cast to a pointer.\<close>

definition cm_power_hint ::
    "(int \<Rightarrow> ('z cm_scheme, unit) state) \<Rightarrow> bool \<Rightarrow> power_hints \<Rightarrow> nat \<Rightarrow> int option \<Rightarrow> ('z cm_scheme, unit) state" where
  "cm_power_hint ext touch H hint data =
     (if touch \<and> hint = POWER_HINT_INTERACTION H \<or> hint = POWER_HINT_CPU_BOOST H then do {
        fd \<leftarrow> boostpulse_open ext;
        if 0 \<le> fd then do {
          len \<leftarrow> boost_write data;
          if len < 0 then boost_reset else ret () }
        else ret () }
      else ret ())"

definition cm_power_init :: "(int \<Rightarrow> ('z cm_scheme, unit) state) \<Rightarrow> ('z cm_scheme, unit) state" where
  "cm_power_init ext = do {
     _ \<leftarrow> get_scaling_governor;
     configure_governor ext
   }"

text \<open>The module: its routines, and the texts that name it.  It has no \<open>open\<close> method.\<close>

record 'z cm_module =
  cm_name :: string
  cm_author :: string
  cm_open :: "('z cm_scheme, int) state option"
  cm_init_hook :: "('z cm_scheme, unit) state"
  cm_setInteractive :: "int \<Rightarrow> ('z cm_scheme, unit) state"
  cm_powerHint :: "nat \<Rightarrow> int option \<Rightarrow> ('z cm_scheme, unit) state"

definition cm_HAL_MODULE_INFO_SYM ::
    "(int \<Rightarrow> ('z cm_scheme, unit) state) \<Rightarrow> bool \<Rightarrow> power_hints \<Rightarrow> 'z cm_module" where
  "cm_HAL_MODULE_INFO_SYM ext touch H = \<lparr>
     cm_name = ''CM Power HAL'', cm_author = ''The CyanogenMod Project'',
     cm_open = None,
     cm_init_hook = cm_power_init ext,
     cm_setInteractive = cm_power_set_interactive ext,
     cm_powerHint = cm_power_hint ext touch H\<rparr>"

end
