(* ===== verification/Cm_Power_Props.thy ===== *)
theory Cm_Power_Props
  imports Cm_Power Nv_Power_Rate
begin

text \<open>
  Properties of the CyanogenMod power module: what it takes the governor to be, what a boost hint
  writes, and that threads giving hints at the same time never leak the boost node nor close a
  descriptor of somebody else.
\<close>

section \<open>Reading and writing nodes\<close>

lemma cm_sysfs_write_effect:
  "same_but_errno (s\<lparr>wlog := wlog s @ accepted s O_WRONLY (p, d)\<rparr>) (exec (cm_sysfs_write p d) s)"
  using sysfs_write_effect [of s p d] by (simp add: cm_sysfs_write_def sysfs_write_def)

interpretation cmw: node_writer "cm_sysfs_write :: string \<Rightarrow> string \<Rightarrow> ('z kernel_scheme, unit) state" O_WRONLY
  by unfold_locales (rule cm_sysfs_write_effect)

lemma cm_sysfs_read_effect:
  "same_but_errno s (exec (cm_sysfs_read p buf n) s)
   \<and> result (cm_sysfs_read p buf n) s = (case node_text s p (n - 1) of
        None \<Rightarrow> (- 1, buf) | Some d \<Rightarrow> (0, store (d @ [NUL]) buf))"
proof (cases "opened s p O_RDONLY")
  case None
  then show ?thesis by (simp add: cm_sysfs_read_def node_text_def)
next
  case (Some fd)
  note o = opened_Some [OF Some]
  have "(fds s)(fd := None) = fds s" using o(1) by (simp add: fun_upd_idem)
  then show ?thesis
    using Some o
    by (auto simp: cm_sysfs_read_def node_text_def k_read_def Let_def split: option.split sum.split)
qed

section \<open>The governor's name\<close>

definition line_end :: "char \<Rightarrow> bool" where
  "line_end c \<longleftrightarrow> c = NL \<or> c = CR"

definition rstrip :: "string \<Rightarrow> string" where
  "rstrip s = rev (dropWhile line_end (rev s))"

lemma rstrip_snoc: "rstrip (s @ [c]) = (if line_end c then rstrip s else s @ [c])"
  by (simp add: rstrip_def)

lemma length_rstrip: "length (rstrip s) \<le> length s"
  using length_dropWhile_le [of line_end "rev s"] by (simp add: rstrip_def)

lemma strip_newlines_eq:
  "strip_newlines (length s) (s @ r) = rstrip s @ replicate (length s - length (rstrip s)) NUL @ r"
proof (induction s arbitrary: r rule: rev_induct)
  case (snoc c s)
  show ?case
  proof (cases "line_end c")
    case True
    have "strip_newlines (length (s @ [c])) ((s @ [c]) @ r) = strip_newlines (length s) (s @ NUL # r)"
      using True by (simp add: line_end_def nth_append list_update_append)
    also have "\<dots> = rstrip s @ replicate (length s - length (rstrip s)) NUL @ NUL # r"
      by (rule snoc)
    also have "\<dots> = rstrip (s @ [c]) @ replicate (length (s @ [c]) - length (rstrip (s @ [c]))) NUL @ r"
      using True length_rstrip [of s]
      by (simp add: rstrip_snoc Suc_diff_le replicate_append_same flip: append_assoc)
        (simp flip: replicate_append_same)
    finally show ?thesis .
  next
    case False
    then show ?thesis by (simp add: line_end_def rstrip_snoc nth_append)
  qed
qed (simp add: rstrip_def)

lemma rstrip_set: "set (rstrip s) \<subseteq> set s"
  using set_dropWhileD [of _ line_end "rev s"] by (auto simp: rstrip_def)

lemma strlen_append: "NUL \<notin> set s \<Longrightarrow> strlen (s @ NUL # r) = length s"
  unfolding strlen_def by (subst takeWhile_all) auto

lemma get_scaling_governor_effect:
  assumes "node_text s SCALING_GOVERNOR_PATH 19 = Some d" and "NUL \<notin> set d"
  shows "\<exists>e. exec get_scaling_governor s = s\<lparr>errno := e, governor := rstrip d
       @ replicate (length d - length (rstrip d)) NUL @ NUL # drop (Suc (length d)) (governor s)\<rparr>"
    and "result get_scaling_governor s = 0"
proof -
  obtain e where e: "exec (cm_sysfs_read SCALING_GOVERNOR_PATH (governor s) 20) s = s\<lparr>errno := e\<rparr>"
    and r: "result (cm_sysfs_read SCALING_GOVERNOR_PATH (governor s) 20) s = (0, store (d @ [NUL]) (governor s))"
    using cm_sysfs_read_effect [of s SCALING_GOVERNOR_PATH "governor s" 20] assms(1)
    by (auto simp: same_but_errno_def)
  have "store (d @ [NUL]) (governor s) = d @ NUL # drop (Suc (length d)) (governor s)"
    by (simp add: store_def)
  then show "\<exists>e. exec get_scaling_governor s = s\<lparr>errno := e, governor := rstrip d
       @ replicate (length d - length (rstrip d)) NUL @ NUL # drop (Suc (length d)) (governor s)\<rparr>"
    and "result get_scaling_governor s = 0"
    using strip_newlines_eq [of d "NUL # drop (Suc (length d)) (governor s)"]
    by (auto simp: get_scaling_governor_def e r strlen_append assms(2) intro: exI [of _ e])
qed

lemma get_scaling_governor_fails:
  assumes "node_text s SCALING_GOVERNOR_PATH 19 = None"
  shows "\<exists>e. exec get_scaling_governor s = s\<lparr>errno := e\<rparr>" and "result get_scaling_governor s = - 1"
proof -
  obtain e where e: "exec (cm_sysfs_read SCALING_GOVERNOR_PATH (governor s) 20) s = s\<lparr>errno := e\<rparr>"
    and r: "result (cm_sysfs_read SCALING_GOVERNOR_PATH (governor s) 20) s = (- 1, governor s)"
    using cm_sysfs_read_effect [of s SCALING_GOVERNOR_PATH "governor s" 20] assms
    by (auto simp: same_but_errno_def)
  have "s\<lparr>errno := e, governor := governor s\<rparr> = s\<lparr>errno := e\<rparr>" by simp
  then show "\<exists>e. exec get_scaling_governor s = s\<lparr>errno := e\<rparr>" and "result get_scaling_governor s = - 1"
    by (auto simp: get_scaling_governor_def e r intro: exI [of _ e])
qed

lemma c_string_governor: "NUL \<notin> set d \<Longrightarrow> c_string (rstrip d @ replicate k NUL @ NUL # r) = Some (rstrip d)"
proof -
  assume "NUL \<notin> set d"
  then have "NUL \<notin> set (rstrip d)" using rstrip_set by blast
  moreover have "replicate k NUL @ NUL # r = NUL # replicate k NUL @ r" by (rule replicate_app_Cons_same)
  ultimately show ?thesis by (simp only: c_string_append not_False_eq_True)
qed

lemma governor_is:
  assumes "NUL \<notin> set w" and "NUL \<notin> set v"
  shows "strncmp_eq n (w @ replicate k NUL @ NUL # r) v \<longleftrightarrow> take n w = take n v"
proof -
  have m: "replicate k NUL @ NUL # r = NUL # replicate k NUL @ r" by (rule replicate_app_Cons_same)
  have t: "takeWhile (\<lambda>c. c \<noteq> NUL) (take n x) = take n x" if "NUL \<notin> set x" for x
    using that by (intro takeWhile_eq_all_conv [THEN iffD2]) (auto dest: in_set_takeD)
  have "takeWhile (\<lambda>c. c \<noteq> NUL) (take n (w @ NUL # y)) = take n w" for y
  proof (cases "n \<le> length w")
    case True
    then show ?thesis using t [OF assms(1)] by simp
  next
    case False
    then have "n - length w = Suc (n - Suc (length w))" by simp
    then have "take n (w @ NUL # y) = w @ NUL # take (n - Suc (length w)) y"
      using False by (simp del: Suc_diff_Suc)
    then show ?thesis using False assms(1) by (simp only:) (subst takeWhile_all, auto)
  qed
  then show ?thesis by (simp add: strncmp_eq_def m t assms(2))
qed

text \<open>
  The governor is read without its line end: the loop over the buffer removes exactly the newlines
  and carriage returns at the end of what the node holds; a node that cannot be read leaves the
  last known governor in place and is reported with -1.
\<close>

theorem get_scaling_governor_correct:
  "(case node_text s SCALING_GOVERNOR_PATH 19 of
      None \<Rightarrow> result get_scaling_governor s = - 1 \<and> governor (exec get_scaling_governor s) = governor s
    | Some d \<Rightarrow> NUL \<notin> set d \<longrightarrow> result get_scaling_governor s = 0
        \<and> c_string (governor (exec get_scaling_governor s)) = Some (rev (dropWhile (\<lambda>c. c = NL \<or> c = CR) (rev d))))
   \<and> fds (exec get_scaling_governor s) = fds s \<and> wlog (exec get_scaling_governor s) = wlog s"
proof (cases "node_text s SCALING_GOVERNOR_PATH 19")
  case None
  then show ?thesis using get_scaling_governor_fails [OF None] by auto
next
  case (Some d)
  have r: "rev (dropWhile (\<lambda>c. c = NL \<or> c = CR) (rev d)) = rstrip d"
    by (simp add: rstrip_def line_end_def [abs_def])
  have q: "fds (exec get_scaling_governor s) = fds s \<and> wlog (exec get_scaling_governor s) = wlog s"
  proof -
    obtain e where e: "exec (cm_sysfs_read SCALING_GOVERNOR_PATH (governor s) 20) s = s\<lparr>errno := e\<rparr>"
      using cm_sysfs_read_effect [of s SCALING_GOVERNOR_PATH "governor s" 20] by (auto simp: same_but_errno_def)
    then show ?thesis by (simp add: get_scaling_governor_def e split: prod.split)
  qed
  show ?thesis
    using Some q r get_scaling_governor_effect [OF Some] c_string_governor [of d] by auto
qed

section \<open>The boost node\<close>

text \<open>What is assumed of the vendor's extension: it leaves no descriptor behind, and cannot see the static buffer.\<close>

definition ext_ok :: "(int \<Rightarrow> ('z cm_scheme, unit) state) \<Rightarrow> bool" where
  "ext_ok ext \<longleftrightarrow> (\<forall>on s. fds (exec (ext on) s) = fds s \<and> boostpulse_fd (exec (ext on) s) = boostpulse_fd s
     \<and> governor (exec (ext on) s) = governor s)"

definition no_ext :: "int \<Rightarrow> ('z cm_scheme, unit) state" where
  "no_ext on = ret ()"

lemma no_ext_ok: "ext_ok no_ext"
  by (simp add: ext_ok_def no_ext_def)

lemma boost_fd_write [simp]: "boostpulse_fd (exec (cm_sysfs_write p d) s) = boostpulse_fd s"
  and governor_write [simp]: "governor (exec (cm_sysfs_write p d) s) = governor s"
proof -
  obtain e where "exec (cm_sysfs_write p d) s = s\<lparr>wlog := wlog s @ accepted s O_WRONLY (p, d), errno := e\<rparr>"
    using cmw.wr_effect [of s p d] by (auto simp: same_but_errno_def)
  then show "boostpulse_fd (exec (cm_sysfs_write p d) s) = boostpulse_fd s"
    and "governor (exec (cm_sysfs_write p d) s) = governor s" by simp_all
qed

lemma boost_fd_write_seq [simp]: "boostpulse_fd (exec (write_seq cm_sysfs_write ps) s) = boostpulse_fd s"
  and governor_write_seq [simp]: "governor (exec (write_seq cm_sysfs_write ps) s) = governor s"
  by (induction ps arbitrary: s) auto

lemma configure_governor_fds:
  "ext_ok ext \<Longrightarrow> fds (exec (configure_governor ext) s) = fds s
     \<and> boostpulse_fd (exec (configure_governor ext) s) = boostpulse_fd s"
  by (auto simp: configure_governor_def cm_power_set_interactive_def ext_ok_def cmw.wr_fields cmw.write_seq_fields)

lemma get_scaling_governor_fds:
  "fds (exec get_scaling_governor s) = fds s \<and> boostpulse_fd (exec get_scaling_governor s) = boostpulse_fd s"
proof -
  obtain e where e: "exec (cm_sysfs_read SCALING_GOVERNOR_PATH (governor s) 20) s = s\<lparr>errno := e\<rparr>"
    using cm_sysfs_read_effect [of s SCALING_GOVERNOR_PATH "governor s" 20] by (auto simp: same_but_errno_def)
  then show ?thesis by (simp add: get_scaling_governor_def e split: prod.split)
qed

text \<open>
  The descriptors of the process are those of its other parts, \<open>base\<close>, and the boost node while
  \<open>boostpulse_fd\<close> is not negative.
\<close>

definition boost_only :: "(int \<Rightarrow> ofile option) \<Rightarrow> 'z cm_scheme \<Rightarrow> bool" where
  "boost_only base s \<longleftrightarrow> (\<forall>fd<0. base fd = None) \<and>
     (if boostpulse_fd s < 0 then fds s = base
      else base (boostpulse_fd s) = None \<and> (\<exists>p. fds s = base(boostpulse_fd s \<mapsto> Node p O_WRONLY)))"

lemma boost_only_cong:
  "boost_only base s \<Longrightarrow> fds t = fds s \<Longrightarrow> boostpulse_fd t = boostpulse_fd s \<Longrightarrow> boost_only base t"
  by (simp add: boost_only_def)

lemma boost_only_opened:
  assumes "boost_only base s" and "boostpulse_fd s < 0"
  shows "boost_only base ((exec (k_open p O_WRONLY) s)\<lparr>boostpulse_fd := result (k_open p O_WRONLY) s\<rparr>)"
  using assms opened_Some [of s p O_WRONLY] by (auto simp: boost_only_def split: option.split)

lemma boost_only_open:
  assumes "boost_only base s" and "ext_ok ext"
  shows "boost_only base (exec (boostpulse_open ext) s)"
    and "result (boostpulse_open ext) s = boostpulse_fd (exec (boostpulse_open ext) s)"
proof -
  show "result (boostpulse_open ext) s = boostpulse_fd (exec (boostpulse_open ext) s)"
    by (simp add: boostpulse_open_def)
  let ?g = "exec get_scaling_governor s"
  have g: "boost_only base ?g" "boostpulse_fd ?g = boostpulse_fd s"
    using boost_only_cong [OF assms(1)] get_scaling_governor_fds [of s] by auto
  have conf: "boost_only base t \<Longrightarrow> boost_only base (exec (configure_governor ext) t)" for t
    using boost_only_cong [of base t "exec (configure_governor ext) t"] configure_governor_fds [OF assms(2)] by auto
  have warn: "boost_only base t \<Longrightarrow> boost_only base (t\<lparr>boostpulse_warned := b\<rparr>)" for t b
    by (simp add: boost_only_def)
  let ?op = "\<lambda>p. (exec (k_open p O_WRONLY) ?g)\<lparr>boostpulse_fd := result (k_open p O_WRONLY) ?g\<rparr>"
  have op: "boostpulse_fd s < 0 \<Longrightarrow> boost_only base (?op p)" for p
    using boost_only_opened [OF g(1)] g(2) by auto
  show "boost_only base (exec (boostpulse_open ext) s)"
    using assms(1) g(1) op conf warn
    by (auto simp: boostpulse_open_def simp del: exec_k_open result_k_open)
qed

lemma boost_only_write_to:
  assumes "boost_only base s"
  shows "boost_only base (exec (boost_write_to fd data) s)"
proof -
  have "fds (exec (k_write fd d) s) = fds s \<and> boostpulse_fd (exec (k_write fd d) s) = boostpulse_fd s" for fd d
    by (auto simp: k_write_def split: option.split ofile.split sum.split)
  then show ?thesis by (intro boost_only_cong [OF assms]) (simp_all add: boost_write_to_def Let_def)
qed

lemma boost_only_write: "boost_only base s \<Longrightarrow> boost_only base (exec (boost_write data) s)"
  by (simp add: boost_write_def boost_only_write_to)

lemma boost_only_reset:
  assumes "boost_only base s"
  shows "boost_only base (exec boost_reset s) \<and> boostpulse_fd (exec boost_reset s) = - 1
    \<and> fds (exec boost_reset s) = base"
  using assms by (auto simp: boost_only_def boost_reset_def fun_upd_idem split: if_splits)

text \<open>
  A boost hint never leaks a descriptor and never closes one of another part of the process,
  whatever the nodes do; when its write fails it leaves the module without a boost node and
  willing to warn again, so the next hint starts afresh.
\<close>

theorem cm_power_hint_descriptors:
  assumes "boost_only base s" and "ext_ok ext"
  shows "boost_only base (exec (cm_power_hint ext touch H hint data) s)
    \<and> (\<forall>fd. base fd \<noteq> None \<longrightarrow> fds (exec (cm_power_hint ext touch H hint data) s) fd = base fd)
    \<and> ((touch \<and> hint = POWER_HINT_INTERACTION H \<or> hint = POWER_HINT_CPU_BOOST H)
        \<and> 0 \<le> result (boostpulse_open ext) s
        \<and> result (boost_write data) (exec (boostpulse_open ext) s) < 0 \<longrightarrow>
        boostpulse_fd (exec (cm_power_hint ext touch H hint data) s) = - 1
        \<and> fds (exec (cm_power_hint ext touch H hint data) s) = base)"
proof -
  have o: "boost_only base (exec (boostpulse_open ext) s)" by (rule boost_only_open [OF assms])
  have w: "boost_only base (exec (boost_write data) (exec (boostpulse_open ext) s))"
    by (rule boost_only_write [OF o])
  have b: "boost_only base (exec (cm_power_hint ext touch H hint data) s)"
    using assms(1) o w boost_only_reset [OF w] by (simp add: cm_power_hint_def)
  have "fds t fd = base fd" if "boost_only base t" "base fd \<noteq> None" for t :: "'a cm_scheme" and fd
    using that by (auto simp: boost_only_def split: if_splits)
  then show ?thesis using b boost_only_reset [OF w] by (auto simp: cm_power_hint_def)
qed

section \<open>What a hint writes\<close>

definition boost_kinds :: "(string \<times> string \<times> (string \<times> string) list) set" where
  "boost_kinds = {(''ondemand'', BOOSTPULSE_ONDEMAND, ondemand_writes),
     (''interactive'', BOOSTPULSE_INTERACTIVE, interactive_writes)}"

lemma governor_kinds:
  assumes "(name, path, ws) \<in> boost_kinds" and "g = name @ replicate k NUL @ NUL # r"
  shows "is_ondemand g \<longleftrightarrow> name = ''ondemand''" and "\<not> is_ondemand g \<Longrightarrow> is_interactive g"
  using assms governor_is [of name "''ondemand''" 8 k r] governor_is [of name "''interactive''" 11 k r]
  by (auto simp: boost_kinds_def is_ondemand_def is_interactive_def)

lemma rstrip_kind: "(name, path, ws) \<in> boost_kinds \<Longrightarrow> rstrip (name @ [NL]) = name \<and> NUL \<notin> set (name @ [NL])"
  by (auto simp: boost_kinds_def rstrip_def line_end_def)

lemma write_seq_exec:
  obtains e where "exec (write_seq cm_sysfs_write ps) s
    = s\<lparr>wlog := wlog s @ concat (map (accepted s O_WRONLY) ps), errno := e\<rparr>"
  using cmw.write_seq_effect [of s ps] by (auto simp: same_but_errno_def)

lemma configure_governor_effect:
  fixes s :: "'z cm_scheme"
  assumes "(name, path, ws) \<in> boost_kinds" and "governor s = name @ replicate k NUL @ NUL # r"
  shows "\<exists>e. exec (configure_governor no_ext) s
    = s\<lparr>wlog := wlog s @ concat (map (accepted s O_WRONLY) ((NOTIFY_ON_MIGRATE, ''1'') # ws)), errno := e\<rparr>"
proof -
  obtain e1 where e1: "exec (cm_sysfs_write NOTIFY_ON_MIGRATE ''1'') s
      = s\<lparr>wlog := wlog s @ accepted s O_WRONLY (NOTIFY_ON_MIGRATE, ''1''), errno := e1\<rparr>"
    using cmw.wr_effect [of s NOTIFY_ON_MIGRATE "''1''"] by (auto simp: same_but_errno_def)
  let ?s1 = "s\<lparr>wlog := wlog s @ accepted s O_WRONLY (NOTIFY_ON_MIGRATE, ''1''), errno := e1\<rparr>"
  have "exec (configure_governor no_ext) s = exec (write_seq cm_sysfs_write ws) ?s1"
    using governor_kinds [OF assms] assms(1)
    by (auto simp: configure_governor_def cm_power_set_interactive_def no_ext_def e1 boost_kinds_def)
  moreover obtain e2 where "exec (write_seq cm_sysfs_write ws) ?s1
      = ?s1\<lparr>wlog := wlog ?s1 @ concat (map (accepted ?s1 O_WRONLY) ws), errno := e2\<rparr>"
    by (rule write_seq_exec)
  ultimately show ?thesis by auto
qed

lemma opened_cm [simp]:
  "opened (s\<lparr>governor := g\<rparr>) = opened s" "accepted (s\<lparr>governor := g\<rparr>) = accepted s"
  "accepted (s\<lparr>boostpulse_fd := b\<rparr>) = accepted s"
  for s :: "'z cm_scheme"
  by (auto simp: fun_eq_iff opened_def open_error_def accepted_def free_fd_def fd_slots_def
      driver_write_def split: option.split)

lemma boostpulse_open_first:
  fixes s :: "'z cm_scheme"
  assumes kind: "(name, path, ws) \<in> boost_kinds" and "boostpulse_fd s < 0"
    and node: "node_text s SCALING_GOVERNOR_PATH 19 = Some (name @ [NL])"
    and op: "opened s path O_WRONLY = Some fd" and "0 < fd"
  shows "result (boostpulse_open no_ext) s = fd"
    and "\<exists>e g. exec (boostpulse_open no_ext) s = s\<lparr>governor := g, fds := (fds s)(fd \<mapsto> Node path O_WRONLY),
      boostpulse_fd := fd, wlog := wlog s @ concat (map (accepted (s\<lparr>fds := (fds s)(fd \<mapsto> Node path O_WRONLY)\<rparr>) O_WRONLY)
        ((NOTIFY_ON_MIGRATE, ''1'') # ws)), errno := e\<rparr>"
proof -
  note k = rstrip_kind [OF kind]
  have nul: "NUL \<notin> set (name @ [NL])" and rs: "rstrip (name @ [NL]) = name" using k by simp_all
  have r0: "result get_scaling_governor s = 0" by (rule get_scaling_governor_effect(2) [OF node nul])
  obtain e0 k r where g0: "exec get_scaling_governor s = s\<lparr>errno := e0, governor := name @ replicate k NUL @ NUL # r\<rparr>"
    using get_scaling_governor_effect(1) [OF node nul] unfolding rs by blast
  let ?g = "name @ replicate k NUL @ NUL # r"
  let ?s2 = "s\<lparr>errno := e0, governor := ?g, fds := (fds s)(fd \<mapsto> Node path O_WRONLY), boostpulse_fd := fd\<rparr>"
  have "governor ?s2 = ?g" by simp
  then obtain e where c: "exec (configure_governor no_ext) ?s2 = ?s2\<lparr>wlog := wlog ?s2
      @ concat (map (accepted ?s2 O_WRONLY) ((NOTIFY_ON_MIGRATE, ''1'') # ws)), errno := e\<rparr>"
    using configure_governor_effect [OF kind, of ?s2] by blast
  have a: "accepted ?s2 = accepted (s\<lparr>fds := (fds s)(fd \<mapsto> Node path O_WRONLY)\<rparr>)"
    by (auto simp: fun_eq_iff opened_def open_error_def accepted_def free_fd_def fd_slots_def
      driver_write_def split: option.split)
  have "exec (boostpulse_open no_ext) s = exec (configure_governor no_ext) ?s2"
    using assms(2) op \<open>0 < fd\<close> governor_kinds [OF kind refl] kind
    by (auto simp: boostpulse_open_def g0 r0 boost_kinds_def)
  then have ex: "exec (boostpulse_open no_ext) s = s\<lparr>governor := ?g, fds := (fds s)(fd \<mapsto> Node path O_WRONLY),
      boostpulse_fd := fd, wlog := wlog s @ concat (map (accepted (s\<lparr>fds := (fds s)(fd \<mapsto> Node path O_WRONLY)\<rparr>) O_WRONLY)
        ((NOTIFY_ON_MIGRATE, ''1'') # ws)), errno := e\<rparr>"
    unfolding c a by simp
  then show "\<exists>e g. exec (boostpulse_open no_ext) s = s\<lparr>governor := g, fds := (fds s)(fd \<mapsto> Node path O_WRONLY),
      boostpulse_fd := fd, wlog := wlog s @ concat (map (accepted (s\<lparr>fds := (fds s)(fd \<mapsto> Node path O_WRONLY)\<rparr>) O_WRONLY)
        ((NOTIFY_ON_MIGRATE, ''1'') # ws)), errno := e\<rparr>" by blast
  have "result (boostpulse_open no_ext) s = boostpulse_fd (exec (boostpulse_open no_ext) s)"
    by (simp add: boostpulse_open_def)
  then show "result (boostpulse_open no_ext) s = fd" by (simp add: ex)
qed

definition duration :: "int option \<Rightarrow> string" where
  "duration data = show_int (case data of None \<Rightarrow> 1 | Some d \<Rightarrow> d)"

definition after_write :: "string \<Rightarrow> int option \<Rightarrow> 'z cm_scheme \<Rightarrow> 'z cm_scheme" where
  "after_write path data s = (case driver_write s path (duration data) of
       Inl e \<Rightarrow> s\<lparr>errno := e, fds := (fds s)(boostpulse_fd s := None), boostpulse_fd := - 1, boostpulse_warned := False\<rparr>
     | Inr c \<Rightarrow> s\<lparr>wlog := wlog s @ [(path, take c (duration data))]\<rparr>)"

lemma boost_write_to_duration:
  assumes "\<forall>d. data = Some d \<longrightarrow> int32 d"
  shows "boost_write_to fd data = k_write fd (duration data)"
proof -
  have "int32 (case data of None \<Rightarrow> 1 | Some d \<Rightarrow> d)" using assms by (auto simp: int32_def split: option.split)
  then have "snprintf 80 (duration data) = duration data"
    using length_show_int by (fastforce simp: duration_def)
  then show ?thesis by (simp add: boost_write_to_def Let_def duration_def)
qed

lemma boost_write_effect:
  assumes "fds s (boostpulse_fd s) = Some (Node path O_WRONLY)" and "\<forall>d. data = Some d \<longrightarrow> int32 d"
  shows "exec (do { len \<leftarrow> boost_write data; if len < 0 then boost_reset else ret () }) s = after_write path data s"
proof -
  have w: "boost_write data = do { fd \<leftarrow> gets boostpulse_fd; k_write fd (duration data) }"
    unfolding boost_write_def boost_write_to_duration [OF assms(2)] ..
  show ?thesis
    using assms(1)
    by (simp add: w boost_reset_def after_write_def exec_k_write result_k_write split: sum.split)
qed

lemma cm_power_hint_boost:
  assumes "touch \<and> hint = POWER_HINT_INTERACTION H \<or> hint = POWER_HINT_CPU_BOOST H"
    and "u = exec (boostpulse_open ext) s" and "0 \<le> result (boostpulse_open ext) s"
    and "fds u (boostpulse_fd u) = Some (Node path O_WRONLY)" and "\<forall>d. data = Some d \<longrightarrow> int32 d"
  shows "exec (cm_power_hint ext touch H hint data) s = after_write path data u"
  using assms(1,3) boost_write_effect [OF assms(4,5)] by (simp add: cm_power_hint_def assms(2))

text \<open>
  C22. What a boost hint does.  The first one reads the governor; for each of the two known governors it
  opens that governor's boost node, offers the migration switch and all the settings of the
  governor, and then the duration (1 when none is given).  Later ones only write the duration.
  When the driver refuses the duration the node is closed again.
\<close>

theorem cm_boost_hint:
  assumes "touch \<and> hint = POWER_HINT_INTERACTION H \<or> hint = POWER_HINT_CPU_BOOST H"
    and "\<forall>d. data = Some d \<longrightarrow> int32 d" and "(name, path, ws) \<in> boost_kinds"
  shows "(boostpulse_fd s < 0 \<and> node_text s SCALING_GOVERNOR_PATH 19 = Some (name @ [NL])
        \<and> opened s path O_WRONLY = Some fd \<and> 0 < fd \<longrightarrow>
      (\<exists>e g. exec (cm_power_hint no_ext touch H hint data) s = after_write path data (s\<lparr>governor := g,
         fds := (fds s)(fd \<mapsto> Node path O_WRONLY), boostpulse_fd := fd,
         wlog := wlog s @ concat (map (accepted (s\<lparr>fds := (fds s)(fd \<mapsto> Node path O_WRONLY)\<rparr>) O_WRONLY)
           ((NOTIFY_ON_MIGRATE, ''1'') # ws)), errno := e\<rparr>)))
    \<and> (0 \<le> boostpulse_fd s \<and> fds s (boostpulse_fd s) = Some (Node path O_WRONLY) \<longrightarrow>
      exec (cm_power_hint no_ext touch H hint data) s = after_write path data s)"
proof (intro conjI impI; (elim conjE)?)
  assume a: "boostpulse_fd s < 0" "node_text s SCALING_GOVERNOR_PATH 19 = Some (name @ [NL])"
    "opened s path O_WRONLY = Some fd" "0 < fd"
  note o = boostpulse_open_first [OF assms(3) a]
  obtain e g where u: "exec (boostpulse_open no_ext) s = s\<lparr>governor := g, fds := (fds s)(fd \<mapsto> Node path O_WRONLY),
      boostpulse_fd := fd, wlog := wlog s @ concat (map (accepted (s\<lparr>fds := (fds s)(fd \<mapsto> Node path O_WRONLY)\<rparr>) O_WRONLY)
        ((NOTIFY_ON_MIGRATE, ''1'') # ws)), errno := e\<rparr>" using o(2) by blast
  show "\<exists>e g. exec (cm_power_hint no_ext touch H hint data) s = after_write path data (s\<lparr>governor := g,
         fds := (fds s)(fd \<mapsto> Node path O_WRONLY), boostpulse_fd := fd,
         wlog := wlog s @ concat (map (accepted (s\<lparr>fds := (fds s)(fd \<mapsto> Node path O_WRONLY)\<rparr>) O_WRONLY)
           ((NOTIFY_ON_MIGRATE, ''1'') # ws)), errno := e\<rparr>)"
    using cm_power_hint_boost [OF assms(1) u [symmetric], of path data] o(1) a(4) assms(2) by auto
next
  assume "0 \<le> boostpulse_fd s" "fds s (boostpulse_fd s) = Some (Node path O_WRONLY)"
  moreover from this have "exec (boostpulse_open no_ext) s = s" "result (boostpulse_open no_ext) s = boostpulse_fd s"
    by (simp_all add: boostpulse_open_def)
  ultimately show "exec (cm_power_hint no_ext touch H hint data) s = after_write path data s"
    using cm_power_hint_boost [OF assms(1) refl, of no_ext s path data] assms(2) by simp
qed

section \<open>A concrete module\<close>

text \<open>The boost node's driver refuses every write when \<open>bad\<close>.\<close>

definition cm_demo :: "bool \<Rightarrow> cm" where
  "cm_demo bad = kernel.extend (plain_kernel
      [(SCALING_GOVERNOR_PATH, plain_node (''interactive'' @ [NL])),
       (BOOSTPULSE_INTERACTIVE, (plain_node [])\<lparr>n_write := (\<lambda>d. if bad then Inl 5 else Inr (length d))\<rparr>)])
     \<lparr>boostpulse_fd = - 1, boostpulse_warned = False, governor = zeros 20\<rparr>"

lemma cm_demo_facts:
  "boostpulse_fd (cm_demo bad) = - 1" "fds (cm_demo bad) = std_fds" "wlog (cm_demo bad) = []"
  "opened (cm_demo bad) BOOSTPULSE_INTERACTIVE O_WRONLY = Some 3"
  "node_text (cm_demo bad) SCALING_GOVERNOR_PATH 19 = Some (''interactive'' @ [NL])"
  "driver_write (cm_demo bad) BOOSTPULSE_INTERACTIVE d = (if bad then Inl 5 else Inr (length d))"
  by (simp_all add: cm_demo_def kernel.defs plain_kernel_def opened_def open_error_def free_fd_def fd_slots_def
      std_fds_def upt_rec plain_node_def node_text_def driver_write_def SCALING_GOVERNOR_PATH_def
      BOOSTPULSE_INTERACTIVE_def)

theorem get_scaling_governor_correct_witness:
  "c_string (governor (exec get_scaling_governor (cm_demo False))) = Some ''interactive''"
  using get_scaling_governor_correct [of "cm_demo False"] by (simp add: cm_demo_facts)

lemma demo_config:
  "accepted ((cm_demo bad)\<lparr>fds := std_fds(3 \<mapsto> Node BOOSTPULSE_INTERACTIVE O_WRONLY)\<rparr>) O_WRONLY
     (NOTIFY_ON_MIGRATE, ''1'') = []"
  "map (accepted ((cm_demo bad)\<lparr>fds := std_fds(3 \<mapsto> Node BOOSTPULSE_INTERACTIVE O_WRONLY)\<rparr>) O_WRONLY)
     interactive_writes = replicate 5 []"
  by (simp_all add: accepted_def opened_def open_error_def cm_demo_def kernel.defs plain_kernel_def
      NOTIFY_ON_MIGRATE_def interactive_writes_def SCALING_GOVERNOR_PATH_def BOOSTPULSE_INTERACTIVE_def
      eval_nat_numeral)

theorem cm_boost_hint_witness:
  "wlog (exec (cm_power_hint no_ext True cm_hints 2 (Some 80)) (cm_demo False)) = [(BOOSTPULSE_INTERACTIVE, ''80'')]"
proof -
  have k: "(''interactive'', BOOSTPULSE_INTERACTIVE, interactive_writes) \<in> boost_kinds" by (simp add: boost_kinds_def)
  have h: "True \<and> 2 = POWER_HINT_INTERACTION cm_hints \<or> 2 = POWER_HINT_CPU_BOOST cm_hints" by (simp add: cm_hints_def)
  have d: "\<forall>d. Some 80 = Some d \<longrightarrow> int32 d" by (simp add: int32_def)
  have "show_int 80 = ''80''" by (simp add: show_int_def show_nat.simps)
  then have dur: "duration (Some 80) = ''80''" by (simp add: duration_def)
  from cm_boost_hint [OF h d k, of "cm_demo False" 3]
  obtain e g where "exec (cm_power_hint no_ext True cm_hints 2 (Some 80)) (cm_demo False)
      = after_write BOOSTPULSE_INTERACTIVE (Some 80) ((cm_demo False)\<lparr>governor := g,
         fds := std_fds(3 \<mapsto> Node BOOSTPULSE_INTERACTIVE O_WRONLY), boostpulse_fd := 3, wlog := [], errno := e\<rparr>)"
    by (auto simp: cm_demo_facts demo_config)
  moreover have "driver_write ((cm_demo False)\<lparr>governor := g, fds := f, boostpulse_fd := 3, wlog := [], errno := e\<rparr>)
      BOOSTPULSE_INTERACTIVE ''80'' = Inr 2" for g f e
    using cm_demo_facts(6) [of False "''80''"] by (simp add: driver_write_def)
  ultimately show ?thesis by (simp add: after_write_def dur)
qed

theorem cm_power_hint_descriptors_witness:
  "boostpulse_fd (exec (cm_power_hint no_ext True cm_hints 2 None) (cm_demo True)) = - 1
   \<and> fds (exec (cm_power_hint no_ext True cm_hints 2 None) (cm_demo True)) = std_fds"
proof -
  have b: "boost_only std_fds (cm_demo True)" by (simp add: boost_only_def cm_demo_facts std_fds_def)
  have k: "(''interactive'', BOOSTPULSE_INTERACTIVE, interactive_writes) \<in> boost_kinds" by (simp add: boost_kinds_def)
  have n: "boostpulse_fd (cm_demo True) < 0" "(0 :: int) < 3" by (simp_all add: cm_demo_facts)
  note o = boostpulse_open_first [OF k n(1) cm_demo_facts(5,4) n(2)]
  obtain e g where u: "exec (boostpulse_open no_ext) (cm_demo True) = (cm_demo True)\<lparr>governor := g,
      fds := std_fds(3 \<mapsto> Node BOOSTPULSE_INTERACTIVE O_WRONLY), boostpulse_fd := 3, wlog := [], errno := e\<rparr>"
    using o(2) by (auto simp: cm_demo_facts demo_config)
  have "result (boost_write None) (exec (boostpulse_open no_ext) (cm_demo True)) < 0"
    using cm_demo_facts(6) [of True]
    by (simp add: u boost_write_def boost_write_to_def Let_def result_k_write driver_write_def)
  then show ?thesis
    using cm_power_hint_descriptors [OF b no_ext_ok, of True cm_hints 2 None] o(1) by (simp add: cm_hints_def)
qed

end
