(* ===== verification/Cm_Power_Session.thy ===== *)
theory Cm_Power_Session
  imports Cm_Power_Props
begin

text \<open>
  The CyanogenMod power module as the framework uses it: any sequence of calls through its method
  table.  What holds throughout is that the buffer \<open>governor\<close> is a C string within its 20 bytes, and
  that the boost node is the only descriptor the module has.
\<close>

section \<open>The governor buffer\<close>

definition governor_ok :: "string \<Rightarrow> bool" where
  "governor_ok g \<longleftrightarrow> length g = 20 \<and> g ! 19 = NUL"

lemma governor_ok_store:
  assumes "governor_ok g" and "length d \<le> 19"
  shows "governor_ok (store (d @ [NUL]) g)"
  using assms by (auto simp: governor_ok_def store_def nth_append nth_Cons' Suc_le_eq)

lemma governor_ok_strip: "governor_ok g \<Longrightarrow> governor_ok (strip_newlines n g)"
proof (induction n g rule: strip_newlines.induct)
  case (2 len g)
  have "governor_ok (g[len := NUL])" using 2(2) by (cases "len = 19") (simp_all add: governor_ok_def)
  then show ?case using 2 by simp
qed simp

lemma governor_ok_read:
  assumes "governor_ok (governor s)"
  shows "governor_ok (governor (exec get_scaling_governor s))"
proof -
  obtain e where e: "exec (cm_sysfs_read SCALING_GOVERNOR_PATH (governor s) 20) s = s\<lparr>errno := e\<rparr>"
    using cm_sysfs_read_effect [of s SCALING_GOVERNOR_PATH "governor s" 20] by (auto simp: same_but_errno_def)
  have "length d \<le> 19" if "node_text s SCALING_GOVERNOR_PATH 19 = Some d" for d
    using that by (auto simp: node_text_def split: if_splits option.splits sum.splits)
  then have "governor_ok (snd (result (cm_sysfs_read SCALING_GOVERNOR_PATH (governor s) 20) s))"
    using assms governor_ok_store
    by (simp add: cm_sysfs_read_effect [of s SCALING_GOVERNOR_PATH "governor s" 20] split: option.split)
  then show ?thesis
    by (auto simp: get_scaling_governor_def e governor_ok_strip split: prod.split)
qed

lemma governor_configure: "ext_ok ext \<Longrightarrow> governor (exec (configure_governor ext) s) = governor s"
  by (auto simp: configure_governor_def cm_power_set_interactive_def ext_ok_def)

lemma governor_ok_open:
  assumes "governor_ok (governor s)" and "ext_ok ext"
  shows "governor_ok (governor (exec (boostpulse_open ext) s))"
proof -
  have o: "governor (exec (k_open p fl) s) = governor s" for p fl and s :: "'a cm_scheme"
    by (simp split: option.split)
  show ?thesis
    using assms governor_ok_read [OF assms(1)]
    by (simp add: boostpulse_open_def governor_configure o del: exec_k_open result_k_open)
qed

lemma governor_boost_write [simp]: "governor (exec (boost_write data) s) = governor s"
proof -
  have "governor (exec (k_write fd d) s) = governor s" for fd d and s :: "'a cm_scheme"
    by (auto simp: k_write_def split: option.split ofile.split sum.split)
  then show ?thesis by (simp add: boost_write_def boost_write_to_def Let_def)
qed

section \<open>Sessions\<close>

inductive cm_service :: "'z cm_module \<Rightarrow> 'z cm_scheme \<Rightarrow> 'z cm_scheme \<Rightarrow> bool" for M where
  s_init: "cm_service M s (exec (cm_init_hook M) s)"
| s_interactive: "cm_service M s (exec (cm_setInteractive M on) s)"
| s_hint: "cm_service M s (exec (cm_powerHint M hint data) s)"
| s_nodes: "cm_service M s (s\<lparr>nodes := N\<rparr>)"

definition cm_ok :: "(int \<Rightarrow> ofile option) \<Rightarrow> 'z cm_scheme \<Rightarrow> bool" where
  "cm_ok base s \<longleftrightarrow> governor_ok (governor s) \<and> boost_only base s"

definition cm_starts :: "(int \<Rightarrow> ofile option) \<Rightarrow> 'z cm_scheme \<Rightarrow> bool" where
  "cm_starts base s \<longleftrightarrow> cm_start s \<and> fds s = base \<and> (\<forall>fd<0. base fd = None)"

lemma cm_ok_init: "cm_starts base s \<Longrightarrow> cm_ok base s"
  by (simp add: cm_starts_def cm_start_def cm_ok_def governor_ok_def boost_only_def zeros_def)

lemma cm_ok_step:
  assumes ok: "cm_ok base s" and "ext_ok ext" and "cm_service (cm_HAL_MODULE_INFO_SYM ext touch H) s t"
  shows "cm_ok base t"
  using assms(3)
proof cases
  case s_init
  let ?g = "exec get_scaling_governor s"
  have "boost_only base ?g" using ok get_scaling_governor_fds [of s] by (auto simp: cm_ok_def intro: boost_only_cong)
  then have "boost_only base (exec (configure_governor ext) ?g)"
    using configure_governor_fds [OF assms(2), of ?g] by (auto intro: boost_only_cong)
  then show ?thesis
    using ok by (simp add: s_init cm_HAL_MODULE_INFO_SYM_def cm_power_init_def cm_ok_def governor_configure [OF assms(2)]
        governor_ok_read)
next
  case (s_interactive on)
  let ?w = "exec (cm_sysfs_write NOTIFY_ON_MIGRATE (if on \<noteq> 0 then ''1'' else ''0'')) s"
  have t: "t = exec (ext on) ?w"
    by (simp add: s_interactive cm_HAL_MODULE_INFO_SYM_def cm_power_set_interactive_def)
  have e: "fds t = fds ?w" "boostpulse_fd t = boostpulse_fd ?w" "governor t = governor ?w"
    using assms(2) unfolding ext_ok_def t by blast+
  then show ?thesis using ok by (simp add: cm_ok_def boost_only_def cmw.wr_fields)
next
  case (s_hint hint data)
  let ?o = "exec (boostpulse_open ext) s"
  have b: "boost_only base ?o" "governor_ok (governor ?o)"
    using ok by (auto simp: cm_ok_def intro: boost_only_open(1) governor_ok_open assms(2))
  have w: "boost_only base (exec (boost_write data) ?o)" by (rule boost_only_write [OF b(1)])
  have r: "governor (exec boost_reset u) = governor u" for u :: "'a cm_scheme" by (simp add: boost_reset_def)
  show ?thesis
    using ok b w boost_only_reset [OF w]
    by (simp add: s_hint cm_HAL_MODULE_INFO_SYM_def cm_power_hint_def cm_ok_def r)
next
  case (s_nodes N)
  then show ?thesis using ok by (simp add: cm_ok_def boost_only_def)
qed

interpretation cms: plain_invariant "cm_starts base"
  "cm_service (cm_HAL_MODULE_INFO_SYM ext touch H)" "\<lambda>s. ext_ok ext \<longrightarrow> cm_ok base s"
  for base ext touch H
  by unfold_locales (auto intro: cm_ok_init cm_ok_step)

text \<open>
  C20. Whatever the framework calls, in whatever order and however the nodes change, the buffer for the
  governor's name is never overrun: it keeps its 20 bytes and always ends in a NUL, so every
  comparison with a governor's name stays inside it; and the only descriptor the module ever has
  open is that of its boost node.
\<close>

theorem cm_session:
  assumes "ext_ok ext"
    and "reach (cm_starts base) (cm_service (cm_HAL_MODULE_INFO_SYM ext touch H)) n s"
  shows "length (governor s) = 20 \<and> governor s ! 19 = NUL
    \<and> (\<exists>g. c_string (governor s) = Some g \<and> length g < 20)
    \<and> {fd. fds s fd \<noteq> None} = {fd. base fd \<noteq> None} \<union> (if boostpulse_fd s < 0 then {} else {boostpulse_fd s})
    \<and> (0 \<le> boostpulse_fd s \<longrightarrow> base (boostpulse_fd s) = None)"
proof -
  have ok: "cm_ok base s" using cms.always [OF assms(2)] assms(1) by simp
  then have g: "length (governor s) = 20" "governor s ! 19 = NUL" by (simp_all add: cm_ok_def governor_ok_def)
  then have nul: "NUL \<in> set (governor s)" using nth_mem [of 19 "governor s"] by simp
  have "takeWhile (\<lambda>c. c \<noteq> NUL) (governor s) \<noteq> governor s" using nul by (metis set_takeWhileD)
  then have "length (takeWhile (\<lambda>c. c \<noteq> NUL) (governor s)) < 20"
    using g(1) length_takeWhile_le [of "\<lambda>c. c \<noteq> NUL" "governor s"] takeWhile_eq_take [of "\<lambda>c. c \<noteq> NUL" "governor s"]
    by (metis le_neq_implies_less take_all_iff)
  then show ?thesis
    using ok g nul by (auto simp: c_string_def cm_ok_def boost_only_def split: if_splits)
qed

theorem cm_session_witness:
  "length (governor (exec (cm_power_init no_ext) (cm_demo False))) = 20
   \<and> governor (exec (cm_power_init no_ext) (cm_demo False)) ! 19 = NUL"
proof -
  let ?M = "cm_HAL_MODULE_INFO_SYM no_ext True cm_hints"
  let ?t = "exec (cm_init_hook ?M) (cm_demo False)"
  have "reach (cm_starts std_fds) (cm_service ?M) 0 (cm_demo False)"
    by (rule reach_init)
      (simp add: cm_starts_def cm_start_def cm_demo_def kernel.defs plain_kernel_def std_fds_def)
  then have "reach (cm_starts std_fds) (cm_service ?M) (Suc 0) ?t" by (rule reach_step) (rule s_init)
  from cm_session [OF no_ext_ok this] show ?thesis by (simp add: cm_HAL_MODULE_INFO_SYM_def)
qed

end
