(* ===== verification/Cm_Power_Threads.thy ===== *)
theory Cm_Power_Threads
  imports Cm_Power_Props
begin

text \<open>
  Boost hints given by any number of threads at once.  \<open>boostpulse_open\<close> and the reset after a failed
  write run under the module's lock and are steps of their own; between them the thread loads
  \<open>boostpulse_fd\<close> and writes to it without the lock, so that another thread may have reset or
  reopened the node before the load, and also between the load and the write.  The rest of the
  process opens and closes descriptors, and the nodes may change, at any time.
\<close>

datatype cm_pc = Idle | Ready "int option" | Writing int "int option" | Resetting

text \<open>\<open>base\<close> is a ghost field: the descriptors of the rest of the process.\<close>

record cmproc = cm +
  base :: "int \<Rightarrow> ofile option"
  pcs :: "nat \<Rightarrow> cm_pc"

inductive cm_step :: "cmproc \<Rightarrow> cmproc \<Rightarrow> bool" where
  cm_open: "pcs s i = Idle \<Longrightarrow>
    cm_step s ((exec (boostpulse_open no_ext) s)
      \<lparr>pcs := (pcs s)(i := if 0 \<le> result (boostpulse_open no_ext) s then Ready data else Idle)\<rparr>)"
| cm_load: "pcs s i = Ready data \<Longrightarrow>
    cm_step s (s\<lparr>pcs := (pcs s)(i := Writing (boostpulse_fd s) data)\<rparr>)"
| cm_write: "pcs s i = Writing fd data \<Longrightarrow>
    cm_step s ((exec (boost_write_to fd data) s)
      \<lparr>pcs := (pcs s)(i := if result (boost_write_to fd data) s < 0 then Resetting else Idle)\<rparr>)"
| cm_reset: "pcs s i = Resetting \<Longrightarrow>
    cm_step s ((exec boost_reset s)\<lparr>pcs := (pcs s)(i := Idle)\<rparr>)"
| other_open: "fds s fd = None \<Longrightarrow> 0 \<le> fd \<Longrightarrow>
    cm_step s (s\<lparr>fds := (fds s)(fd \<mapsto> x), base := (base s)(fd \<mapsto> x)\<rparr>)"
| other_close: "base s fd \<noteq> None \<Longrightarrow>
    cm_step s (s\<lparr>fds := (fds s)(fd := None), base := (base s)(fd := None)\<rparr>)"
| nodes_change: "cm_step s (s\<lparr>nodes := N\<rparr>)"

definition cm_init :: "cmproc \<Rightarrow> bool" where
  "cm_init s \<longleftrightarrow> cm_start s \<and> base s = fds s \<and> (\<forall>fd<0. fds s fd = None) \<and> (\<forall>i. pcs s i = Idle)"

definition cm_inv :: "cmproc \<Rightarrow> bool" where
  "cm_inv s \<longleftrightarrow> boost_only (base s) s"

lemma base_open [simp]: "base (exec (boostpulse_open no_ext) s) = base s" for s :: cmproc
proof -
  have g: "cmproc.more (exec get_scaling_governor s) = cmproc.more s \<and> base (exec get_scaling_governor s) = base s"
    for s :: cmproc
  proof -
    obtain e where e: "exec (cm_sysfs_read SCALING_GOVERNOR_PATH (governor s) 20) s = s\<lparr>errno := e\<rparr>"
      using cm_sysfs_read_effect [of s SCALING_GOVERNOR_PATH "governor s" 20] by (auto simp: same_but_errno_def)
    then show ?thesis by (simp add: get_scaling_governor_def e split: prod.split)
  qed
  have w: "base (exec (cm_sysfs_write p d) s) = base s" for p d and s :: cmproc
    using cmw.wr_effect [of s p d] by (auto simp: same_but_errno_def)
  have ws: "base (exec (write_seq cm_sysfs_write ps) s) = base s" for ps and s :: cmproc
    using cmw.write_seq_effect [of s ps] by (auto simp: same_but_errno_def)
  have c: "base (exec (configure_governor no_ext) s) = base s" for s :: cmproc
    by (simp add: configure_governor_def cm_power_set_interactive_def no_ext_def w ws)
  have o: "base (exec (k_open p fl) s) = base s" for p fl and s :: cmproc
    by (simp split: option.split)
  show ?thesis by (simp add: boostpulse_open_def g c o del: exec_k_open result_k_open)
qed

lemma base_write [simp]: "base (exec (boost_write_to fd data) s) = base s" for s :: cmproc
  by (auto simp: boost_write_to_def Let_def k_write_def split: option.split ofile.split sum.split)

lemma cm_inv_step:
  assumes "cm_inv s" and "cm_step s t"
  shows "cm_inv t"
  using assms(2,1)
proof cases
  case (cm_open i data)
  have "boost_only (base s) (exec (boostpulse_open no_ext) s)"
    using assms(1) no_ext_ok by (intro boost_only_open) (simp_all add: cm_inv_def)
  then show ?thesis by (simp add: cm_open cm_inv_def boost_only_def)
next
  case (cm_load i data)
  then show ?thesis using assms(1) by (simp add: cm_inv_def boost_only_def)
next
  case (cm_write i fd data)
  have "boost_only (base s) (exec (boost_write_to fd data) s)"
    using assms(1) by (intro boost_only_write_to) (simp add: cm_inv_def)
  then show ?thesis by (simp add: cm_write cm_inv_def boost_only_def)
next
  case (cm_reset i)
  have "boost_only (base s) (exec boost_reset s)"
    using assms(1) boost_only_reset [of "base s" s] by (simp add: cm_inv_def)
  moreover have "base (exec boost_reset s) = base s" by (simp add: boost_reset_def)
  ultimately show ?thesis by (simp add: cm_reset cm_inv_def boost_only_def)
next
  case (other_open fd x)
  then show ?thesis using assms(1) by (auto simp: cm_inv_def boost_only_def fun_upd_twist split: if_splits)
next
  case (other_close fd)
  then show ?thesis using assms(1) by (auto simp: cm_inv_def boost_only_def fun_upd_twist split: if_splits)
next
  case (nodes_change N)
  then show ?thesis using assms(1) by (simp add: cm_inv_def boost_only_def)
qed

lemma cm_inv_init: "cm_init s \<Longrightarrow> cm_inv s"
  by (simp add: cm_init_def cm_inv_def boost_only_def cm_start_def)

interpretation cmt: plain_invariant cm_init cm_step cm_inv
  by unfold_locales (auto intro: cm_inv_init cm_inv_step)

text \<open>
  C19. However the hints of any number of threads interleave, with each other and with the rest of the
  process, the only descriptor the module ever has open is the one in \<open>boostpulse_fd\<close>: nothing
  is leaked, and a reset, even one that comes late and finds the node closed or reopened by
  another thread, never closes a descriptor of the rest of the process.
\<close>

theorem cm_threads_descriptors:
  assumes "reach cm_init cm_step n s"
  shows "{fd. fds s fd \<noteq> None} = {fd. base s fd \<noteq> None} \<union> (if boostpulse_fd s < 0 then {} else {boostpulse_fd s})
    \<and> (0 \<le> boostpulse_fd s \<longrightarrow> base s (boostpulse_fd s) = None)
    \<and> (\<forall>fd. base s fd \<noteq> None \<longrightarrow> fds (exec boost_reset s) fd = base s fd)"
proof -
  have i: "boost_only (base s) s"
    using cmt.always [OF assms] by (simp add: cm_inv_def)
  show ?thesis
    using i boost_only_reset [OF i] by (auto simp: boost_only_def split: if_splits)
qed

definition cm_demo_proc :: cmproc where
  "cm_demo_proc = cm.extend (cm_demo True) \<lparr>base = std_fds, pcs = (\<lambda>_. Idle)\<rparr>"

lemma cm_demo_proc_facts:
  "fds cm_demo_proc = std_fds" "boostpulse_fd cm_demo_proc = - 1" "base cm_demo_proc = std_fds"
  "pcs cm_demo_proc = (\<lambda>_. Idle)" "cm_init cm_demo_proc"
  "opened cm_demo_proc BOOSTPULSE_INTERACTIVE O_WRONLY = Some 3"
  "node_text cm_demo_proc SCALING_GOVERNOR_PATH 19 = Some (''interactive'' @ [NL])"
  by (simp_all add: cm_demo_proc_def cm.defs cm_demo_def kernel.defs plain_kernel_def opened_def open_error_def
      free_fd_def fd_slots_def upt_rec plain_node_def node_text_def SCALING_GOVERNOR_PATH_def
      BOOSTPULSE_INTERACTIVE_def cm_init_def cm_start_def std_fds_def)

theorem cm_threads_descriptors_witness:
  "\<exists>s. reach cm_init cm_step 1 s \<and> pcs s 7 = Ready None \<and> boostpulse_fd s = 3
     \<and> {fd. fds s fd \<noteq> None} = {0, 1, 2, 3}"
proof -
  let ?s = "cm_demo_proc"
  have k: "(''interactive'', BOOSTPULSE_INTERACTIVE, interactive_writes) \<in> boost_kinds" by (simp add: boost_kinds_def)
  have n: "boostpulse_fd ?s < 0" "(0 :: int) < 3" by (simp_all add: cm_demo_proc_facts)
  note o = boostpulse_open_first [OF k n(1) cm_demo_proc_facts(7,6) n(2)]
  define t where "t = (exec (boostpulse_open no_ext) ?s)
    \<lparr>pcs := (pcs ?s)(7 := if 0 \<le> result (boostpulse_open no_ext) ?s then Ready None else Idle)\<rparr>"
  have "cm_step ?s t" unfolding t_def by (rule cm_open) (simp add: cm_demo_proc_facts)
  moreover have "reach cm_init cm_step 0 ?s" using cm_demo_proc_facts(5) by (rule reach_init)
  ultimately have r: "reach cm_init cm_step 1 t" using reach_step [where step = cm_step] by fastforce
  have f: "pcs t 7 = Ready None" "boostpulse_fd t = 3" "base t = std_fds"
    using o by (auto simp: t_def cm_demo_proc_facts)
  have "{fd. fds t fd \<noteq> None} = {0, 1, 2, 3}"
    using cm_threads_descriptors [OF r] f by (auto simp: std_fds_def split: if_splits)
  then show ?thesis using r f by blast
qed

section \<open>A write that comes late\<close>

text \<open>
  C39. The write of a hint does not take the lock.  When one thread has loaded the boost node's
  descriptor and another one resets the module after a failed write, the number can be given to a
  file of another part of the process before the first thread writes: the duration then goes into
  that file.
\<close>

theorem cm_stale_write:
  assumes "pcs s i = Writing fd data" and "pcs s j = Resetting" and "boostpulse_fd s = fd" and "0 \<le> fd"
    and "driver_write s p (duration data) = Inr c" and "\<forall>d. data = Some d \<longrightarrow> int32 d"
  shows "\<exists>t u. run cm_step 2 s t \<and> base t fd = Some (Node p O_RDWR) \<and> boostpulse_fd t = - 1
    \<and> cm_step t u \<and> wlog u = wlog s @ [(p, take c (duration data))]"
proof -
  have "i \<noteq> j" using assms(1,2) by auto
  let ?r = "(exec boost_reset s)\<lparr>pcs := (pcs s)(j := Idle)\<rparr>"
  let ?t = "?r\<lparr>fds := (fds ?r)(fd \<mapsto> Node p O_RDWR), base := (base ?r)(fd \<mapsto> Node p O_RDWR)\<rparr>"
  let ?u = "(exec (boost_write_to fd data) ?t)
      \<lparr>pcs := (pcs ?t)(i := if result (boost_write_to fd data) ?t < 0 then Resetting else Idle)\<rparr>"
  have "cm_step s ?r" using assms(2) by (rule cm_reset)
  moreover have "cm_step ?r ?t"
    using assms(3,4) by (intro other_open) (simp_all add: boost_reset_def)
  ultimately have "run cm_step 2 s ?t" using run_snoc [OF run_single] by (metis numeral_2_eq_2)
  moreover have "cm_step ?t ?u"
    using assms(1) \<open>i \<noteq> j\<close> by (intro cm_write) simp
  moreover have "driver_write ?t p (duration data) = Inr c"
    using assms(5) by (simp add: boost_reset_def driver_write_def)
  then have "wlog ?u = wlog s @ [(p, take c (duration data))]"
    by (simp add: boost_write_to_duration [OF assms(6)] exec_k_write boost_reset_def)
  ultimately show ?thesis by (intro exI [of _ ?t] exI [of _ ?u]) (simp add: boost_reset_def)
qed

text \<open>Two threads have loaded the descriptor, and the write of one has failed.\<close>

lemma cm_stale_reached:
  "\<exists>s. reach cm_init cm_step 5 s \<and> pcs s 1 = Writing 3 None \<and> pcs s 2 = Resetting \<and> boostpulse_fd s = 3
     \<and> nodes s = nodes cm_demo_proc"
proof -
  let ?s = "cm_demo_proc" and ?R = "reach cm_init cm_step"
  have k: "(''interactive'', BOOSTPULSE_INTERACTIVE, interactive_writes) \<in> boost_kinds" by (simp add: boost_kinds_def)
  have n: "boostpulse_fd ?s < 0" "(0 :: int) < 3" by (simp_all add: cm_demo_proc_facts)
  note o = boostpulse_open_first [OF k n(1) cm_demo_proc_facts(7,6) n(2)]
  obtain e g l where a: "exec (boostpulse_open no_ext) ?s = ?s\<lparr>governor := g,
      fds := std_fds(3 \<mapsto> Node BOOSTPULSE_INTERACTIVE O_WRONLY), boostpulse_fd := 3, wlog := l, errno := e\<rparr>"
    using o(2) unfolding cm_demo_proc_facts(1) by blast
  let ?a = "\<lambda>P. ?s\<lparr>governor := g, fds := std_fds(3 \<mapsto> Node BOOSTPULSE_INTERACTIVE O_WRONLY),
      boostpulse_fd := 3, wlog := l, errno := e, pcs := P\<rparr>"
  let ?I = "\<lambda>_ :: nat. Idle"
  have "?R 0 ?s" using cm_demo_proc_facts(5) by (rule reach_init)
  moreover have "cm_step ?s (?a (?I(1 := Ready None)))"
    using cm_open [of ?s 1 None] by (simp add: a o(1) cm_demo_proc_facts)
  ultimately have 1: "?R (Suc 0) (?a (?I(1 := Ready None)))" by (rule reach_step)
  have b: "exec (boostpulse_open no_ext) (?a P) = ?a P" "result (boostpulse_open no_ext) (?a P) = 3" for P
    by (simp_all add: boostpulse_open_def)
  have "cm_step (?a (?I(1 := Ready None))) (?a (?I(1 := Ready None, 2 := Ready None)))"
    using cm_open [of "?a (?I(1 := Ready None))" 2 None] by (simp add: b)
  with 1 have 2: "?R (Suc (Suc 0)) (?a (?I(1 := Ready None, 2 := Ready None)))" by (rule reach_step)
  have "cm_step (?a (?I(1 := Ready None, 2 := Ready None))) (?a (?I(1 := Writing 3 None, 2 := Ready None)))"
    using cm_load [of "?a (?I(1 := Ready None, 2 := Ready None))" 1 None] by (simp add: fun_upd_twist)
  with 2 have 3: "?R (Suc (Suc (Suc 0))) (?a (?I(1 := Writing 3 None, 2 := Ready None)))" by (rule reach_step)
  have "cm_step (?a (?I(1 := Writing 3 None, 2 := Ready None))) (?a (?I(1 := Writing 3 None, 2 := Writing 3 None)))"
    using cm_load [of "?a (?I(1 := Writing 3 None, 2 := Ready None))" 2 None] by simp
  with 3 have 4: "?R (Suc (Suc (Suc (Suc 0)))) (?a (?I(1 := Writing 3 None, 2 := Writing 3 None)))" by (rule reach_step)
  let ?w = "?a (?I(1 := Writing 3 None, 2 := Writing 3 None))"
  have d: "driver_write ?w BOOSTPULSE_INTERACTIVE (duration None) = Inl 5"
    by (simp add: driver_write_def cm_demo_proc_def cm.defs cm_demo_def kernel.defs plain_kernel_def
        SCALING_GOVERNOR_PATH_def BOOSTPULSE_INTERACTIVE_def)
  have "cm_step ?w (?w\<lparr>errno := 5, pcs := ?I(1 := Writing 3 None, 2 := Resetting)\<rparr>)"
    using cm_write [of ?w 2 3 None] d by (simp add: boost_write_to_duration exec_k_write result_k_write)
  with 4 have "?R (Suc (Suc (Suc (Suc (Suc 0))))) (?w\<lparr>errno := 5, pcs := ?I(1 := Writing 3 None, 2 := Resetting)\<rparr>)"
    by (rule reach_step)
  then show ?thesis by (intro exI conjI) (simp add: eval_nat_numeral, simp_all)
qed

theorem cm_stale_write_witness:
  "\<exists>s t u. reach cm_init cm_step 5 s \<and> run cm_step 2 s t \<and> base t 3 = Some (Node SCALING_GOVERNOR_PATH O_RDWR)
     \<and> cm_step t u \<and> wlog u = wlog s @ [(SCALING_GOVERNOR_PATH, ''1'')]"
proof -
  obtain s where s: "reach cm_init cm_step 5 s" "pcs s 1 = Writing 3 None" "pcs s 2 = Resetting" "boostpulse_fd s = 3"
    "nodes s = nodes cm_demo_proc" using cm_stale_reached by blast
  have d: "duration None = ''1''" by (simp add: duration_def show_int_def show_nat.simps)
  have "driver_write s SCALING_GOVERNOR_PATH (duration None) = Inr 1"
    by (simp add: driver_write_def s(5) d cm_demo_proc_def cm.defs cm_demo_def kernel.defs plain_kernel_def plain_node_def)
  from cm_stale_write [OF s(2,3,4) _ this] show ?thesis using s(1) by (auto simp: d)
qed

end
